(* ===== verification/Prelude.thy ===== *)
theory Prelude
  imports Main "HOL-Library.Word" "HOL-Library.Sublist"
begin

text \<open>
  Shared vocabulary of the development: the ways the C++ code can stop abnormally
  (\<open>fault\<close>), the result type of every fallible operation, the arithmetic of
  \<open>size_t\<close> and of the 64-bit nanosecond counts, the part of \<open>std::vector\<close>,
  \<open>std::copy\<close>, \<open>std::search\<close> and \<open>memchr\<close> the code uses, and the
  generic transition systems in which the concurrent components are stated.
\<close>

section \<open>Faults and results\<close>

text \<open>
  The build (\<^verbatim>\<open>CMakeLists.txt\<close>: \<^verbatim>\<open>-std=c++14 -g\<close>, no \<^verbatim>\<open>NDEBUG\<close>) keeps every
  \<^verbatim>\<open>assert\<close>, so a failing assertion aborts the process: it is the value
  \<open>AssertFailed\<close> with the text of the condition. The other faults are the undefined
  behaviour and the exceptions the modelled code can run into, and \<open>ExitProcess\<close> is
  the \<^verbatim>\<open>exit(-1)\<close> of \<^verbatim>\<open>FATAL\<close> and \<^verbatim>\<open>SYSFATAL\<close>.
\<close>

datatype fault =
    AssertFailed string
  | LengthError
  | OutOfBounds
  | SignedOverflow
  | UseAfterFree
  | NullDeref
  | BadFunctionCall
  | ExitProcess string

type_synonym 'a res = "fault + 'a"

definition bindR :: "'a res \<Rightarrow> ('a \<Rightarrow> 'b res) \<Rightarrow> 'b res" where
  "bindR m k = (case m of Inl e \<Rightarrow> Inl e | Inr x \<Rightarrow> k x)"

definition assertR :: "bool \<Rightarrow> string \<Rightarrow> 'a res \<Rightarrow> 'a res" where
  "assertR b msg k = (if b then k else Inl (AssertFailed msg))"

named_theorems sz_simps "exactness of the machine arithmetic inside its range"

lemma bindR_simps [simp]:
  "bindR (Inl e) k = Inl e"
  "bindR (Inr x) k = k x"
  by (simp_all add: bindR_def)

lemma bindR_assoc [simp]: "bindR (bindR m f) g = bindR m (\<lambda>x. bindR (f x) g)"
  by (cases m) simp_all

lemma bindR_Inr_right [simp]: "bindR m Inr = m"
  by (cases m) simp_all

lemma bindR_eq_Inr: "bindR m k = Inr y \<longleftrightarrow> (\<exists>x. m = Inr x \<and> k x = Inr y)"
  by (cases m) simp_all

lemma bindR_eq_Inl: "bindR m k = Inl e \<longleftrightarrow> m = Inl e \<or> (\<exists>x. m = Inr x \<and> k x = Inl e)"
  by (cases m) simp_all

lemma bindR_InrE:
  assumes "bindR m k = Inr y"
  obtains x where "m = Inr x" and "k x = Inr y"
  using assms by (auto simp: bindR_eq_Inr)

lemma assertR_simps [simp]:
  "assertR True msg k = k"
  "assertR False msg k = Inl (AssertFailed msg)"
  by (simp_all add: assertR_def)

lemma assertR_eq_Inr: "assertR b msg k = Inr y \<longleftrightarrow> b \<and> k = Inr y"
  by (simp add: assertR_def)

lemma assertR_eq_Inl:
  "assertR b msg k = Inl e \<longleftrightarrow> (\<not> b \<and> e = AssertFailed msg) \<or> (b \<and> k = Inl e)"
  by (auto simp: assertR_def)

lemma bindR_assertR [simp]: "bindR (assertR b msg k) g = assertR b msg (bindR k g)"
  by (simp add: assertR_def)

lemmas res_iffs = bindR_eq_Inr assertR_eq_Inr

section \<open>Machine arithmetic\<close>

text \<open>
  \<^verbatim>\<open>size_t\<close> has 64 bits. A value is a natural number below \<open>2 ^ 64\<close>; the two
  operations the code performs on such values wrap around, which is written out here.
\<close>

definition size_add :: "nat \<Rightarrow> nat \<Rightarrow> nat" where
  "size_add a b = (a + b) mod 2 ^ 64"

definition size_sub :: "nat \<Rightarrow> nat \<Rightarrow> nat" where
  "size_sub a b = (a + 2 ^ 64 - b) mod 2 ^ 64"

lemma size_add_exact [sz_simps]: "a + b < 2 ^ 64 \<Longrightarrow> size_add a b = a + b"
  by (simp add: size_add_def)

lemma size_sub_exact [sz_simps]:
  assumes "b \<le> a" and "a < 2 ^ 64"
  shows "size_sub a b = a - b"
proof -
  from assms have "a + 2 ^ 64 - b = (a - b) + 2 ^ 64" by simp
  then have "size_sub a b = ((a - b) + 2 ^ 64) mod 2 ^ 64" by (simp only: size_sub_def)
  also have "\<dots> = (a - b) mod 2 ^ 64" by (rule mod_add_self2)
  also have "\<dots> = a - b" using assms by simp
  finally show ?thesis .
qed

lemma size_sub_wraps:
  assumes "a < b" and "b < 2 ^ 64"
  shows "size_sub a b = a + 2 ^ 64 - b"
  using assms by (simp add: size_sub_def)

text \<open>
  The \<^verbatim>\<open>rep\<close> of \<^verbatim>\<open>std::chrono::nanoseconds\<close> is a signed 64-bit integer, whose
  overflow is undefined behaviour: arithmetic on it either stays in range or is the fault
  \<open>SignedOverflow\<close>.
\<close>

definition int64_ok :: "int \<Rightarrow> bool" where
  "int64_ok i \<longleftrightarrow> - (2 ^ 63) \<le> i \<and> i < 2 ^ 63"

definition int64 :: "int \<Rightarrow> int res" where
  "int64 i = (if int64_ok i then Inr i else Inl SignedOverflow)"

lemma int64_exact [sz_simps]: "int64_ok i \<Longrightarrow> int64 i = Inr i"
  by (simp add: int64_def)

lemma int64_eq_Inr: "int64 i = Inr j \<longleftrightarrow> int64_ok i \<and> j = i"
  by (auto simp: int64_def)

section \<open>Vectors\<close>

text \<open>
  Reading or writing a range of a \<^verbatim>\<open>std::vector<char>\<close> outside its elements is undefined
  behaviour; the model returns \<open>OutOfBounds\<close> there. \<^verbatim>\<open>resize\<close> throws
  \<^verbatim>\<open>std::length_error\<close> beyond \<^verbatim>\<open>max_size()\<close>, which is \<open>2 ^ 63 - 1\<close> for a vector of
  bytes, fills new elements with zero and keeps the old ones. Running out of memory is not
  modelled.
\<close>

type_synonym byte = "8 word"
type_synonym bytes = "byte list"

definition vec_max_size :: nat where
  "vec_max_size = 2 ^ 63 - 1"

definition vec_resize :: "bytes \<Rightarrow> nat \<Rightarrow> bytes res" where
  "vec_resize v n =
     (if n \<le> vec_max_size then Inr (take n v @ replicate (n - length v) 0) else Inl LengthError)"

definition vec_write :: "'a list \<Rightarrow> nat \<Rightarrow> 'a list \<Rightarrow> 'a list res" where
  "vec_write v i xs =
     (if i + length xs \<le> length v then Inr (take i v @ xs @ drop (i + length xs) v)
      else Inl OutOfBounds)"

definition vec_read :: "'a list \<Rightarrow> nat \<Rightarrow> nat \<Rightarrow> 'a list res" where
  "vec_read v i n = (if i + n \<le> length v then Inr (take n (drop i v)) else Inl OutOfBounds)"

lemma vec_read_within: "i + n \<le> length v \<Longrightarrow> vec_read v i n = Inr (take n (drop i v))"
  by (simp add: vec_read_def)

lemma vec_write_within:
  "i + length xs \<le> length v \<Longrightarrow> vec_write v i xs = Inr (take i v @ xs @ drop (i + length xs) v)"
  by (simp add: vec_write_def)

lemma length_vec_write: "vec_write v i xs = Inr w \<Longrightarrow> length w = length v"
  by (auto simp: vec_write_def split: if_splits)

text \<open>A window of a list, and how writing just after or just before it extends it.\<close>

lemma window_extend:
  assumes "r \<le> w" and "w \<le> length v"
  shows "drop r (take w v @ xs) = take (w - r) (drop r v) @ xs"
  using assms by (simp add: drop_take)

lemma window_prefix:
  assumes "r \<le> w" and "w \<le> length v"
  shows "take (w - r) (drop r (take w v @ zs)) = take (w - r) (drop r v)"
  using assms by (simp add: drop_take)

section \<open>Searching in byte ranges\<close>

text \<open>
  \<^verbatim>\<open>std::search(first, last, p, p + n)\<close> as an offset from \<^verbatim>\<open>first\<close>: the first place
  where the pattern occurs, the length of the range (the iterator \<^verbatim>\<open>last\<close>) when it occurs
  nowhere. \<^verbatim>\<open>memchr(s, c, n)\<close> is the first place of a byte, \<open>None\<close> for the null pointer.
\<close>

fun std_search :: "bytes \<Rightarrow> bytes \<Rightarrow> nat" where
  "std_search [] p = 0"
| "std_search (x # xs) p = (if take (length p) (x # xs) = p then 0 else Suc (std_search xs p))"

fun mem_chr :: "bytes \<Rightarrow> byte \<Rightarrow> nat option" where
  "mem_chr [] c = None"
| "mem_chr (x # xs) c = (if x = c then Some 0 else map_option Suc (mem_chr xs c))"

definition occurs_at :: "bytes \<Rightarrow> bytes \<Rightarrow> nat \<Rightarrow> bool" where
  "occurs_at p xs i \<longleftrightarrow> take (length p) (drop i xs) = p"

lemma std_search_le: "std_search xs p \<le> length xs"
  by (induction xs) auto

lemma std_search_before: "i < std_search xs p \<Longrightarrow> \<not> occurs_at p xs i"
proof (induction xs arbitrary: i)
  case (Cons x xs)
  then show ?case by (cases i) (auto simp: occurs_at_def split: if_splits)
qed simp

lemma std_search_found: "std_search xs p < length xs \<Longrightarrow> occurs_at p xs (std_search xs p)"
  by (induction xs) (auto simp: occurs_at_def split: if_splits)

lemma mem_chr_Some:
  "mem_chr xs c = Some i \<longleftrightarrow> i < length xs \<and> xs ! i = c \<and> (\<forall>j<i. xs ! j \<noteq> c)"
proof (induction xs arbitrary: i)
  case (Cons x xs)
  show ?case
  proof (cases i)
    case (Suc j)
    with Cons show ?thesis by (auto simp: All_less_Suc2)
  qed auto
qed simp

lemma mem_chr_None: "mem_chr xs c = None \<longleftrightarrow> c \<notin> set xs"
  by (induction xs) auto

section \<open>Transition systems\<close>

text \<open>
  A concurrent component is an initial condition and a step relation. A property proved
  inductive holds in every reachable state; the locale is the contract under which that
  induction is done once.
\<close>

inductive reach :: "('s \<Rightarrow> bool) \<Rightarrow> ('s \<Rightarrow> 's \<Rightarrow> bool) \<Rightarrow> 's \<Rightarrow> bool"
  for init :: "'s \<Rightarrow> bool" and step :: "'s \<Rightarrow> 's \<Rightarrow> bool" where
  reach_init: "init s \<Longrightarrow> reach init step s"
| reach_step: "reach init step s \<Longrightarrow> step s t \<Longrightarrow> reach init step t"

locale inductive_invariant =
  fixes init :: "'s \<Rightarrow> bool"
    and step :: "'s \<Rightarrow> 's \<Rightarrow> bool"
    and inv :: "'s \<Rightarrow> bool"
  assumes init_inv: "init s \<Longrightarrow> inv s"
    and step_inv: "inv s \<Longrightarrow> step s t \<Longrightarrow> inv t"
begin

lemma reach_inv: "reach init step s \<Longrightarrow> inv s"
  by (induction rule: reach.induct) (auto intro: init_inv step_inv)

lemma run_inv: "step\<^sup>*\<^sup>* s t \<Longrightarrow> inv s \<Longrightarrow> inv t"
  by (induction rule: rtranclp_induct) (auto intro: step_inv)

end

text \<open>
  A component refines an abstract one when each of its steps, seen through \<open>view\<close>, is a step
  of the abstract component or changes nothing there. Every state the component reaches is
  then one the specification allows.
\<close>

locale refinement = inductive_invariant init step inv
  for init :: "'s \<Rightarrow> bool" and step :: "'s \<Rightarrow> 's \<Rightarrow> bool" and inv :: "'s \<Rightarrow> bool" +
  fixes spec_init :: "'a \<Rightarrow> bool"
    and spec_step :: "'a \<Rightarrow> 'a \<Rightarrow> bool"
    and view :: "'s \<Rightarrow> 'a"
  assumes init_view: "init s \<Longrightarrow> spec_init (view s)"
    and step_view: "inv s \<Longrightarrow> step s t \<Longrightarrow> view t = view s \<or> spec_step (view s) (view t)"
begin

lemma reach_view: "reach init step s \<Longrightarrow> reach spec_init spec_step (view s)"
proof (induction rule: reach.induct)
  case (reach_step s t)
  from step_view[OF reach_inv[OF reach_step.hyps(1)] reach_step.hyps(2)] reach_step.IH show ?case
    by (auto intro: reach.reach_step)
qed (auto intro: reach.reach_init init_view)

lemma run_view:
  assumes "step\<^sup>*\<^sup>* s t" and "inv s"
  shows "spec_step\<^sup>*\<^sup>* (view s) (view t)"
  using assms
proof (induction rule: rtranclp_induct)
  case (step t u)
  from step_view[OF run_inv[OF step.hyps(1) step.prems] step.hyps(2)] step.IH[OF step.prems] show ?case
    by (auto intro: rtranclp.rtrancl_into_rtrancl)
qed simp

lemma invariant_transfer:
  assumes "reach init step s" and "\<And>a. reach spec_init spec_step a \<Longrightarrow> P a"
  shows "P (view s)"
  using assms reach_view by blast

end

lemma reach_rtranclp: "step\<^sup>*\<^sup>* s t \<Longrightarrow> reach init step s \<Longrightarrow> reach init step t"
  by (induction rule: rtranclp_induct) (auto intro: reach_step)

end
