(* ===== verification/Channel_Poller.thy ===== *)
theory Channel_Poller
  imports Prelude
begin

text \<open>
  \<^verbatim>\<open>Channel\<close> (\<^verbatim>\<open>Channel.hpp\<close>, \<^verbatim>\<open>Channel.cpp\<close>), \<^verbatim>\<open>Epoller\<close> (\<^verbatim>\<open>Epoller.hpp\<close>,
  \<^verbatim>\<open>Epoller.cpp\<close>) and the thread checks of \<^verbatim>\<open>EventLoop\<close> they both call. A channel is the
  interest in one descriptor; the poller turns every change of that interest into an
  \<^verbatim>\<open>epoll_ctl\<close> call. The calls are recorded in the poller; what \<^verbatim>\<open>epoll_ctl\<close> returns is only
  logged by the code and has no effect on its state.
\<close>

unbundle bit_operations_syntax

section \<open>Thread checks\<close>

type_synonym tid = int

definition isInLoopThread :: "tid \<Rightarrow> tid \<Rightarrow> bool" where
  "isInLoopThread m_tid gettid \<longleftrightarrow> m_tid = gettid"

definition assertInLoopThread :: "tid \<Rightarrow> tid \<Rightarrow> 'a res \<Rightarrow> 'a res" where
  "assertInLoopThread m_tid gettid k = assertR (isInLoopThread m_tid gettid) ''isInLoopThread()'' k"

definition assertNotInLoopThread :: "tid \<Rightarrow> tid \<Rightarrow> 'a res \<Rightarrow> 'a res" where
  "assertNotInLoopThread m_tid gettid k =
     assertR (\<not> isInLoopThread m_tid gettid) ''!isInLoopThread()'' k"

lemma assertInLoopThread_same [simp]: "assertInLoopThread t t k = k"
  by (simp add: assertInLoopThread_def isInLoopThread_def)

lemma assertInLoopThread_eq_Inr:
  "assertInLoopThread t g k = Inr y \<longleftrightarrow> t = g \<and> k = Inr y"
  by (simp add: assertInLoopThread_def isInLoopThread_def assertR_eq_Inr)

lemma bindR_assertInLoopThread [simp]:
  "bindR (assertInLoopThread t g k) f = assertInLoopThread t g (bindR k f)"
  by (simp add: assertInLoopThread_def)

section \<open>Channel\<close>

text \<open>The event bits of \<^verbatim>\<open><sys/epoll.h>\<close> that the code names.\<close>

definition EPOLLIN :: "32 word" where "EPOLLIN = 0x1"
definition EPOLLPRI :: "32 word" where "EPOLLPRI = 0x2"
definition EPOLLOUT :: "32 word" where "EPOLLOUT = 0x4"
definition EPOLLERR :: "32 word" where "EPOLLERR = 0x8"
definition EPOLLHUP :: "32 word" where "EPOLLHUP = 0x10"
definition EPOLLRDHUP :: "32 word" where "EPOLLRDHUP = 0x2000"

lemmas epoll_bits = EPOLLIN_def EPOLLPRI_def EPOLLOUT_def EPOLLERR_def EPOLLHUP_def EPOLLRDHUP_def

record channel =
  m_fd :: int
  m_events :: "32 word"
  m_revents :: "32 word"
  m_tied :: bool
  polling :: bool

definition new_Channel :: "int \<Rightarrow> channel" where
  "new_Channel fd =
     \<lparr>m_fd = fd, m_events = 0, m_revents = 0, m_tied = False, polling = False\<rparr>"

definition isReading :: "channel \<Rightarrow> bool" where
  "isReading c \<longleftrightarrow> m_events c AND EPOLLIN \<noteq> 0"

definition isWriting :: "channel \<Rightarrow> bool" where
  "isWriting c \<longleftrightarrow> m_events c AND EPOLLOUT \<noteq> 0"

definition isNoneEvents :: "channel \<Rightarrow> bool" where
  "isNoneEvents c \<longleftrightarrow> m_events c = 0"

definition setRevents :: "32 word \<Rightarrow> channel \<Rightarrow> channel" where
  "setRevents events c = c\<lparr>m_revents := events\<rparr>"

definition tie :: "channel \<Rightarrow> channel" where
  "tie c = c\<lparr>m_tied := True\<rparr>"

section \<open>Epoller\<close>

datatype ctl_op = EPOLL_CTL_ADD | EPOLL_CTL_MOD | EPOLL_CTL_DEL

record ctl_call =
  ctl_op :: ctl_op
  ctl_fd :: int
  ctl_events :: "32 word"

record epoller =
  ep_size :: nat
  ep_calls :: "ctl_call list"

definition new_Epoller :: "int \<Rightarrow> epoller res" where
  "new_Epoller epollfd =
     (if epollfd = -1 then Inl (ExitProcess ''Epoller::epoll_create1()'')
      else Inr \<lparr>ep_size = 128, ep_calls = []\<rparr>)"

definition epoll_ctl :: "ctl_op \<Rightarrow> channel \<Rightarrow> epoller \<Rightarrow> epoller" where
  "epoll_ctl op c ep =
     ep\<lparr>ep_calls := ep_calls ep @ [\<lparr>ctl_op = op, ctl_fd = m_fd c, ctl_events = m_events c\<rparr>]\<rparr>"

definition updateChannel :: "tid \<Rightarrow> tid \<Rightarrow> epoller \<times> channel \<Rightarrow> (epoller \<times> channel) res" where
  "updateChannel m_tid gettid = (\<lambda>(ep, c).
     assertInLoopThread m_tid gettid (
     if \<not> polling c then
       assertR (\<not> isNoneEvents c) ''!channel->isNoneEvents()'' (
       let c' = c\<lparr>polling := True\<rparr> in Inr (epoll_ctl EPOLL_CTL_ADD c' ep, c'))
     else if isNoneEvents c then
       let c' = c\<lparr>polling := False\<rparr> in Inr (epoll_ctl EPOLL_CTL_DEL c' ep, c')
     else Inr (epoll_ctl EPOLL_CTL_MOD c ep, c)))"

text \<open>
  \<^verbatim>\<open>Channel::update\<close> goes through \<^verbatim>\<open>EventLoop::updateChannel\<close>, which checks the thread a
  first time, to the poller. The five operations that change the interest all end in it.
\<close>

definition EventLoop_updateChannel ::
  "tid \<Rightarrow> tid \<Rightarrow> epoller \<times> channel \<Rightarrow> (epoller \<times> channel) res" where
  "EventLoop_updateChannel m_tid gettid p =
     assertInLoopThread m_tid gettid (updateChannel m_tid gettid p)"

definition update :: "tid \<Rightarrow> tid \<Rightarrow> epoller \<times> channel \<Rightarrow> (epoller \<times> channel) res" where
  "update m_tid gettid p = EventLoop_updateChannel m_tid gettid p"

definition enableRead :: "tid \<Rightarrow> tid \<Rightarrow> epoller \<times> channel \<Rightarrow> (epoller \<times> channel) res" where
  "enableRead m_tid gettid = (\<lambda>(ep, c).
     update m_tid gettid (ep, c\<lparr>m_events := m_events c OR (EPOLLIN OR EPOLLPRI)\<rparr>))"

definition enableWrite :: "tid \<Rightarrow> tid \<Rightarrow> epoller \<times> channel \<Rightarrow> (epoller \<times> channel) res" where
  "enableWrite m_tid gettid = (\<lambda>(ep, c).
     update m_tid gettid (ep, c\<lparr>m_events := m_events c OR EPOLLOUT\<rparr>))"

definition disableRead :: "tid \<Rightarrow> tid \<Rightarrow> epoller \<times> channel \<Rightarrow> (epoller \<times> channel) res" where
  "disableRead m_tid gettid = (\<lambda>(ep, c).
     update m_tid gettid (ep, c\<lparr>m_events := m_events c OR NOT EPOLLIN\<rparr>))"

definition disableWrite :: "tid \<Rightarrow> tid \<Rightarrow> epoller \<times> channel \<Rightarrow> (epoller \<times> channel) res" where
  "disableWrite m_tid gettid = (\<lambda>(ep, c).
     update m_tid gettid (ep, c\<lparr>m_events := m_events c OR NOT EPOLLOUT\<rparr>))"

definition disableAll :: "tid \<Rightarrow> tid \<Rightarrow> epoller \<times> channel \<Rightarrow> (epoller \<times> channel) res" where
  "disableAll m_tid gettid = (\<lambda>(ep, c). update m_tid gettid (ep, c\<lparr>m_events := 0\<rparr>))"

lemmas channel_ops = enableRead_def enableWrite_def disableRead_def disableWrite_def disableAll_def

text \<open>
  \<^verbatim>\<open>Epoller::poll\<close>. The result of \<^verbatim>\<open>::epoll_wait\<close> is an argument: an \<^verbatim>\<open>errno\<close>, or the
  reported pairs of channel address and events. The channels live in a state \<open>'s\<close>;
  \<open>mark p ev\<close> is \<^verbatim>\<open>setRevents(ev)\<close> on the channel at \<open>p\<close>. The array of events doubles
  when it came back full; \<open>maxEvents\<close> is its size converted to a 32-bit \<^verbatim>\<open>int\<close>.
\<close>

definition maxEvents :: "epoller \<Rightarrow> int" where
  "maxEvents ep = sint (word_of_nat (ep_size ep) :: 32 word)"

definition poll :: "tid \<Rightarrow> tid \<Rightarrow> ('p \<Rightarrow> 32 word \<Rightarrow> 's \<Rightarrow> 's) \<Rightarrow> int + ('p \<times> 32 word) list
    \<Rightarrow> epoller \<times> 's \<times> 'p list \<Rightarrow> (epoller \<times> 's \<times> 'p list) res" where
  "poll m_tid gettid mark epoll_wait = (\<lambda>(ep, s, activeChannels).
     assertInLoopThread m_tid gettid (
     case epoll_wait of
       Inl errno \<Rightarrow> Inr (ep, s, activeChannels)
     | Inr evs \<Rightarrow>
         if 0 < length evs then
           Inr ((if int (length evs) = maxEvents ep
                 then ep\<lparr>ep_size := size_add (ep_size ep) (ep_size ep)\<rparr> else ep),
                fold (\<lambda>(p, ev). mark p ev) evs s,
                activeChannels @ map fst evs)
         else Inr (ep, s, activeChannels)))"

section \<open>Dispatching events\<close>

text \<open>
  The four callbacks of a channel act on a state \<open>'s\<close> that contains the channel
  (\<open>ch s\<close>); an unset \<^verbatim>\<open>std::function\<close> is \<open>None\<close>. \<open>m_tie.lock()\<close> succeeds when
  the tied object is alive.
\<close>

record 's callbacks =
  m_readCallback :: "('s \<Rightarrow> 's res) option"
  m_writeCallback :: "('s \<Rightarrow> 's res) option"
  m_closeCallback :: "('s \<Rightarrow> 's res) option"
  m_errorCallback :: "('s \<Rightarrow> 's res) option"

text \<open>A new channel has none of them set.\<close>

definition no_callbacks :: "'s callbacks" where
  "no_callbacks = \<lparr>m_readCallback = None, m_writeCallback = None, m_closeCallback = None, m_errorCallback = None\<rparr>"

definition setReadCallback :: "('s \<Rightarrow> 's res) \<Rightarrow> 's callbacks \<Rightarrow> 's callbacks" where
  "setReadCallback cb c = c\<lparr>m_readCallback := Some cb\<rparr>"

definition setWriteCallback :: "('s \<Rightarrow> 's res) \<Rightarrow> 's callbacks \<Rightarrow> 's callbacks" where
  "setWriteCallback cb c = c\<lparr>m_writeCallback := Some cb\<rparr>"

definition setCloseCallback_ch :: "('s \<Rightarrow> 's res) \<Rightarrow> 's callbacks \<Rightarrow> 's callbacks" where
  "setCloseCallback_ch cb c = c\<lparr>m_closeCallback := Some cb\<rparr>"

definition setErrorCallback :: "('s \<Rightarrow> 's res) \<Rightarrow> 's callbacks \<Rightarrow> 's callbacks" where
  "setErrorCallback cb c = c\<lparr>m_errorCallback := Some cb\<rparr>"

declare no_callbacks_def [simp] setReadCallback_def [simp] setWriteCallback_def [simp]
  setCloseCallback_ch_def [simp] setErrorCallback_def [simp]

definition call_if :: "bool \<Rightarrow> ('s \<Rightarrow> 's res) option \<Rightarrow> 's \<Rightarrow> 's res" where
  "call_if cond cb s = (if cond then (case cb of None \<Rightarrow> Inr s | Some f \<Rightarrow> f s) else Inr s)"

definition handleEventsWithGuard :: "('s \<Rightarrow> channel) \<Rightarrow> 's callbacks \<Rightarrow> 's \<Rightarrow> 's res" where
  "handleEventsWithGuard ch cbs s =
     bindR (call_if (m_revents (ch s) AND EPOLLHUP \<noteq> 0 \<and> m_revents (ch s) AND EPOLLIN = 0)
              (m_closeCallback cbs) s) (\<lambda>s.
     bindR (call_if (m_revents (ch s) AND EPOLLERR \<noteq> 0) (m_errorCallback cbs) s) (\<lambda>s.
     bindR (call_if (m_revents (ch s) AND (EPOLLIN OR EPOLLPRI OR EPOLLRDHUP) \<noteq> 0)
              (m_readCallback cbs) s) (\<lambda>s.
     call_if (m_revents (ch s) AND EPOLLOUT \<noteq> 0) (m_writeCallback cbs) s)))"

definition handleEvents ::
  "tid \<Rightarrow> tid \<Rightarrow> bool \<Rightarrow> ('s \<Rightarrow> channel) \<Rightarrow> 's callbacks \<Rightarrow> 's \<Rightarrow> 's res" where
  "handleEvents m_tid gettid alive ch cbs s =
     assertInLoopThread m_tid gettid (
     if m_tied (ch s) then (if alive then handleEventsWithGuard ch cbs s else Inr s)
     else handleEventsWithGuard ch cbs s)"

text \<open>The channels that only read or only write.\<close>

definition reads :: "('s \<Rightarrow> 's res) \<Rightarrow> 's callbacks" where
  "reads f = setReadCallback f no_callbacks"

definition writes :: "('s \<Rightarrow> 's res) \<Rightarrow> 's callbacks" where
  "writes f = setWriteCallback f no_callbacks"

lemma reads_cases:
  assumes "handleEvents t g True ch (reads f) L = Inr L'"
  obtains "L' = L" | "f L = Inr L'"
proof -
  have "call_if b (None :: ('a \<Rightarrow> 'a res) option) s = Inr s" for b s by (simp add: call_if_def)
  then have "handleEventsWithGuard ch (reads f) L = call_if (m_revents (ch L) AND (EPOLLIN OR EPOLLPRI OR EPOLLRDHUP) \<noteq> 0) (Some f) L"
    by (simp add: handleEventsWithGuard_def reads_def)
  moreover have "handleEventsWithGuard ch (reads f) L = Inr L'"
    using assms by (simp add: handleEvents_def assertInLoopThread_eq_Inr split: if_splits)
  ultimately show thesis using that by (auto simp: call_if_def split: if_splits)
qed

lemma writes_cases:
  assumes "handleEvents t g True ch (writes f) L = Inr L'"
  obtains "L' = L" | "f L = Inr L'"
proof -
  have none: "call_if b (None :: ('a \<Rightarrow> 'a res) option) s = Inr s" for b s by (simp add: call_if_def)
  then have "handleEventsWithGuard ch (writes f) L = call_if (m_revents (ch L) AND EPOLLOUT \<noteq> 0) (Some f) L"
    by (simp add: handleEventsWithGuard_def writes_def)
  moreover have "handleEventsWithGuard ch (writes f) L = Inr L'"
    using assms by (simp add: handleEvents_def assertInLoopThread_eq_Inr split: if_splits)
  ultimately show thesis using that by (auto simp: call_if_def split: if_splits)
qed

lemma handle_readable:
  assumes "m_revents (ch s) = EPOLLIN" and "\<not> m_tied (ch s)"
  shows "handleEvents t t True ch (reads f) s = f s"
  using assms by (simp add: handleEvents_def handleEventsWithGuard_def reads_def call_if_def epoll_bits bindR_def split: sum.splits)

lemma handle_writable:
  assumes "m_revents (ch s) = EPOLLOUT" and "\<not> m_tied (ch s)"
  shows "handleEvents t t True ch (writes f) s = f s"
  using assms by (simp add: handleEvents_def handleEventsWithGuard_def writes_def call_if_def epoll_bits bindR_def split: sum.splits)

section \<open>Interest and registration\<close>

text \<open>
  What the calls made so far ask of the kernel for a descriptor, following the
  documentation of \<^verbatim>\<open>epoll_ctl\<close>: \<open>registered\<close> replays them; a call is legal when the
  kernel would not reject it with \<^verbatim>\<open>EEXIST\<close> or \<^verbatim>\<open>ENOENT\<close>.
\<close>

definition ctl_effect :: "ctl_call \<Rightarrow> (int \<rightharpoonup> 32 word) \<Rightarrow> (int \<rightharpoonup> 32 word)" where
  "ctl_effect k m = (case ctl_op k of
      EPOLL_CTL_DEL \<Rightarrow> m(ctl_fd k := None)
    | _ \<Rightarrow> m(ctl_fd k \<mapsto> ctl_events k))"

definition ctl_legal :: "ctl_call \<Rightarrow> (int \<rightharpoonup> 32 word) \<Rightarrow> bool" where
  "ctl_legal k m \<longleftrightarrow> (if ctl_op k = EPOLL_CTL_ADD then m (ctl_fd k) = None
                      else m (ctl_fd k) \<noteq> None)"

fun replay :: "ctl_call list \<Rightarrow> (int \<rightharpoonup> 32 word) \<Rightarrow> (int \<rightharpoonup> 32 word) option" where
  "replay [] m = Some m"
| "replay (k # ks) m = (if ctl_legal k m then replay ks (ctl_effect k m) else None)"

lemma replay_snoc:
  "replay (ks @ [k]) m =
     (case replay ks m of None \<Rightarrow> None
      | Some m' \<Rightarrow> if ctl_legal k m' then Some (ctl_effect k m') else None)"
  by (induction ks arbitrary: m) auto

text \<open>
  Poller and channel agree when all calls so far were legal, the descriptor of the channel
  is registered, with the channel's events, exactly when the flag of the channel says so,
  and the flag says so exactly when the channel is interested in anything.
\<close>

definition in_sync :: "epoller \<Rightarrow> channel \<Rightarrow> bool" where
  "in_sync ep c \<longleftrightarrow> (\<exists>m. replay (ep_calls ep) Map.empty = Some m
     \<and> m (m_fd c) = (if polling c then Some (m_events c) else None)
     \<and> (polling c \<longleftrightarrow> \<not> isNoneEvents c))"

text \<open>Between an assignment to \<^verbatim>\<open>m_events\<close> and the update only the flag is known to agree.\<close>

definition flag_in_sync :: "epoller \<Rightarrow> channel \<Rightarrow> bool" where
  "flag_in_sync ep c \<longleftrightarrow> (\<exists>m. replay (ep_calls ep) Map.empty = Some m
     \<and> (polling c \<longleftrightarrow> m (m_fd c) \<noteq> None))"

lemma in_sync_flag: "in_sync ep c \<Longrightarrow> flag_in_sync ep (c\<lparr>m_events := e\<rparr>)"
  by (auto simp: in_sync_def flag_in_sync_def)

lemma updateChannel_sync:
  assumes "updateChannel t g (ep, c) = Inr (ep', c')" and "flag_in_sync ep c"
  shows "in_sync ep' c'"
  using assms
  by (auto simp: updateChannel_def in_sync_def flag_in_sync_def epoll_ctl_def Let_def
      assertInLoopThread_eq_Inr assertR_eq_Inr replay_snoc ctl_legal_def ctl_effect_def
      isNoneEvents_def split: if_splits)

lemma updateChannel_frame:
  assumes "updateChannel t g (ep, c) = Inr (ep', c')"
  shows "m_events c' = m_events c" "m_fd c' = m_fd c" "m_revents c' = m_revents c"
    "m_tied c' = m_tied c" "polling c' \<longleftrightarrow> m_events c \<noteq> 0" "ep_size ep' = ep_size ep"
    "t = g" "\<exists>k. ep_calls ep' = ep_calls ep @ [k] \<and> ctl_fd k = m_fd c"
  using assms
  by (auto simp: updateChannel_def isNoneEvents_def epoll_ctl_def Let_def assertInLoopThread_eq_Inr
      assertR_eq_Inr split: if_splits)

lemma update_eq: "update t g p = updateChannel t g p"
  by (cases p) (auto simp: update_def EventLoop_updateChannel_def updateChannel_def
      assertInLoopThread_def assertR_def)

text \<open>
  The operations seen from outside: each sets the events to a function of the old ones and
  ends in the update, which succeeds in the loop's thread unless the channel is neither
  registered nor interested in anything.
\<close>

definition set_events :: "tid \<Rightarrow> tid \<Rightarrow> (32 word \<Rightarrow> 32 word) \<Rightarrow> epoller \<times> channel
    \<Rightarrow> (epoller \<times> channel) res" where
  "set_events t g f = (\<lambda>(ep, c). update t g (ep, c\<lparr>m_events := f (m_events c)\<rparr>))"

lemma channel_ops_set_events:
  "enableRead t g p = set_events t g (\<lambda>e. e OR (EPOLLIN OR EPOLLPRI)) p"
  "enableWrite t g p = set_events t g (\<lambda>e. e OR EPOLLOUT) p"
  "disableRead t g p = set_events t g (\<lambda>e. e OR NOT EPOLLIN) p"
  "disableWrite t g p = set_events t g (\<lambda>e. e OR NOT EPOLLOUT) p"
  "disableAll t g p = set_events t g (\<lambda>_. 0) p"
  by (simp_all add: channel_ops set_events_def)

lemma set_events_ok:
  "set_events t t f (ep, c) =
     (if \<not> polling c \<and> f (m_events c) = 0
      then Inl (AssertFailed ''!channel->isNoneEvents()'')
      else Inr (epoll_ctl (if \<not> polling c then EPOLL_CTL_ADD
                           else if f (m_events c) = 0 then EPOLL_CTL_DEL else EPOLL_CTL_MOD)
                  (c\<lparr>m_events := f (m_events c)\<rparr>) ep,
                c\<lparr>m_events := f (m_events c), polling := f (m_events c) \<noteq> 0\<rparr>))"
  by (auto simp: set_events_def update_eq updateChannel_def isNoneEvents_def epoll_ctl_def Let_def)

lemma set_events_sync:
  assumes "set_events t g f (ep, c) = Inr (ep', c')" and "in_sync ep c"
  shows "in_sync ep' c'"
  using assms by (auto simp: set_events_def update_eq intro: updateChannel_sync in_sync_flag)

lemma set_events_frame:
  assumes "set_events t g f (ep, c) = Inr (ep', c')"
  shows "m_events c' = f (m_events c)" "m_fd c' = m_fd c" "m_revents c' = m_revents c"
    "m_tied c' = m_tied c" "polling c' \<longleftrightarrow> f (m_events c) \<noteq> 0" "ep_size ep' = ep_size ep" "t = g"
  using assms by (auto simp: set_events_def update_eq dest: updateChannel_frame)

lemma replay_frame:
  "replay (ks @ [k]) Map.empty = Some m \<Longrightarrow> ctl_fd k \<noteq> fd \<Longrightarrow>
     \<exists>m'. replay ks Map.empty = Some m' \<and> m fd = m' fd"
  by (auto simp: replay_snoc ctl_effect_def split: option.splits if_splits ctl_op.splits)

lemma updateChannel_other:
  assumes "updateChannel t g (ep, c) = Inr (ep', c')" and "in_sync ep c \<or> flag_in_sync ep c"
    and "in_sync ep d" and "m_fd d \<noteq> m_fd c"
  shows "in_sync ep' d"
proof -
  from assms(2) have "flag_in_sync ep c" by (auto simp: in_sync_def flag_in_sync_def)
  with updateChannel_sync[OF assms(1)] have "\<exists>m. replay (ep_calls ep') Map.empty = Some m"
    by (auto simp: in_sync_def)
  moreover obtain k where "ep_calls ep' = ep_calls ep @ [k]" "ctl_fd k = m_fd c"
    using updateChannel_frame(8)[OF assms(1)] by blast
  ultimately show ?thesis
    using assms(3,4) replay_frame[of "ep_calls ep" k] by (fastforce simp: in_sync_def)
qed

section \<open>The registry contract\<close>

text \<open>
  What a channel relies on: an update of the registry by one channel keeps that channel and
  every other channel in agreement with the registry. The consequence for any sequence of
  changes of interest, over any number of channels with different descriptors, is proved
  from the contract.
\<close>

fun interest_exec ::
  "('r \<times> channel \<Rightarrow> ('r \<times> channel) res) \<Rightarrow> ('p \<times> (32 word \<Rightarrow> 32 word)) list
     \<Rightarrow> 'r \<times> ('p \<Rightarrow> channel) \<Rightarrow> ('r \<times> ('p \<Rightarrow> channel)) res" where
  "interest_exec upd [] rs = Inr rs"
| "interest_exec upd ((p, f) # ops) (r, chans) =
     bindR (upd (r, (chans p)\<lparr>m_events := f (m_events (chans p))\<rparr>)) (\<lambda>(r', c').
       interest_exec upd ops (r', chans(p := c')))"

locale interest_registry =
  fixes upd :: "'r \<times> channel \<Rightarrow> ('r \<times> channel) res"
    and agrees :: "'r \<Rightarrow> channel \<Rightarrow> bool"
  assumes upd_self: "agrees r c \<Longrightarrow> upd (r, c\<lparr>m_events := e\<rparr>) = Inr (r', c') \<Longrightarrow>
      agrees r' c' \<and> m_fd c' = m_fd c"
    and upd_other: "agrees r c \<Longrightarrow> upd (r, c\<lparr>m_events := e\<rparr>) = Inr (r', c') \<Longrightarrow>
      agrees r d \<Longrightarrow> m_fd d \<noteq> m_fd c \<Longrightarrow> agrees r' d"
begin

lemma interest_exec_agrees:
  assumes "interest_exec upd ops (r, chans) = Inr (r', chans')"
    and "\<And>p. agrees r (chans p)" and "inj (\<lambda>p. m_fd (chans p))"
  shows "agrees r' (chans' p) \<and> m_fd (chans' p) = m_fd (chans p)"
  using assms
proof (induction ops arbitrary: r chans p)
  case (Cons op ops)
  obtain q f where op: "op = (q, f)" by (cases op)
  from Cons.prems(1) op obtain r1 c1 where
    u: "upd (r, (chans q)\<lparr>m_events := f (m_events (chans q))\<rparr>) = Inr (r1, c1)"
    and rest: "interest_exec upd ops (r1, chans(q := c1)) = Inr (r', chans')"
    by (auto simp: res_iffs)
  note self = upd_self[OF Cons.prems(2) u]
  have "agrees r1 ((chans(q := c1)) p)" for p
    using self upd_other[OF Cons.prems(2) u Cons.prems(2)] injD[OF Cons.prems(3), of p q] by auto
  moreover have "(\<lambda>p. m_fd ((chans(q := c1)) p)) = (\<lambda>p. m_fd (chans p))"
    using self by auto
  ultimately show ?case
    using Cons.IH[OF rest, of p] Cons.prems(3) self by (auto simp: comp_def split: if_splits)
qed simp

end

interpretation poller_registry: interest_registry "update t g" in_sync
proof
  fix r c e r' c' d
  assume s: "in_sync r c" and u: "update t g (r, c\<lparr>m_events := e\<rparr>) = Inr (r', c')"
  then have u': "updateChannel t g (r, c\<lparr>m_events := e\<rparr>) = Inr (r', c')" by (simp add: update_eq)
  show "in_sync r' c' \<and> m_fd c' = m_fd c"
    using updateChannel_sync[OF u' in_sync_flag[OF s]] updateChannel_frame(2)[OF u'] by simp
  assume "in_sync r d" and "m_fd d \<noteq> m_fd c"
  then show "in_sync r' d"
    using updateChannel_other[OF u'] in_sync_flag[OF s] by simp
qed

section \<open>Dispatch as a list\<close>

text \<open>
  The callbacks an event mask selects, in the order in which the code calls them. As long as
  no callback changes \<^verbatim>\<open>m_revents\<close> (only the poller does), dispatching is running that list.
\<close>

definition selected :: "'s callbacks \<Rightarrow> 32 word \<Rightarrow> ('s \<Rightarrow> 's res) list" where
  "selected cbs ev =
     (if ev AND EPOLLHUP \<noteq> 0 \<and> ev AND EPOLLIN = 0 then [call_if True (m_closeCallback cbs)] else [])
   @ (if ev AND EPOLLERR \<noteq> 0 then [call_if True (m_errorCallback cbs)] else [])
   @ (if ev AND (EPOLLIN OR EPOLLPRI OR EPOLLRDHUP) \<noteq> 0 then [call_if True (m_readCallback cbs)] else [])
   @ (if ev AND EPOLLOUT \<noteq> 0 then [call_if True (m_writeCallback cbs)] else [])"

fun run_all :: "('s \<Rightarrow> 's res) list \<Rightarrow> 's \<Rightarrow> 's res" where
  "run_all [] s = Inr s"
| "run_all (f # fs) s = bindR (f s) (run_all fs)"

definition keeps_revents :: "('s \<Rightarrow> channel) \<Rightarrow> ('s \<Rightarrow> 's res) option \<Rightarrow> bool" where
  "keeps_revents ch cb \<longleftrightarrow>
     (\<forall>f s s'. cb = Some f \<longrightarrow> f s = Inr s' \<longrightarrow> m_revents (ch s') = m_revents (ch s))"

lemma call_if_keeps:
  "keeps_revents ch cb \<Longrightarrow> call_if b cb s = Inr s' \<Longrightarrow> m_revents (ch s') = m_revents (ch s)"
  by (auto simp: keeps_revents_def call_if_def split: if_splits option.splits)

lemma call_if_False [simp]: "call_if False cb = Inr"
  by (rule ext) (simp add: call_if_def)

lemma run_all_Nil [simp]: "run_all [] = Inr"
  by (rule ext) simp

lemma run_all_single [simp]: "run_all [f] = f"
  by (rule ext) simp

lemma run_all_append: "run_all (fs @ gs) = (\<lambda>s. bindR (run_all fs s) (run_all gs))"
proof (induction fs)
  case (Cons f fs)
  show ?case
  proof
    fix s
    from Cons show "run_all ((f # fs) @ gs) s = bindR (run_all (f # fs) s) (run_all gs)"
      by (cases "f s") simp_all
  qed
qed simp

lemma run_all_if: "run_all (if b then [call_if True cb] else []) = call_if b cb"
  by simp

lemma bindR_cong_Inr: "(\<And>x. m = Inr x \<Longrightarrow> f x = g x) \<Longrightarrow> bindR m f = bindR m g"
  by (cases m) simp_all

lemma handleEventsWithGuard_selected:
  assumes "keeps_revents ch (m_closeCallback cbs)" "keeps_revents ch (m_errorCallback cbs)"
    "keeps_revents ch (m_readCallback cbs)"
  shows "handleEventsWithGuard ch cbs s = run_all (selected cbs (m_revents (ch s))) s"
proof -
  let ?ev = "m_revents (ch s)"
  have "handleEventsWithGuard ch cbs s =
     bindR (call_if (?ev AND EPOLLHUP \<noteq> 0 \<and> ?ev AND EPOLLIN = 0) (m_closeCallback cbs) s) (\<lambda>s.
     bindR (call_if (?ev AND EPOLLERR \<noteq> 0) (m_errorCallback cbs) s) (\<lambda>s.
     bindR (call_if (?ev AND (EPOLLIN OR EPOLLPRI OR EPOLLRDHUP) \<noteq> 0) (m_readCallback cbs) s)
       (call_if (?ev AND EPOLLOUT \<noteq> 0) (m_writeCallback cbs))))"
    unfolding handleEventsWithGuard_def
    by (intro bindR_cong_Inr) (auto dest!: call_if_keeps[OF assms(1)] call_if_keeps[OF assms(2)]
        call_if_keeps[OF assms(3)] intro!: bindR_cong_Inr)
  then show ?thesis
    by (simp only: selected_def run_all_append run_all_if)
qed

section \<open>Properties\<close>



text \<open>
  \<^verbatim>\<open>disableRead\<close> and \<^verbatim>\<open>disableWrite\<close> disable nothing: they add the complement of the
  bit they are named after to the events instead of intersecting with it. A channel that was
  reading (writing) still is afterwards, and either call switches on the other direction.
\<close>

theorem disable_keeps_interest:
  "(\<exists>ep' c'. disableRead t t (ep, c) = Inr (ep', c')
      \<and> (isReading c' \<longleftrightarrow> isReading c) \<and> isWriting c')
   \<and> (\<exists>ep' c'. disableWrite t t (ep, c) = Inr (ep', c')
      \<and> (isWriting c' \<longleftrightarrow> isWriting c) \<and> isReading c')"
proof -
  have r: "(e OR NOT EPOLLIN) AND EPOLLIN = e AND EPOLLIN" "(e OR NOT EPOLLIN) AND EPOLLOUT = EPOLLOUT"
    and w: "(e OR NOT EPOLLOUT) AND EPOLLOUT = e AND EPOLLOUT"
      "(e OR NOT EPOLLOUT) AND EPOLLIN = EPOLLIN" for e
    by (rule bit_word_eqI, auto simp: epoll_bits bit_simps)+
  have "e OR NOT EPOLLIN \<noteq> 0" "e OR NOT EPOLLOUT \<noteq> 0" for e
    using r(2)[of e] w(2)[of e] by (auto simp: epoll_bits)
  moreover have "EPOLLIN \<noteq> 0" "EPOLLOUT \<noteq> 0" by (simp_all add: epoll_bits)
  ultimately show ?thesis
    by (simp add: channel_ops_set_events set_events_ok isReading_def isWriting_def r w)
qed

text \<open>
  Dispatch: for callbacks that do not touch the channel's reported events, handling
  events runs exactly the callbacks the events select, in the fixed order close, error,
  read, write, stopping at the first fault; a channel tied to an object that is gone runs
  none, and another thread than the loop's asserts.
\<close>

theorem handleEvents_dispatch:
  assumes "keeps_revents ch (m_closeCallback cbs)" "keeps_revents ch (m_errorCallback cbs)"
    "keeps_revents ch (m_readCallback cbs)"
  shows "handleEvents t g alive ch cbs s =
    (if t \<noteq> g then Inl (AssertFailed ''isInLoopThread()'')
     else if m_tied (ch s) \<and> \<not> alive then Inr s
     else run_all (selected cbs (m_revents (ch s))) s)"
  using handleEventsWithGuard_selected[OF assms]
  by (simp add: handleEvents_def assertInLoopThread_def isInLoopThread_def)

lemma handleEvents_dispatch_witness:
  "handleEvents 1 1 True fst
     \<lparr>m_readCallback = Some (\<lambda>(c, l). Inr (c, l @ [''r''])), m_writeCallback = Some (\<lambda>(c, l). Inr (c, l @ [''w''])),
      m_closeCallback = Some (\<lambda>(c, l). Inr (c, l @ [''c''])), m_errorCallback = None\<rparr>
     (setRevents (EPOLLHUP OR EPOLLRDHUP OR EPOLLOUT) (new_Channel 3), [])
   = Inr (setRevents (EPOLLHUP OR EPOLLRDHUP OR EPOLLOUT) (new_Channel 3), [''c'', ''r'', ''w''])"
  by (subst handleEvents_dispatch)
    (auto simp: keeps_revents_def setRevents_def new_Channel_def selected_def call_if_def epoll_bits)

end
