(* ===== verification/Timer_Class.thy ===== *)
theory Timer_Class
  imports Prelude
begin

text \<open>
  \<^verbatim>\<open>Timestamp.hpp\<close> and the class \<^verbatim>\<open>Timer\<close> of \<^verbatim>\<open>Timer.hpp\<close>. A \<^verbatim>\<open>TimePoint\<close> and a
  \<^verbatim>\<open>Nanoseconds\<close> are their nanosecond counts; arithmetic on them is checked against the
  64-bit range. A callback is a closure of the type \<open>'u\<close>, \<open>None\<close> for an empty
  \<^verbatim>\<open>std::function\<close>.
\<close>

section \<open>Time points\<close>

type_synonym nanoseconds = int
type_synonym time_point = int

definition nowAfter :: "time_point \<Rightarrow> nanoseconds \<Rightarrow> time_point res" where
  "nowAfter now interval = int64 (now + interval)"

definition nowBefore :: "time_point \<Rightarrow> nanoseconds \<Rightarrow> time_point res" where
  "nowBefore now interval = int64 (now - interval)"

section \<open>Timer\<close>

record 'u timer =
  m_callback :: "'u option"
  m_when :: time_point
  m_interval :: nanoseconds
  m_repeat :: bool
  m_canceled :: bool

definition new_Timer :: "'u option \<Rightarrow> time_point \<Rightarrow> nanoseconds \<Rightarrow> 'u timer" where
  "new_Timer callback when interval =
     \<lparr>m_callback = callback, m_when = when, m_interval = interval,
      m_repeat = (interval > 0), m_canceled = False\<rparr>"

definition expired :: "'u timer \<Rightarrow> time_point \<Rightarrow> bool" where
  "expired t now \<longleftrightarrow> now \<ge> m_when t"

definition cancel :: "'u timer \<Rightarrow> 'u timer res" where
  "cancel t = assertR (\<not> m_canceled t) ''!m_canceled'' (Inr (t\<lparr>m_canceled := True\<rparr>))"

definition restart :: "'u timer \<Rightarrow> 'u timer res" where
  "restart t = assertR (m_repeat t) ''m_repeat'' (
     bindR (int64 (m_when t + m_interval t)) (\<lambda>w. Inr (t\<lparr>m_when := w\<rparr>)))"

text \<open>\<open>exec\<close> is what calling a closure does to the state.\<close>

definition run_timer :: "('u \<Rightarrow> 's \<Rightarrow> 's res) \<Rightarrow> 'u timer \<Rightarrow> 's \<Rightarrow> 's res" where
  "run_timer exec t s = (case m_callback t of None \<Rightarrow> Inr s | Some u \<Rightarrow> exec u s)"

lemma restart_cases:
  "restart t = Inr t' \<longleftrightarrow> m_repeat t \<and> int64_ok (m_when t + m_interval t)
     \<and> t' = t\<lparr>m_when := m_when t + m_interval t\<rparr>"
  by (auto simp: restart_def res_iffs int64_eq_Inr)

end
