(* ===== verification/Event_Loop.thy ===== *)
theory Event_Loop
  imports Channel_Poller Timer_Class
begin

text \<open>
  The class \<^verbatim>\<open>EventLoop\<close> (\<^verbatim>\<open>EventLoop.hpp\<close>, \<^verbatim>\<open>EventLoop.cpp\<close>): its state, with the
  members of its \<^verbatim>\<open>TimerQueue\<close> inlined, the task queue, the wakeup descriptor, \<^verbatim>\<open>quit\<close> and
  the loop itself. The operations of the timer queue are in the theory \<open>Timer_Queue\<close>.
  The record is extended by the components that live on a loop (connections, servers), so
  every operation is stated for any extension of it.
\<close>

section \<open>State\<close>

text \<open>
  A task in \<^verbatim>\<open>m_pendingTasks\<close> is a closure: one of the two lambdas of the timer queue, or a
  closure of a client. Timers live at addresses (0 is the null pointer); an address that is
  not in the heap has been freed or was never allocated. \<open>m_timers\<close> is the
  \<^verbatim>\<open>std::set<Entry>\<close> as its sorted list. \<open>wakeup_count\<close> is the counter of the
  \<^verbatim>\<open>eventfd\<close>; \<open>timerfd_sets\<close> records the \<^verbatim>\<open>timerfd_settime\<close> calls, each with the clock
  at the call, the seconds and the nanoseconds; \<open>clock_now\<close> is the system clock.
\<close>

type_synonym addr = nat
type_synonym entry = "time_point \<times> addr"

datatype 'u task = TimerInsert entry | TimerErase addr | Closure 'u

record 'u event_loop =
  m_tid :: tid
  m_quit :: bool
  m_poller :: epoller
  m_pendingTasks :: "'u task list"
  m_wakeupChannel :: channel
  wakeup_count :: nat
  m_timerChannel :: channel
  m_timers :: "entry list"
  timer_heap :: "addr \<rightharpoonup> 'u timer"
  timerfd_sets :: "(time_point \<times> int \<times> int) list"
  clock_now :: time_point

section \<open>Channels of a loop\<close>

definition on_channel ::
  "(tid \<Rightarrow> tid \<Rightarrow> epoller \<times> channel \<Rightarrow> (epoller \<times> channel) res) \<Rightarrow> tid
     \<Rightarrow> channel \<Rightarrow> ('u, 'w) event_loop_scheme \<Rightarrow> (channel \<times> ('u, 'w) event_loop_scheme) res" where
  "on_channel op gettid c L =
     bindR (op (m_tid L) gettid (m_poller L, c)) (\<lambda>(ep, c'). Inr (c', L\<lparr>m_poller := ep\<rparr>))"

lemma on_channel_eq_Inr:
  "on_channel op g c L = Inr (c', L') \<longleftrightarrow>
     (\<exists>ep. op (m_tid L) g (m_poller L, c) = Inr (ep, c') \<and> L' = L\<lparr>m_poller := ep\<rparr>)"
  by (auto simp: on_channel_def res_iffs)

section \<open>Construction\<close>

text \<open>
  The constructor, member by member: the poller, the timer queue (which registers its
  channel), the wakeup channel, and the check that the thread has no other loop. The
  descriptors are what \<^verbatim>\<open>epoll_create1\<close>, \<^verbatim>\<open>timerfd_create\<close> and \<^verbatim>\<open>eventfd\<close> returned,
  \<open>has_loop\<close> is \<^verbatim>\<open>t_Eventloop != nullptr\<close>.
\<close>

definition timerfdCreate :: "int \<Rightarrow> int res" where
  "timerfdCreate fd = (if fd = -1 then Inl (ExitProcess ''timer_create()'') else Inr fd)"

definition new_TimerQueue :: "tid \<Rightarrow> int \<Rightarrow> 'u event_loop \<Rightarrow> 'u event_loop res" where
  "new_TimerQueue gettid timerfd L =
     bindR (timerfdCreate timerfd) (\<lambda>fd.
     assertInLoopThread (m_tid L) gettid (
     bindR (on_channel enableRead gettid (new_Channel fd) L) (\<lambda>(c, L).
     Inr (L\<lparr>m_timerChannel := c, m_timers := [], timer_heap := Map.empty\<rparr>))))"

definition new_EventLoop ::
  "tid \<Rightarrow> int \<Rightarrow> int \<Rightarrow> int \<Rightarrow> bool \<Rightarrow> time_point \<Rightarrow> 'u event_loop res" where
  "new_EventLoop gettid epollfd timerfd wakeupFd has_loop now =
     bindR (new_Epoller epollfd) (\<lambda>ep.
     let L = \<lparr>m_tid = gettid, m_quit = False, m_poller = ep, m_pendingTasks = [],
       m_wakeupChannel = new_Channel wakeupFd, wakeup_count = 0,
       m_timerChannel = new_Channel timerfd, m_timers = [], timer_heap = Map.empty,
       timerfd_sets = [], clock_now = now\<rparr> in
     bindR (new_TimerQueue gettid timerfd L) (\<lambda>L.
     if wakeupFd = -1 then Inl (ExitProcess ''EventLoop::eventFd()'') else
     bindR (on_channel enableRead gettid (m_wakeupChannel L) L) (\<lambda>(c, L).
     assertR (\<not> has_loop) ''t_Eventloop == nullptr'' (
     Inr (L\<lparr>m_wakeupChannel := c\<rparr>)))))"

section \<open>Tasks and wakeups\<close>

text \<open>
  A \<^verbatim>\<open>write\<close> to the \<^verbatim>\<open>eventfd\<close> adds one to its counter, a \<^verbatim>\<open>read\<close> resets it. (A write that
  fails because the counter is at its maximum is only logged; the counter is then not zero.)
\<close>

definition wakeup :: "('u, 'w) event_loop_scheme \<Rightarrow> ('u, 'w) event_loop_scheme" where
  "wakeup L = L\<lparr>wakeup_count := wakeup_count L + 1\<rparr>"

definition handleRead_wakeup ::
  "tid \<Rightarrow> ('u, 'w) event_loop_scheme \<Rightarrow> ('u, 'w) event_loop_scheme res" where
  "handleRead_wakeup gettid L = assertInLoopThread (m_tid L) gettid (Inr (L\<lparr>wakeup_count := 0\<rparr>))"

definition queueInLoop ::
  "'u task \<Rightarrow> ('u, 'w) event_loop_scheme \<Rightarrow> ('u, 'w) event_loop_scheme" where
  "queueInLoop task L = wakeup (L\<lparr>m_pendingTasks := m_pendingTasks L @ [task]\<rparr>)"

definition runInLoop ::
  "('u task \<Rightarrow> ('u, 'w) event_loop_scheme \<Rightarrow> ('u, 'w) event_loop_scheme res) \<Rightarrow> tid \<Rightarrow> 'u task
     \<Rightarrow> ('u, 'w) event_loop_scheme \<Rightarrow> ('u, 'w) event_loop_scheme res" where
  "runInLoop run gettid task L =
     (if isInLoopThread (m_tid L) gettid then run task L else Inr (queueInLoop task L))"

definition quit :: "tid \<Rightarrow> ('u, 'w) event_loop_scheme \<Rightarrow> ('u, 'w) event_loop_scheme res" where
  "quit gettid L =
     assertR (\<not> m_quit L) ''!m_quit'' (
     let L' = L\<lparr>m_quit := True\<rparr> in
     Inr (if \<not> isInLoopThread (m_tid L') gettid then wakeup L' else L'))"

section \<open>The loop\<close>

text \<open>
  One turn: poll, handle the active channels, swap out the pending tasks, run them.
  \<open>handle p\<close> is \<^verbatim>\<open>handleEvents\<close> of the channel at \<open>p\<close>, \<open>run\<close> is what running a task
  does, \<open>destroy\<close> what destroying its closure does: the vector of the tasks is destroyed at the
  end of the turn, and with it the references the closures hold. The swap happens before the first task runs, so tasks queued by tasks wait for the
  next turn. The loop is run against the results of its \<^verbatim>\<open>epoll_wait\<close> calls, in order; when
  they are used up it is blocked in the next one.
\<close>

definition doPendingTasks ::
  "('u task \<Rightarrow> ('u, 'w) event_loop_scheme \<Rightarrow> ('u, 'w) event_loop_scheme res)
     \<Rightarrow> ('u task \<Rightarrow> ('u, 'w) event_loop_scheme \<Rightarrow> ('u, 'w) event_loop_scheme res)
     \<Rightarrow> ('u, 'w) event_loop_scheme \<Rightarrow> ('u, 'w) event_loop_scheme res" where
  "doPendingTasks run destroy L =
     (let tasks = m_pendingTasks L in
      bindR (run_all (map run tasks) (L\<lparr>m_pendingTasks := []\<rparr>)) (\<lambda>L.
      run_all (map destroy tasks) L))"

definition loop_turn ::
  "('p \<Rightarrow> 32 word \<Rightarrow> ('u, 'w) event_loop_scheme \<Rightarrow> ('u, 'w) event_loop_scheme)
     \<Rightarrow> ('p \<Rightarrow> ('u, 'w) event_loop_scheme \<Rightarrow> ('u, 'w) event_loop_scheme res)
     \<Rightarrow> ('u task \<Rightarrow> ('u, 'w) event_loop_scheme \<Rightarrow> ('u, 'w) event_loop_scheme res)
     \<Rightarrow> ('u task \<Rightarrow> ('u, 'w) event_loop_scheme \<Rightarrow> ('u, 'w) event_loop_scheme res)
     \<Rightarrow> tid \<Rightarrow> int + ('p \<times> 32 word) list
     \<Rightarrow> ('u, 'w) event_loop_scheme \<Rightarrow> ('u, 'w) event_loop_scheme res" where
  "loop_turn mark handle run destroy gettid epoll_wait L =
     bindR (poll (m_tid L) gettid mark epoll_wait (m_poller L, L, [])) (\<lambda>(ep, L, activeChannels).
     bindR (run_all (map handle activeChannels) (L\<lparr>m_poller := ep\<rparr>)) (\<lambda>L.
     assertInLoopThread (m_tid L) gettid (doPendingTasks run destroy L)))"

fun loop_while ::
  "('p \<Rightarrow> 32 word \<Rightarrow> ('u, 'w) event_loop_scheme \<Rightarrow> ('u, 'w) event_loop_scheme)
     \<Rightarrow> ('p \<Rightarrow> ('u, 'w) event_loop_scheme \<Rightarrow> ('u, 'w) event_loop_scheme res)
     \<Rightarrow> ('u task \<Rightarrow> ('u, 'w) event_loop_scheme \<Rightarrow> ('u, 'w) event_loop_scheme res)
     \<Rightarrow> ('u task \<Rightarrow> ('u, 'w) event_loop_scheme \<Rightarrow> ('u, 'w) event_loop_scheme res)
     \<Rightarrow> tid \<Rightarrow> (int + ('p \<times> 32 word) list) list
     \<Rightarrow> ('u, 'w) event_loop_scheme \<Rightarrow> ('u, 'w) event_loop_scheme res" where
  "loop_while mark handle run destroy gettid [] L = Inr L"
| "loop_while mark handle run destroy gettid (ew # ews) L =
     (if m_quit L then Inr L
      else bindR (loop_turn mark handle run destroy gettid ew L) (loop_while mark handle run destroy gettid ews))"

definition loop ::
  "('p \<Rightarrow> 32 word \<Rightarrow> ('u, 'w) event_loop_scheme \<Rightarrow> ('u, 'w) event_loop_scheme)
     \<Rightarrow> ('p \<Rightarrow> ('u, 'w) event_loop_scheme \<Rightarrow> ('u, 'w) event_loop_scheme res)
     \<Rightarrow> ('u task \<Rightarrow> ('u, 'w) event_loop_scheme \<Rightarrow> ('u, 'w) event_loop_scheme res)
     \<Rightarrow> ('u task \<Rightarrow> ('u, 'w) event_loop_scheme \<Rightarrow> ('u, 'w) event_loop_scheme res)
     \<Rightarrow> tid \<Rightarrow> (int + ('p \<times> 32 word) list) list
     \<Rightarrow> ('u, 'w) event_loop_scheme \<Rightarrow> ('u, 'w) event_loop_scheme res" where
  "loop mark handle run destroy gettid ews L =
     assertInLoopThread (m_tid L) gettid (loop_while mark handle run destroy gettid ews L)"

section \<open>The client contract\<close>

text \<open>
  What the loop needs from the code it calls: a task or an event handler touches the task
  queue only through \<^verbatim>\<open>queueInLoop\<close>, that is, it appends closures (the loop thread changes
  its timers itself and queues nothing for that) and leaves the wakeup counter positive when
  it did, and it stays in its thread. \<open>queues L L'\<close> says that of one
  call. Handlers may also read the wakeup descriptor.
\<close>

fun is_closure :: "'u task \<Rightarrow> bool" where
  "is_closure (Closure u) = True"
| "is_closure _ = False"

definition queues :: "('u, 'w) event_loop_scheme \<Rightarrow> ('u, 'w) event_loop_scheme \<Rightarrow> bool" where
  "queues L L' \<longleftrightarrow> (\<exists>new. m_pendingTasks L' = m_pendingTasks L @ new \<and> list_all is_closure new
      \<and> (new \<noteq> [] \<longrightarrow> 0 < wakeup_count L') \<and> (0 < wakeup_count L \<longrightarrow> 0 < wakeup_count L'))
    \<and> m_tid L' = m_tid L"

definition only_appends :: "('u, 'w) event_loop_scheme \<Rightarrow> ('u, 'w) event_loop_scheme \<Rightarrow> bool" where
  "only_appends L L' \<longleftrightarrow>
     (\<exists>new. m_pendingTasks L' = m_pendingTasks L @ new) \<and> m_tid L' = m_tid L"

lemma queues_refl [simp]: "queues L L"
  by (simp add: queues_def)

lemma queues_trans:
  assumes "queues L L'" and "queues L' L''"
  shows "queues L L''"
proof -
  from assms obtain n1 n2 where "m_pendingTasks L' = m_pendingTasks L @ n1"
    "m_pendingTasks L'' = m_pendingTasks L' @ n2" "list_all is_closure n1" "list_all is_closure n2"
    "n1 \<noteq> [] \<longrightarrow> 0 < wakeup_count L'" "n2 \<noteq> [] \<longrightarrow> 0 < wakeup_count L''"
    unfolding queues_def by blast
  with assms show ?thesis
    unfolding queues_def by (intro conjI exI[of _ "n1 @ n2"]; cases "n1 = []"; cases "n2 = []"; simp)
qed

lemma queues_only_appends: "queues L L' \<Longrightarrow> only_appends L L'"
  by (auto simp: queues_def only_appends_def)

lemma only_appends_trans: "only_appends L L' \<Longrightarrow> only_appends L' L'' \<Longrightarrow> only_appends L L''"
  by (auto simp: only_appends_def)

lemma queues_queueInLoop: "queues L (queueInLoop (Closure u) L)"
  by (simp add: queues_def queueInLoop_def wakeup_def)

lemma quit_queues: "quit g L = Inr L' \<Longrightarrow> queues L L'"
  by (auto simp: quit_def queues_def wakeup_def Let_def res_iffs)

text \<open>
  A turn of the loop is the same as polling and then running the pending tasks; the contract
  makes sure that what is queued on the way is not forgotten: when the turn ends, every task
  still pending was queued during the turn, and the next \<^verbatim>\<open>epoll_wait\<close> will not block.
\<close>

lemma run_all_queues:
  assumes "\<And>f L L'. f \<in> set fs \<Longrightarrow> f L = Inr L' \<Longrightarrow> queues L L'"
    and "run_all fs L = Inr L'"
  shows "queues L L'"
  using assms
proof (induction fs arbitrary: L)
  case (Cons f fs)
  then obtain L1 where "f L = Inr L1" "run_all fs L1 = Inr L'" by (auto simp: res_iffs)
  with Cons show ?case by (meson list.set_intros queues_trans)
qed simp

lemma run_all_only_appends:
  assumes "\<And>f L L'. f \<in> set fs \<Longrightarrow> f L = Inr L' \<Longrightarrow> only_appends L L'"
    and "run_all fs L = Inr L'"
  shows "only_appends L L'"
  using assms
proof (induction fs arbitrary: L)
  case (Cons f fs)
  then obtain L1 where "f L = Inr L1" "run_all fs L1 = Inr L'" by (auto simp: res_iffs)
  with Cons show ?case by (meson list.set_intros only_appends_trans)
qed (simp add: only_appends_def)

locale loop_client =
  fixes mark :: "'p \<Rightarrow> 32 word \<Rightarrow> ('u, 'w) event_loop_scheme \<Rightarrow> ('u, 'w) event_loop_scheme"
    and handle :: "'p \<Rightarrow> ('u, 'w) event_loop_scheme \<Rightarrow> ('u, 'w) event_loop_scheme res"
    and run destroy :: "'u task \<Rightarrow> ('u, 'w) event_loop_scheme \<Rightarrow> ('u, 'w) event_loop_scheme res"
  assumes run_queues: "run task L = Inr L' \<Longrightarrow> queues L L'"
    and destroy_queues: "destroy task L = Inr L' \<Longrightarrow> queues L L'"
    and handle_appends: "handle p L = Inr L' \<Longrightarrow> only_appends L L'"
    and mark_frame: "m_pendingTasks (mark p ev L) = m_pendingTasks L" "m_tid (mark p ev L) = m_tid L"
begin

lemma doPendingTasks_parts:
  assumes "doPendingTasks run destroy L = Inr L'"
  obtains L1 where "run_all (map run (m_pendingTasks L)) (L\<lparr>m_pendingTasks := []\<rparr>) = Inr L1"
    "run_all (map destroy (m_pendingTasks L)) L1 = Inr L'" "queues (L\<lparr>m_pendingTasks := []\<rparr>) L1" "queues L1 L'"
proof -
  from assms obtain L1 where r: "run_all (map run (m_pendingTasks L)) (L\<lparr>m_pendingTasks := []\<rparr>) = Inr L1"
    and d: "run_all (map destroy (m_pendingTasks L)) L1 = Inr L'"
    by (auto simp: doPendingTasks_def Let_def bindR_eq_Inr)
  moreover have "queues (L\<lparr>m_pendingTasks := []\<rparr>) L1"
    by (rule run_all_queues[OF _ r]) (use run_queues in \<open>auto simp only: set_map\<close>)
  moreover have "queues L1 L'" by (rule run_all_queues[OF _ d]) (use destroy_queues in \<open>auto simp only: set_map\<close>)
  ultimately show thesis by (rule that)
qed

lemma doPendingTasks_wakes:
  assumes "doPendingTasks run destroy L = Inr L'"
  shows "(m_pendingTasks L' \<noteq> [] \<longrightarrow> 0 < wakeup_count L') \<and> m_tid L' = m_tid L"
proof -
  from assms obtain L1 where "queues (L\<lparr>m_pendingTasks := []\<rparr>) L1" "queues L1 L'" by (rule doPendingTasks_parts)
  from queues_trans[OF this] show ?thesis by (auto simp: queues_def)
qed

lemma fold_mark_frame:
  "m_pendingTasks (fold (\<lambda>(p, ev). mark p ev) evs L) = m_pendingTasks L
   \<and> m_tid (fold (\<lambda>(p, ev). mark p ev) evs L) = m_tid L"
  by (induction evs arbitrary: L) (auto simp: mark_frame)

lemma loop_turn_parts:
  assumes "loop_turn mark handle run destroy g ew L = Inr L'"
  obtains ep L0 act L1 where "poll (m_tid L) g mark ew (m_poller L, L, []) = Inr (ep, L0, act)"
    "run_all (map handle act) (L0\<lparr>m_poller := ep\<rparr>) = Inr L1" "only_appends L L1"
    "doPendingTasks run destroy L1 = Inr L'" "m_tid L = g"
proof -
  from assms obtain ep L0 act L1 where p: "poll (m_tid L) g mark ew (m_poller L, L, []) = Inr (ep, L0, act)"
    and h: "run_all (map handle act) (L0\<lparr>m_poller := ep\<rparr>) = Inr L1"
    and d: "doPendingTasks run destroy L1 = Inr L'" and g: "m_tid L1 = g"
    by (auto simp: loop_turn_def res_iffs assertInLoopThread_eq_Inr)
  have "m_pendingTasks L0 = m_pendingTasks L \<and> m_tid L0 = m_tid L \<and> m_tid L = g"
    using p fold_mark_frame
    by (auto simp: poll_def assertInLoopThread_eq_Inr split: sum.splits if_splits)
  moreover have "only_appends (L0\<lparr>m_poller := ep\<rparr>) L1"
    by (rule run_all_only_appends[OF _ h]) (auto intro: handle_appends)
  ultimately have "only_appends L L1" "m_tid L = g" by (auto simp: only_appends_def)
  with p h d show ?thesis by (intro that)
qed

lemma loop_turn_wakes:
  assumes "loop_turn mark handle run destroy g ew L = Inr L'"
  shows "(m_pendingTasks L' \<noteq> [] \<longrightarrow> 0 < wakeup_count L') \<and> m_tid L' = m_tid L"
  using assms
  by (rule loop_turn_parts) (auto dest: doPendingTasks_wakes simp: only_appends_def)

lemma loop_while_wakes:
  assumes "loop_while mark handle run destroy g ews L = Inr L'"
    and "m_pendingTasks L \<noteq> [] \<longrightarrow> 0 < wakeup_count L"
  shows "m_pendingTasks L' \<noteq> [] \<longrightarrow> 0 < wakeup_count L'"
  using assms
proof (induction ews arbitrary: L)
  case (Cons ew ews)
  show ?case
  proof (cases "m_quit L")
    case False
    with Cons.prems(1) obtain L1 where "loop_turn mark handle run destroy g ew L = Inr L1"
      "loop_while mark handle run destroy g ews L1 = Inr L'" by (auto simp: res_iffs)
    with Cons.IH loop_turn_wakes show ?thesis by blast
  qed (use Cons.prems in simp)
qed simp

end

text \<open>
  A client with an invariant, kept by each of its pieces, keeps it while the loop turns.
  \<open>inv ts\<close> holds while the tasks \<open>ts\<close>, swapped out of the queue, are not destroyed yet;
  \<open>benign\<close> says which polled channels are assumed to behave.
\<close>

definition polls_only :: "('p \<Rightarrow> bool) \<Rightarrow> int + ('p \<times> 32 word) list \<Rightarrow> bool" where
  "polls_only benign ew \<longleftrightarrow> (case ew of Inl e \<Rightarrow> True | Inr evs \<Rightarrow> list_all (\<lambda>(p, ev). benign p) evs)"

locale keeping_client = loop_client mark handle run destroy
  for mark :: "'p \<Rightarrow> 32 word \<Rightarrow> ('u, 'w) event_loop_scheme \<Rightarrow> ('u, 'w) event_loop_scheme"
    and handle run destroy +
  fixes inv :: "'u task list \<Rightarrow> ('u, 'w) event_loop_scheme \<Rightarrow> bool"
    and benign :: "'p \<Rightarrow> bool"
  assumes inv_poller: "inv [] L \<Longrightarrow> inv [] (L\<lparr>m_poller := ep\<rparr>)"
    and inv_swap: "inv [] L \<Longrightarrow> inv (m_pendingTasks L) (L\<lparr>m_pendingTasks := []\<rparr>)"
    and mark_inv: "inv [] L \<Longrightarrow> inv [] (mark p ev L)"
    and handle_inv: "inv [] L \<Longrightarrow> benign p \<Longrightarrow> handle p L = Inr L' \<Longrightarrow> inv [] L'"
    and run_inv: "inv ts L \<Longrightarrow> t \<in> set ts \<Longrightarrow> run t L = Inr L' \<Longrightarrow> inv ts L'"
    and destroy_inv: "inv (t # ts) L \<Longrightarrow> destroy t L = Inr L' \<Longrightarrow> inv ts L'"
begin

lemma poll_inv:
  assumes inv: "inv [] L" and ew: "polls_only benign ew"
    and h: "poll (m_tid L) g mark ew (m_poller L, L, []) = Inr (ep, L', act)"
  shows "inv [] L' \<and> (\<forall>p \<in> set act. benign p)"
proof -
  have "inv [] (fold (\<lambda>(p, ev). mark p ev) evs L)" for evs
    using inv by (induction evs arbitrary: L) (auto intro: mark_inv)
  with inv ew h show ?thesis
    by (fastforce simp: poll_def assertInLoopThread_eq_Inr polls_only_def list_all_iff split: sum.splits if_splits)
qed

lemma handle_all_inv:
  "run_all (map handle act) L = Inr L' \<Longrightarrow> inv [] L \<Longrightarrow> \<forall>p \<in> set act. benign p \<Longrightarrow> inv [] L'"
  by (induction act arbitrary: L) (auto simp: bindR_eq_Inr dest: handle_inv)

lemma run_all_inv:
  "run_all (map run us) L = Inr L' \<Longrightarrow> inv ts L \<Longrightarrow> set us \<subseteq> set ts \<Longrightarrow> inv ts L'"
  by (induction us arbitrary: L) (auto simp: bindR_eq_Inr dest: run_inv)

lemma destroy_all_inv: "run_all (map destroy ts) L = Inr L' \<Longrightarrow> inv ts L \<Longrightarrow> inv [] L'"
  by (induction ts arbitrary: L) (auto simp: bindR_eq_Inr dest: destroy_inv)

lemma loop_turn_inv:
  assumes inv: "inv [] L" and ew: "polls_only benign ew" and h: "loop_turn mark handle run destroy g ew L = Inr L'"
  shows "inv [] L'"
proof -
  obtain ep L0 act L1 where p: "poll (m_tid L) g mark ew (m_poller L, L, []) = Inr (ep, L0, act)"
    and a: "run_all (map handle act) (L0\<lparr>m_poller := ep\<rparr>) = Inr L1" and d: "doPendingTasks run destroy L1 = Inr L'"
    by (rule loop_turn_parts[OF h]) blast
  from poll_inv[OF inv ew p] handle_all_inv[OF a] inv_poller have "inv [] L1" by blast
  then have swapped: "inv (m_pendingTasks L1) (L1\<lparr>m_pendingTasks := []\<rparr>)" by (rule inv_swap)
  obtain L2 where r: "run_all (map run (m_pendingTasks L1)) (L1\<lparr>m_pendingTasks := []\<rparr>) = Inr L2"
    and e: "run_all (map destroy (m_pendingTasks L1)) L2 = Inr L'"
    by (rule doPendingTasks_parts[OF d]) blast
  from destroy_all_inv[OF e run_all_inv[OF r swapped]] show ?thesis by simp
qed

lemma loop_while_inv:
  assumes "inv [] L" and "\<forall>ew \<in> set ews. polls_only benign ew"
    and "loop_while mark handle run destroy g ews L = Inr L'"
  shows "inv [] L'"
  using assms
proof (induction ews arbitrary: L)
  case (Cons ew ews)
  show ?case
  proof (cases "m_quit L")
    case False
    with Cons.prems(3) obtain L1 where "loop_turn mark handle run destroy g ew L = Inr L1"
      "loop_while mark handle run destroy g ews L1 = Inr L'" by (auto simp: bindR_eq_Inr)
    with Cons loop_turn_inv show ?thesis by (metis list.set_intros)
  qed (use Cons.prems in simp)
qed simp

end

section \<open>Tasks that are observed\<close>

text \<open>
  To state in which order tasks run, the extension of the loop is taken to be the list of
  the tasks run so far. A task notes itself there and then queues any closures it likes; an
  event handler queues closures.
\<close>

definition observed_run :: "('u task \<Rightarrow> 'u list) \<Rightarrow> 'u task
    \<Rightarrow> ('u, 'u task list) event_loop_scheme \<Rightarrow> ('u, 'u task list) event_loop_scheme res" where
  "observed_run spawns task L =
     Inr (fold queueInLoop (map Closure (spawns task)) (L\<lparr>event_loop.more := event_loop.more L @ [task]\<rparr>))"

definition observed_handle :: "('p \<Rightarrow> 'u list) \<Rightarrow> 'p
    \<Rightarrow> ('u, 'w) event_loop_scheme \<Rightarrow> ('u, 'w) event_loop_scheme res" where
  "observed_handle spawns p L = Inr (fold queueInLoop (map Closure (spawns p)) L)"

lemma fold_queueInLoop:
  "fold queueInLoop ts L =
     L\<lparr>m_pendingTasks := m_pendingTasks L @ ts, wakeup_count := wakeup_count L + length ts\<rparr>"
  by (induction ts arbitrary: L) (simp_all add: queueInLoop_def wakeup_def)

interpretation observed: loop_client "\<lambda>_ _ L. L" "observed_handle hs" "observed_run ts" "\<lambda>_. Inr"
  by unfold_locales
    (auto simp: observed_run_def observed_handle_def fold_queueInLoop queues_def only_appends_def list_all_iff)

lemma run_all_drop_nothing: "run_all (map (\<lambda>_. Inr) ts) L = Inr L"
  by (induction ts) simp_all

lemma run_all_observed_handle:
  "run_all (map (observed_handle hs) ps) L = Inr (fold queueInLoop (map Closure (concat (map hs ps))) L)"
  by (induction ps arbitrary: L) (simp_all add: observed_handle_def)

lemma run_all_observed_run:
  "\<exists>L'. run_all (map (observed_run ts) tasks) L = Inr L'
     \<and> event_loop.more L' = event_loop.more L @ tasks
     \<and> m_pendingTasks L' = m_pendingTasks L @ map Closure (concat (map ts tasks)) \<and> m_tid L' = m_tid L
     \<and> m_quit L' = m_quit L"
proof (induction tasks arbitrary: L)
  case (Cons task tasks)
  obtain L1 where "observed_run ts task L = Inr L1" "event_loop.more L1 = event_loop.more L @ [task]"
    "m_pendingTasks L1 = m_pendingTasks L @ map Closure (ts task)" "m_tid L1 = m_tid L" "m_quit L1 = m_quit L"
    by (simp add: observed_run_def fold_queueInLoop)
  with Cons[of L1] show ?case by auto
qed simp

lemma fold_no_channels: "fold (\<lambda>(p, ev) L. L) evs L = L"
  by (induction evs) auto

text \<open>
  What one turn runs: the tasks that waited and those the handlers of the polled channels
  queued. The tasks these tasks queue wait for the next turn.
\<close>

definition polled_channels :: "int + ('p \<times> 32 word) list \<Rightarrow> 'p list" where
  "polled_channels ew = (case ew of Inl e \<Rightarrow> [] | Inr evs \<Rightarrow> map fst evs)"

fun task_batches :: "('p \<Rightarrow> 'u list) \<Rightarrow> ('u task \<Rightarrow> 'u list) \<Rightarrow> 'p list list \<Rightarrow> 'u task list
    \<Rightarrow> 'u task list list" where
  "task_batches hs ts [] waiting = []"
| "task_batches hs ts (ps # pss) waiting =
     (let batch = waiting @ map Closure (concat (map hs ps)) in
      batch # task_batches hs ts pss (map Closure (concat (map ts batch))))"

lemma poll_observed:
  "\<exists>ep. poll t t (\<lambda>_ _ L. L) ew (ep0, L, []) = Inr (ep, L, polled_channels ew)"
  by (auto simp: poll_def fold_no_channels polled_channels_def split: sum.split)

lemma loop_turn_observed:
  "\<exists>L'. loop_turn (\<lambda>_ _ L. L) (observed_handle hs) (observed_run ts) (\<lambda>_. Inr) (m_tid L) ew L = Inr L'
     \<and> event_loop.more L' = event_loop.more L @ m_pendingTasks L @ map Closure (concat (map hs (polled_channels ew)))
     \<and> m_pendingTasks L' = map Closure (concat (map ts (m_pendingTasks L @ map Closure (concat (map hs (polled_channels ew))))))
     \<and> m_tid L' = m_tid L \<and> m_quit L' = m_quit L"
proof -
  let ?act = "polled_channels ew"
  obtain ep where p: "poll (m_tid L) (m_tid L) (\<lambda>_ _ L. L) ew (m_poller L, L, []) = Inr (ep, L, ?act)"
    using poll_observed by metis
  let ?L1 = "fold queueInLoop (map Closure (concat (map hs ?act))) (L\<lparr>m_poller := ep\<rparr>)"
  obtain L' where "run_all (map (observed_run ts) (m_pendingTasks ?L1)) (?L1\<lparr>m_pendingTasks := []\<rparr>) = Inr L'"
    "event_loop.more L' = event_loop.more L @ m_pendingTasks ?L1"
    "m_pendingTasks L' = map Closure (concat (map ts (m_pendingTasks ?L1)))" "m_tid L' = m_tid L" "m_quit L' = m_quit L"
    using run_all_observed_run[of ts "m_pendingTasks ?L1" "?L1\<lparr>m_pendingTasks := []\<rparr>"]
    by (auto simp: fold_queueInLoop)
  moreover from this have
    "loop_turn (\<lambda>_ _ L. L) (observed_handle hs) (observed_run ts) (\<lambda>_. Inr) (m_tid L) ew L = Inr L'"
    by (simp add: loop_turn_def p run_all_observed_handle doPendingTasks_def Let_def fold_queueInLoop run_all_drop_nothing)
  ultimately show ?thesis by (simp add: fold_queueInLoop)
qed

lemma loop_while_observed:
  assumes "\<not> m_quit L"
  shows "\<exists>L'. loop_while (\<lambda>_ _ L. L) (observed_handle hs) (observed_run ts) (\<lambda>_. Inr) (m_tid L) ews L = Inr L'
     \<and> (let pss = map polled_channels ews; bs = task_batches hs ts pss (m_pendingTasks L) in
         event_loop.more L' = event_loop.more L @ concat bs
         \<and> concat bs @ m_pendingTasks L'
             = m_pendingTasks L @ concat (map2 (\<lambda>ps b. map Closure (concat (map hs ps) @ concat (map ts b))) pss bs))"
  using assms
proof (induction ews arbitrary: L)
  case (Cons ew ews)
  obtain L1 where 1: "loop_turn (\<lambda>_ _ L. L) (observed_handle hs) (observed_run ts) (\<lambda>_. Inr) (m_tid L) ew L = Inr L1"
    and m: "event_loop.more L1 = event_loop.more L @ m_pendingTasks L @ map Closure (concat (map hs (polled_channels ew)))"
    and p: "m_pendingTasks L1 = map Closure (concat (map ts (m_pendingTasks L @ map Closure (concat (map hs (polled_channels ew))))))"
    and t: "m_tid L1 = m_tid L" and q: "m_quit L1 = m_quit L"
    using loop_turn_observed by blast
  have "\<not> m_quit L1" using q Cons.prems by simp
  from Cons.IH[OF this] obtain L2 where
    2: "loop_while (\<lambda>_ _ L. L) (observed_handle hs) (observed_run ts) (\<lambda>_. Inr) (m_tid L) ews L1 = Inr L2"
    and r: "let pss = map polled_channels ews; bs = task_batches hs ts pss (m_pendingTasks L1) in
         event_loop.more L2 = event_loop.more L1 @ concat bs
         \<and> concat bs @ m_pendingTasks L2
             = m_pendingTasks L1 @ concat (map2 (\<lambda>ps b. map Closure (concat (map hs ps) @ concat (map ts b))) pss bs)"
    unfolding t by blast
  have "loop_while (\<lambda>_ _ L. L) (observed_handle hs) (observed_run ts) (\<lambda>_. Inr) (m_tid L) (ew # ews) L = Inr L2"
    using 1 2 Cons.prems by simp
  with r show ?case by (intro exI[of _ L2]) (simp add: Let_def m p)
qed simp

section \<open>Properties\<close>

text \<open>
  C20. Tasks run in the order in which they were queued, none twice and none lost, whatever
  they and the event handlers queue on the way. Each turn of a loop that was not told to quit
  runs one batch: the tasks that waited, in order, and then those the handlers of its polled
  channels queued; what the tasks of a batch queue waits for the next turn. When the results
  of \<^verbatim>\<open>epoll_wait\<close> are used up, the tasks run so far are the batches, one after the other; the
  tasks run followed by the tasks pending are the ones pending at the start followed by
  exactly the ones the handlers and the tasks run have queued, in that order; and if tasks
  are pending then, the wakeup descriptor is readable, so the loop does not sleep on them.
\<close>

theorem tasks_run_in_order:
  assumes "\<not> m_quit L"
  shows "\<exists>L'. loop (\<lambda>_ _ L. L) (observed_handle hs) (observed_run ts) (\<lambda>_. Inr) (m_tid L) ews L = Inr L'
     \<and> (let pss = map polled_channels ews; bs = task_batches hs ts pss (m_pendingTasks L);
            late = concat (map2 (\<lambda>ps b. map Closure (concat (map hs ps) @ concat (map ts b))) pss bs) in
         event_loop.more L' = event_loop.more L @ concat bs
         \<and> event_loop.more L' @ m_pendingTasks L' = event_loop.more L @ m_pendingTasks L @ late)
     \<and> ((m_pendingTasks L \<noteq> [] \<longrightarrow> 0 < wakeup_count L) \<longrightarrow>
          (m_pendingTasks L' \<noteq> [] \<longrightarrow> 0 < wakeup_count L'))"
proof -
  obtain L' where 1: "loop_while (\<lambda>_ _ L. L) (observed_handle hs) (observed_run ts) (\<lambda>_. Inr) (m_tid L) ews L = Inr L'"
    and 2: "let pss = map polled_channels ews; bs = task_batches hs ts pss (m_pendingTasks L) in
         event_loop.more L' = event_loop.more L @ concat bs
         \<and> concat bs @ m_pendingTasks L'
             = m_pendingTasks L @ concat (map2 (\<lambda>ps b. map Closure (concat (map hs ps) @ concat (map ts b))) pss bs)"
    using loop_while_observed[OF assms] by blast
  from 1 have "loop (\<lambda>_ _ L. L) (observed_handle hs) (observed_run ts) (\<lambda>_. Inr) (m_tid L) ews L = Inr L'"
    by (simp add: loop_def)
  moreover note observed.loop_while_wakes[OF 1]
  ultimately show ?thesis using 2 by (intro exI[of _ L']) (simp add: Let_def)
qed

lemma tasks_run_in_order_witness:
  "\<exists>L L'. m_pendingTasks L = [Closure (1 :: nat), Closure 2]
     \<and> loop (\<lambda>_ _ L. L) (observed_handle (\<lambda>p. [p])) (observed_run (\<lambda>t. if t = Closure 1 then [9] else []))
         (\<lambda>_. Inr) (m_tid L) [Inr [(3, EPOLLIN)]] L = Inr L'
     \<and> event_loop.more L' = [Closure 1, Closure 2, Closure 3] \<and> m_pendingTasks L' = [Closure 9] \<and> 0 < wakeup_count L'"
proof -
  let ?L = "\<lparr>m_tid = 1, m_quit = False, m_poller = \<lparr>ep_size = 128, ep_calls = []\<rparr>,
     m_pendingTasks = [Closure (1 :: nat), Closure 2],
     m_wakeupChannel = new_Channel 4, wakeup_count = 2, m_timerChannel = new_Channel 5,
     m_timers = [], timer_heap = Map.empty, timerfd_sets = [], clock_now = 0, \<dots> = [] :: nat task list\<rparr>"
  have L: "\<not> m_quit ?L" "m_pendingTasks ?L = [Closure 1, Closure 2]" "event_loop.more ?L = []"
    "m_pendingTasks ?L \<noteq> [] \<longrightarrow> 0 < wakeup_count ?L" by simp_all
  obtain L' where
    r: "loop (\<lambda>_ _ L. L) (observed_handle (\<lambda>p. [p])) (observed_run (\<lambda>t. if t = Closure 1 then [9] else []))
         (\<lambda>_. Inr) (m_tid ?L) [Inr [(3, EPOLLIN)]] ?L = Inr L'"
    and m: "event_loop.more L' = [Closure 1, Closure 2, Closure 3]"
      "event_loop.more L' @ m_pendingTasks L' = [Closure 1, Closure 2, Closure 3, Closure 9]"
    and w: "m_pendingTasks L' \<noteq> [] \<longrightarrow> 0 < wakeup_count L'"
    using tasks_run_in_order[OF L(1), of "\<lambda>p. [p]" "\<lambda>t. if t = Closure 1 then [9] else []" "[Inr [(3, EPOLLIN)]]"] L
    by (auto simp: polled_channels_def)
  from m have "m_pendingTasks L' = [Closure 9]" by simp
  with r m(1) w L(2) show ?thesis by (intro exI[of _ ?L] exI[of _ L']) simp
qed

end
