(* ===== verification/Timer_Queue.thy ===== *)
theory Timer_Queue
  imports Event_Loop "HOL-Library.Product_Lexorder"
begin

text \<open>
  The class \<^verbatim>\<open>TimerQueue\<close> (\<^verbatim>\<open>TimerQueue.hpp\<close>, \<^verbatim>\<open>TimerQueue.cpp\<close>) and the timer
  operations of \<^verbatim>\<open>EventLoop\<close>. \<^verbatim>\<open>std::set<Entry>\<close> orders entries by time point and then by
  address, which is the lexicographic order of pairs. \<open>exec\<close> is what calling a client's
  closure does to the loop, \<open>gettid\<close> the calling thread.
\<close>

section \<open>Operations\<close>

subsection \<open>The timer descriptor\<close>

definition durationFromNow :: "time_point \<Rightarrow> time_point \<Rightarrow> (int \<times> int) res" where
  "durationFromNow now when =
     bindR (int64 (when - now)) (\<lambda>ns.
     let ns = (if ns < 1000000 then 1000000 else ns) in
     Inr (ns div 1000000000, ns mod 1000000000))"

definition timerfdSet ::
  "time_point \<Rightarrow> ('u, 'w) event_loop_scheme \<Rightarrow> ('u, 'w) event_loop_scheme res" where
  "timerfdSet when L =
     bindR (durationFromNow (clock_now L) when) (\<lambda>(sec, nsec).
     Inr (L\<lparr>timerfd_sets := timerfd_sets L @ [(clock_now L, sec, nsec)]\<rparr>))"

subsection \<open>The set of entries\<close>

definition set_insert :: "entry \<Rightarrow> entry list \<Rightarrow> entry list" where
  "set_insert e es = (if e \<in> set es then es else insort e es)"

definition lower_bound :: "entry \<Rightarrow> entry list \<Rightarrow> entry list \<times> entry list" where
  "lower_bound en es = (takeWhile (\<lambda>e. e < en) es, dropWhile (\<lambda>e. e < en) es)"

text \<open>A pointer is dereferenced: the null pointer and a freed timer are faults.\<close>

definition deref :: "addr \<Rightarrow> ('u, 'w) event_loop_scheme \<Rightarrow> 'u timer res" where
  "deref p L = (if p = 0 then Inl NullDeref
                else case timer_heap L p of None \<Rightarrow> Inl UseAfterFree | Some t \<Rightarrow> Inr t)"

definition delete_timer ::
  "addr \<Rightarrow> ('u, 'w) event_loop_scheme \<Rightarrow> ('u, 'w) event_loop_scheme" where
  "delete_timer p L = L\<lparr>timer_heap := (timer_heap L)(p := None)\<rparr>"

subsection \<open>Adding and cancelling\<close>

text \<open>The bodies of the two lambdas that \<^verbatim>\<open>addTimer\<close> and \<^verbatim>\<open>cancelTimer\<close> hand to the loop.\<close>

definition insertTimer ::
  "entry \<Rightarrow> ('u, 'w) event_loop_scheme \<Rightarrow> ('u, 'w) event_loop_scheme res" where
  "insertTimer e L =
     assertR (e \<notin> set (m_timers L)) ''ret.second'' (
     let L' = L\<lparr>m_timers := set_insert e (m_timers L)\<rparr> in
     if hd (m_timers L') = e then timerfdSet (fst e) L' else Inr L')"

definition eraseTimer ::
  "addr \<Rightarrow> ('u, 'w) event_loop_scheme \<Rightarrow> ('u, 'w) event_loop_scheme res" where
  "eraseTimer p L =
     bindR (deref p L) (\<lambda>t.
     bindR (cancel t) (\<lambda>t'.
     let L' = L\<lparr>timer_heap := (timer_heap L)(p \<mapsto> t'),
                m_timers := remove1 (m_when t', p) (m_timers L)\<rparr> in
     Inr (delete_timer p L')))"

fun run_task :: "('u \<Rightarrow> ('u, 'w) event_loop_scheme \<Rightarrow> ('u, 'w) event_loop_scheme res)
    \<Rightarrow> 'u task \<Rightarrow> ('u, 'w) event_loop_scheme \<Rightarrow> ('u, 'w) event_loop_scheme res" where
  "run_task exec (TimerInsert e) L = insertTimer e L"
| "run_task exec (TimerErase p) L = eraseTimer p L"
| "run_task exec (Closure u) L = exec u L"

text \<open>\<open>p\<close> is the address \<^verbatim>\<open>new\<close> returned.\<close>

definition addTimer :: "('u \<Rightarrow> ('u, 'w) event_loop_scheme \<Rightarrow> ('u, 'w) event_loop_scheme res)
    \<Rightarrow> tid \<Rightarrow> addr \<Rightarrow> 'u option \<Rightarrow> time_point \<Rightarrow> nanoseconds
    \<Rightarrow> ('u, 'w) event_loop_scheme \<Rightarrow> (addr \<times> ('u, 'w) event_loop_scheme) res" where
  "addTimer exec gettid p cb when interval L =
     (let L' = L\<lparr>timer_heap := (timer_heap L)(p \<mapsto> new_Timer cb when interval)\<rparr> in
      bindR (runInLoop (run_task exec) gettid (TimerInsert (when, p)) L') (\<lambda>L''. Inr (p, L'')))"

definition cancelTimer :: "('u \<Rightarrow> ('u, 'w) event_loop_scheme \<Rightarrow> ('u, 'w) event_loop_scheme res)
    \<Rightarrow> tid \<Rightarrow> addr \<Rightarrow> ('u, 'w) event_loop_scheme \<Rightarrow> ('u, 'w) event_loop_scheme res" where
  "cancelTimer exec gettid p L = runInLoop (run_task exec) gettid (TimerErase p) L"

definition runAt :: "('u \<Rightarrow> ('u, 'w) event_loop_scheme \<Rightarrow> ('u, 'w) event_loop_scheme res)
    \<Rightarrow> tid \<Rightarrow> addr \<Rightarrow> time_point \<Rightarrow> 'u option
    \<Rightarrow> ('u, 'w) event_loop_scheme \<Rightarrow> (addr \<times> ('u, 'w) event_loop_scheme) res" where
  "runAt exec gettid p when cb L = addTimer exec gettid p cb when 0 L"

definition runEvery :: "('u \<Rightarrow> ('u, 'w) event_loop_scheme \<Rightarrow> ('u, 'w) event_loop_scheme res)
    \<Rightarrow> tid \<Rightarrow> addr \<Rightarrow> nanoseconds \<Rightarrow> 'u option
    \<Rightarrow> ('u, 'w) event_loop_scheme \<Rightarrow> (addr \<times> ('u, 'w) event_loop_scheme) res" where
  "runEvery exec gettid p interval cb L =
     bindR (nowAfter (clock_now L) interval) (\<lambda>w. addTimer exec gettid p cb w interval L)"

definition runAfter :: "('u \<Rightarrow> ('u, 'w) event_loop_scheme \<Rightarrow> ('u, 'w) event_loop_scheme res)
    \<Rightarrow> tid \<Rightarrow> addr \<Rightarrow> nanoseconds \<Rightarrow> 'u option
    \<Rightarrow> ('u, 'w) event_loop_scheme \<Rightarrow> (addr \<times> ('u, 'w) event_loop_scheme) res" where
  "runAfter exec gettid p interval cb L =
     bindR (nowAfter (clock_now L) interval) (\<lambda>w. runAt exec gettid p w cb L)"

text \<open>\<^verbatim>\<open>EventLoop::cancelTimer\<close> forwards to the timer queue.\<close>

definition EventLoop_cancelTimer :: "('u \<Rightarrow> ('u, 'w) event_loop_scheme \<Rightarrow> ('u, 'w) event_loop_scheme res)
    \<Rightarrow> tid \<Rightarrow> addr \<Rightarrow> ('u, 'w) event_loop_scheme \<Rightarrow> ('u, 'w) event_loop_scheme res" where
  "EventLoop_cancelTimer exec gettid p L = cancelTimer exec gettid p L"

subsection \<open>Expiry\<close>

definition getExpired :: "time_point \<Rightarrow> ('u, 'w) event_loop_scheme
    \<Rightarrow> (entry list \<times> ('u, 'w) event_loop_scheme) res" where
  "getExpired now L =
     bindR (int64 (now + 1)) (\<lambda>w.
     let (entries, rest) = lower_bound (w, 0) (m_timers L) in
     Inr (entries, L\<lparr>m_timers := rest\<rparr>))"

text \<open>
  One due timer: it is run unless cancelled, and then looked at again (the callback may have
  done anything to it) to be restarted or deleted.
\<close>

definition handleEntry :: "('u \<Rightarrow> ('u, 'w) event_loop_scheme \<Rightarrow> ('u, 'w) event_loop_scheme res)
    \<Rightarrow> time_point \<Rightarrow> entry \<Rightarrow> ('u, 'w) event_loop_scheme \<Rightarrow> ('u, 'w) event_loop_scheme res" where
  "handleEntry exec now e L =
     bindR (deref (snd e) L) (\<lambda>t.
     assertR (expired t now) ''timer->expired(now)'' (
     bindR (if \<not> m_canceled t then run_timer exec t L else Inr L) (\<lambda>L.
     bindR (deref (snd e) L) (\<lambda>t.
     if \<not> m_canceled t \<and> m_repeat t then
       bindR (restart t) (\<lambda>t'.
       Inr (L\<lparr>timer_heap := (timer_heap L)(snd e \<mapsto> t'),
              m_timers := set_insert (m_when t', snd e) (m_timers L)\<rparr>))
     else Inr (delete_timer (snd e) L)))))"

definition handleRead_timer :: "('u \<Rightarrow> ('u, 'w) event_loop_scheme \<Rightarrow> ('u, 'w) event_loop_scheme res)
    \<Rightarrow> tid \<Rightarrow> ('u, 'w) event_loop_scheme \<Rightarrow> ('u, 'w) event_loop_scheme res" where
  "handleRead_timer exec gettid L =
     assertInLoopThread (m_tid L) gettid (
     let now = clock_now L in
     bindR (getExpired now L) (\<lambda>(entries, L).
     bindR (run_all (map (handleEntry exec now) entries) L) (\<lambda>L.
     if m_timers L \<noteq> [] then timerfdSet (fst (hd (m_timers L))) L else Inr L)))"

definition destroy_TimerQueue ::
  "('u, 'w) event_loop_scheme \<Rightarrow> ('u, 'w) event_loop_scheme" where
  "destroy_TimerQueue L = fold (\<lambda>e. delete_timer (snd e)) (m_timers L) L"

text \<open>
  The destructor of the loop: \<open>is_current\<close> tells whether the thread-local \<^verbatim>\<open>t_Eventloop\<close> is
  this loop; the result is its new value, a null pointer, and what the members leave.
\<close>

definition destroy_EventLoop :: "bool \<Rightarrow> ('u, 'w) event_loop_scheme
    \<Rightarrow> (addr option \<times> ('u, 'w) event_loop_scheme) res" where
  "destroy_EventLoop is_current L =
     assertR is_current ''t_Eventloop == this'' (Inr (None, destroy_TimerQueue L))"

lemma destroy_TimerQueue_frees: "timer_heap (destroy_TimerQueue L) = timer_heap L |` (- snd ` set (m_timers L))"
proof -
  have "timer_heap (fold (\<lambda>e. delete_timer (snd e)) es M) = timer_heap M |` (- snd ` set es)"
    for es and M :: "('u, 'w) event_loop_scheme"
    by (induction es arbitrary: M) (auto simp: delete_timer_def restrict_map_def fun_eq_iff)
  then show ?thesis by (simp add: destroy_TimerQueue_def)
qed

section \<open>The ordered set\<close>

text \<open>
  What the timer queue relies on: a set of entries in increasing order, with insertion,
  removal and the split at a lower bound. The sorted list meets this contract.
\<close>

locale ordered_set =
  fixes elems :: "'t \<Rightarrow> 'a::linorder list"
    and ok :: "'t \<Rightarrow> bool"
    and ins :: "'a \<Rightarrow> 't \<Rightarrow> 't"
    and del :: "'a \<Rightarrow> 't \<Rightarrow> 't"
    and split_at :: "'a \<Rightarrow> 't \<Rightarrow> 'a list \<times> 't"
  assumes elems_sorted: "ok s \<Longrightarrow> sorted (elems s) \<and> distinct (elems s)"
    and ins_ok: "ok s \<Longrightarrow> ok (ins e s) \<and> set (elems (ins e s)) = insert e (set (elems s))"
    and del_ok: "ok s \<Longrightarrow> ok (del e s) \<and> set (elems (del e s)) = set (elems s) - {e}"
    and split_ok: "ok s \<Longrightarrow> split_at b s = (lo, s') \<Longrightarrow>
      ok s' \<and> elems s = lo @ elems s' \<and> (\<forall>x \<in> set lo. x < b) \<and> (\<forall>x \<in> set (elems s'). b \<le> x)"
begin

lemma first_is_least: "ok s \<Longrightarrow> x \<in> set (elems s) \<Longrightarrow> hd (elems s) \<le> x"
  using elems_sorted[of s] by (cases "elems s") auto

lemma split_lo_is_filter:
  assumes "ok s" and "split_at b s = (lo, s')"
  shows "lo = filter (\<lambda>x. x < b) (elems s) \<and> elems s' = filter (\<lambda>x. b \<le> x) (elems s)"
proof -
  note sp = split_ok[OF assms]
  have "filter (\<lambda>x. x < b) (elems s') = []" "filter (\<lambda>x. b \<le> x) lo = []"
    using sp by (auto simp: filter_empty_conv)
  then show ?thesis using sp by simp
qed

end

lemma sorted_dropWhile_ge:
  "sorted xs \<Longrightarrow> x \<in> set (dropWhile (\<lambda>e. e < b) xs) \<Longrightarrow> b \<le> (x :: 'a :: linorder)"
  by (induction xs) (auto split: if_splits)

interpretation entries: ordered_set "\<lambda>es. es" "\<lambda>es. sorted es \<and> distinct es"
    set_insert remove1 lower_bound
proof
  fix s lo s' :: "entry list" and e b :: entry
  assume s: "sorted s \<and> distinct s"
  show "sorted s \<and> distinct s" by (rule s)
  show "(sorted (set_insert e s) \<and> distinct (set_insert e s)) \<and> set (set_insert e s) = insert e (set s)"
    using s by (auto simp: set_insert_def set_insort_key distinct_insort sorted_insort)
  show "(sorted (remove1 e s) \<and> distinct (remove1 e s)) \<and> set (remove1 e s) = set s - {e}"
    using s by (simp add: sorted_remove1)
  assume "lower_bound b s = (lo, s')"
  then have "lo = takeWhile (\<lambda>e. e < b) s" "s' = dropWhile (\<lambda>e. e < b) s"
    by (simp_all add: lower_bound_def)
  then show "(sorted s' \<and> distinct s') \<and> s = lo @ s' \<and> (\<forall>x \<in> set lo. x < b) \<and> (\<forall>x \<in> set s'. b \<le> x)"
    using s sorted_dropWhile_ge[of s _ b]
    by (auto simp: sorted_dropWhile distinct_dropWhile dest: set_takeWhileD)
qed

section \<open>Invariant\<close>

text \<open>
  Every entry points to a live timer that agrees with it on the time and is not cancelled,
  and no timer has two entries. While a batch of expired timers is being handled, its
  entries satisfy the same away from the set.
\<close>

definition entry_ok :: "('u, 'w) event_loop_scheme \<Rightarrow> entry \<Rightarrow> bool" where
  "entry_ok L e \<longleftrightarrow> snd e \<noteq> 0 \<and>
     (\<exists>t. timer_heap L (snd e) = Some t \<and> m_when t = fst e \<and> \<not> m_canceled t)"

definition tq_inv :: "('u, 'w) event_loop_scheme \<Rightarrow> bool" where
  "tq_inv L \<longleftrightarrow> sorted (m_timers L) \<and> distinct (map snd (m_timers L))
     \<and> (\<forall>e \<in> set (m_timers L). entry_ok L e)"

definition batch_ok :: "entry list \<Rightarrow> ('u, 'w) event_loop_scheme \<Rightarrow> bool" where
  "batch_ok es L \<longleftrightarrow> distinct (map snd es) \<and> snd ` set es \<inter> snd ` set (m_timers L) = {}
     \<and> (\<forall>e \<in> set es. entry_ok L e)"

lemma tq_inv_distinct: "tq_inv L \<Longrightarrow> distinct (m_timers L)"
  by (simp add: tq_inv_def distinct_map)

lemma entry_ok_deref: "entry_ok L e \<Longrightarrow> \<exists>t. deref (snd e) L = Inr t \<and> timer_heap L (snd e) = Some t
     \<and> m_when t = fst e \<and> \<not> m_canceled t"
  by (auto simp: entry_ok_def deref_def)

lemma deref_eq_Inr: "deref p L = Inr t \<longleftrightarrow> p \<noteq> 0 \<and> timer_heap L p = Some t"
  by (auto simp: deref_def split: option.splits)

lemma entry_ok_frame:
  "timer_heap L' (snd e) = timer_heap L (snd e) \<Longrightarrow> entry_ok L' e = entry_ok L e"
  by (simp add: entry_ok_def)

lemma tq_inv_entry: "tq_inv L \<Longrightarrow> e \<in> set (m_timers L) \<Longrightarrow> entry_ok L e"
  by (simp add: tq_inv_def)

lemma distinct_insort_snd:
  "snd e \<notin> snd ` set es \<Longrightarrow> distinct (map snd es) \<Longrightarrow> distinct (map snd (insort e es))"
  by (induction es) (auto simp: set_insort_key)

lemma tq_inv_insert:
  assumes "tq_inv L" and "snd e \<notin> snd ` set (m_timers L)"
    and "m_timers L' = set_insert e (m_timers L)" and "entry_ok L' e"
    and "\<And>p. p \<noteq> snd e \<Longrightarrow> timer_heap L' p = timer_heap L p"
  shows "tq_inv L'"
proof -
  have "e \<notin> set (m_timers L)" using assms(2) by auto
  then have ts: "m_timers L' = insort e (m_timers L)" using assms(3) by (simp add: set_insert_def)
  have "entry_ok L' e'" if "e' \<in> set (m_timers L)" for e'
  proof -
    have "snd e' \<noteq> snd e" using that assms(2) by (metis imageI)
    from entry_ok_frame[OF assms(5)[OF this]] tq_inv_entry[OF assms(1) that] show ?thesis by simp
  qed
  with ts assms(1,2,4) show ?thesis
    by (auto simp: tq_inv_def set_insort_key sorted_insort distinct_insort_snd)
qed

lemma tq_inv_remove:
  assumes "tq_inv L" and "m_timers L' = filter P (m_timers L)"
    and "\<And>e. e \<in> set (m_timers L') \<Longrightarrow> timer_heap L' (snd e) = timer_heap L (snd e)"
  shows "tq_inv L'"
proof -
  have "distinct (map snd (filter P (m_timers L)))"
    using assms(1) by (auto simp: tq_inv_def intro: distinct_map_filter)
  moreover have "entry_ok L' e" if "e \<in> set (m_timers L')" for e
    using entry_ok_frame[OF assms(3)[OF that]] tq_inv_entry[OF assms(1), of e] that assms(2) by simp
  ultimately show ?thesis
    using assms(1,2) by (simp add: tq_inv_def sorted_wrt_filter)
qed

subsection \<open>Arming of the descriptor\<close>

definition last_deadline :: "('u, 'w) event_loop_scheme \<Rightarrow> int" where
  "last_deadline L = (case last (timerfd_sets L) of (c, s, n) \<Rightarrow> c + s * 1000000000 + n)"

definition last_clock :: "('u, 'w) event_loop_scheme \<Rightarrow> int" where
  "last_clock L = fst (last (timerfd_sets L))"

text \<open>
  The descriptor is armed for the earliest timer: the last call of \<^verbatim>\<open>timerfd_settime\<close> asked
  for a time not after the earliest due time, up to the millisecond below which the code
  does not go.
\<close>

definition armed :: "('u, 'w) event_loop_scheme \<Rightarrow> bool" where
  "armed L \<longleftrightarrow> (m_timers L \<noteq> [] \<longrightarrow> timerfd_sets L \<noteq> []
     \<and> last_deadline L \<le> max (fst (hd (m_timers L))) (last_clock L + 1000000))"

lemma durationFromNow_ok:
  assumes "int64_ok (when - now)"
  shows "\<exists>s n. durationFromNow now when = Inr (s, n) \<and> 0 \<le> n \<and> n < 1000000000
    \<and> s * 1000000000 + n = max (when - now) 1000000"
  using assms
  by (simp add: durationFromNow_def sz_simps Let_def)

lemma timerfdSet_ok:
  assumes "int64_ok (when - clock_now L)"
  shows "\<exists>s n. timerfdSet when L = Inr (L\<lparr>timerfd_sets := timerfd_sets L @ [(clock_now L, s, n)]\<rparr>)
    \<and> clock_now L + s * 1000000000 + n = max when (clock_now L + 1000000)"
proof -
  from durationFromNow_ok[OF assms] obtain s n where
    "durationFromNow (clock_now L) when = Inr (s, n)"
    "s * 1000000000 + n = max (when - clock_now L) 1000000" by blast
  then show ?thesis
    by (intro exI[of _ s] exI[of _ n]) (simp add: timerfdSet_def max_def split: if_splits)
qed

lemma timerfdSet_frame:
  assumes "timerfdSet when L = Inr L'"
  shows "\<exists>x. L' = L\<lparr>timerfd_sets := timerfd_sets L @ [x]\<rparr>
     \<and> last_deadline L' = max when (last_clock L' + 1000000) \<and> timerfd_sets L' \<noteq> []"
proof -
  have "int64_ok (when - clock_now L)"
    using assms by (auto simp: timerfdSet_def durationFromNow_def int64_def split: if_splits)
  from timerfdSet_ok[OF this] assms show ?thesis
    by (auto simp: last_deadline_def last_clock_def)
qed

lemma tq_inv_timerfd: "tq_inv (L\<lparr>timerfd_sets := x\<rparr>) = tq_inv L"
  by (simp add: tq_inv_def entry_ok_def)

subsection \<open>Adding and cancelling\<close>

lemma insertTimer_ok:
  assumes inv: "tq_inv L" and e: "entry_ok L e" "snd e \<notin> snd ` set (m_timers L)"
    and ok: "insertTimer e L = Inr L'"
  shows "tq_inv L' \<and> set (m_timers L') = insert e (set (m_timers L)) \<and> timer_heap L' = timer_heap L
    \<and> (armed L \<longrightarrow> armed L')"
proof -
  let ?L = "L\<lparr>m_timers := set_insert e (m_timers L)\<rparr>"
  have "entry_ok ?L e" using e(1) by (simp add: entry_ok_def)
  then have inv': "tq_inv ?L" by (intro tq_inv_insert[OF inv e(2)]) simp_all
  note ts = entries.ins_ok[of "m_timers L" e]
  have set: "set (m_timers ?L) = insert e (set (m_timers L))"
    using ts inv tq_inv_distinct[OF inv] by (simp add: tq_inv_def)
  show ?thesis
  proof (cases "hd (m_timers ?L) = e")
    case True
    with ok have t: "timerfdSet (fst e) ?L = Inr L'" by (simp add: insertTimer_def Let_def res_iffs)
    from timerfdSet_frame[OF t] obtain x where L': "L' = ?L\<lparr>timerfd_sets := timerfd_sets ?L @ [x]\<rparr>"
      "last_deadline L' = max (fst e) (last_clock L' + 1000000)" "timerfd_sets L' \<noteq> []" by blast
    have "m_timers L' = m_timers ?L" using L'(1) by simp
    with L' True have "armed L'" by (simp add: armed_def)
    moreover have "tq_inv L'" using inv' by (simp add: L'(1) tq_inv_timerfd)
    ultimately show ?thesis using set by (simp add: L'(1))
  next
    case False
    with ok have L': "L' = ?L" by (simp add: insertTimer_def Let_def res_iffs)
    have "m_timers L \<noteq> [] \<and> hd (m_timers ?L) = hd (m_timers L)"
      using False e(2) by (cases "m_timers L") (auto simp: set_insert_def split: if_splits)
    then have "armed L \<longrightarrow> armed ?L" by (simp add: armed_def last_deadline_def last_clock_def)
    with inv' set L' show ?thesis by simp
  qed
qed

lemma hd_filter_ge:
  "sorted xs \<Longrightarrow> filter P xs \<noteq> [] \<Longrightarrow> hd xs \<le> hd (filter P (xs :: 'a :: linorder list))"
proof -
  assume "sorted xs" and ne: "filter P xs \<noteq> []"
  from hd_in_set[OF ne] have "hd (filter P xs) \<in> set xs" by simp
  with \<open>sorted xs\<close> show ?thesis by (cases xs) auto
qed

lemma remove1_entry:
  assumes "tq_inv L" and "timer_heap L p = Some t" "m_when t = w"
  shows "remove1 (w, p) (m_timers L) = filter (\<lambda>e. snd e \<noteq> p) (m_timers L)"
proof -
  have "snd e \<noteq> p \<longleftrightarrow> (w, p) \<noteq> e" if "e \<in> set (m_timers L)" for e
    using tq_inv_entry[OF assms(1) that] assms(2,3) by (cases e) (auto simp: entry_ok_def)
  then have "filter (\<lambda>e. snd e \<noteq> p) (m_timers L) = filter (\<lambda>e. (w, p) \<noteq> e) (m_timers L)"
    by (rule filter_cong[OF refl])
  then show ?thesis
    by (simp add: distinct_remove1_removeAll[OF tq_inv_distinct[OF assms(1)]] removeAll_filter_not_eq)
qed

lemma eraseTimer_ok:
  assumes inv: "tq_inv L" and ok: "eraseTimer p L = Inr L'"
  shows "tq_inv L' \<and> m_timers L' = filter (\<lambda>e. snd e \<noteq> p) (m_timers L)
    \<and> timer_heap L' = (timer_heap L)(p := None) \<and> timerfd_sets L' = timerfd_sets L
    \<and> (armed L \<longrightarrow> armed L')"
proof -
  from ok obtain t where t: "timer_heap L p = Some t" "p \<noteq> 0" "\<not> m_canceled t"
    and L': "L' = L\<lparr>timer_heap := (timer_heap L)(p := None), m_timers := remove1 (m_when t, p) (m_timers L)\<rparr>"
    by (auto simp: eraseTimer_def res_iffs deref_eq_Inr cancel_def delete_timer_def Let_def)
  have ts: "m_timers L' = filter (\<lambda>e. snd e \<noteq> p) (m_timers L)"
    using remove1_entry[OF inv t(1) refl] by (simp add: L')
  have "snd e \<noteq> p" if "e \<in> set (m_timers L')" for e using that by (simp add: ts)
  then have "tq_inv L'" by (intro tq_inv_remove[OF inv ts]) (simp add: L')
  moreover have "armed L'" if "armed L"
  proof -
    have "fst (hd (m_timers L)) \<le> fst (hd (m_timers L'))" if "m_timers L' \<noteq> []"
      using hd_filter_ge[of "m_timers L" "\<lambda>e. snd e \<noteq> p"] that inv ts
      by (auto simp: tq_inv_def less_eq_prod_def)
    moreover have "m_timers L \<noteq> []" if "m_timers L' \<noteq> []" using that ts by auto
    moreover have "last_deadline L' = last_deadline L" "last_clock L' = last_clock L"
      "timerfd_sets L' = timerfd_sets L" by (simp_all add: L' last_deadline_def last_clock_def)
    ultimately show ?thesis using \<open>armed L\<close> by (fastforce simp: armed_def)
  qed
  ultimately show ?thesis using ts by (simp add: L')
qed

subsection \<open>Expiry\<close>

lemma getExpired_ok:
  assumes inv: "tq_inv L" and now: "int64_ok (now + 1)"
  shows "getExpired now L = Inr (filter (\<lambda>e. fst e \<le> now) (m_timers L),
           L\<lparr>m_timers := filter (\<lambda>e. now < fst e) (m_timers L)\<rparr>)"
proof -
  obtain lo rest where sp: "lower_bound (now + 1, 0) (m_timers L) = (lo, rest)" by fastforce
  have lt: "e < (now + 1, 0) \<longleftrightarrow> fst e \<le> now" for e :: entry
    by (cases e) auto
  have ge: "(now + 1, 0) \<le> e \<longleftrightarrow> now < fst e" for e :: entry
    using lt[of e] by (simp add: not_less[symmetric])
  have "lo = filter (\<lambda>e. fst e \<le> now) (m_timers L) \<and> rest = filter (\<lambda>e. now < fst e) (m_timers L)"
    using entries.split_lo_is_filter[OF _ sp] inv tq_inv_distinct[OF inv]
    by (simp add: lt ge tq_inv_def)
  with sp now show ?thesis by (simp add: getExpired_def sz_simps Let_def)
qed

lemma batch_of_expired:
  assumes inv: "tq_inv L"
  shows "tq_inv (L\<lparr>m_timers := filter (\<lambda>e. now < fst e) (m_timers L)\<rparr>)"
    "batch_ok (filter (\<lambda>e. fst e \<le> now) (m_timers L))
       (L\<lparr>m_timers := filter (\<lambda>e. now < fst e) (m_timers L)\<rparr>)"
proof -
  show "tq_inv (L\<lparr>m_timers := filter (\<lambda>e. now < fst e) (m_timers L)\<rparr>)"
    by (rule tq_inv_remove[OF inv]) simp_all
  have dis: "distinct (map snd (m_timers L))" using inv by (simp add: tq_inv_def)
  then have inj: "inj_on snd (set (m_timers L))" by (simp add: distinct_map)
  have "e = e'" if "e \<in> set (m_timers L)" "e' \<in> set (m_timers L)" "snd e = snd e'" for e e'
    using inj_onD[OF inj that(3,1,2)] .
  then have 1: "snd ` {e \<in> set (m_timers L). fst e \<le> now} \<inter> snd ` {e \<in> set (m_timers L). now < fst e} = {}"
    by fastforce
  have 2: "entry_ok (L\<lparr>m_timers := ts\<rparr>) e" if "e \<in> set (m_timers L)" for e ts
    using entry_ok_frame[of "L\<lparr>m_timers := ts\<rparr>" e L] tq_inv_entry[OF inv that] by simp
  show "batch_ok (filter (\<lambda>e. fst e \<le> now) (m_timers L))
       (L\<lparr>m_timers := filter (\<lambda>e. now < fst e) (m_timers L)\<rparr>)"
    using 1 2 distinct_map_filter[OF dis] by (simp add: batch_ok_def)
qed

lemma batch_tail:
  assumes "batch_ok (e # es) L" and "\<And>p. p \<noteq> snd e \<Longrightarrow> timer_heap L' p = timer_heap L p"
    and "snd ` set (m_timers L') \<subseteq> insert (snd e) (snd ` set (m_timers L))"
  shows "batch_ok es L'"
proof -
  have "entry_ok L' e'" if "e' \<in> set es" for e'
  proof -
    have "snd e \<notin> snd ` set es" using assms(1) by (simp add: batch_ok_def)
    with that have "snd e' \<noteq> snd e" by (metis imageI)
    from entry_ok_frame[OF assms(2)[OF this]] assms(1) that show ?thesis by (simp add: batch_ok_def)
  qed
  moreover have "snd ` set es \<inter> insert (snd e) (snd ` set (m_timers L)) = {}" "distinct (map snd es)"
    using assms(1) by (simp_all add: batch_ok_def)
  ultimately show ?thesis using assms(3) unfolding batch_ok_def by blast
qed

text \<open>What happens to the entry at hand once its callback has returned.\<close>

definition settle :: "entry \<Rightarrow> ('u, 'w) event_loop_scheme \<Rightarrow> ('u, 'w) event_loop_scheme res" where
  "settle e L =
     bindR (deref (snd e) L) (\<lambda>t.
     if \<not> m_canceled t \<and> m_repeat t then
       bindR (restart t) (\<lambda>t'.
       Inr (L\<lparr>timer_heap := (timer_heap L)(snd e \<mapsto> t'),
              m_timers := set_insert (m_when t', snd e) (m_timers L)\<rparr>))
     else Inr (delete_timer (snd e) L))"

lemma handleEntry_settle:
  assumes "entry_ok L e" and "fst e \<le> now"
  shows "handleEntry exec now e L = bindR (run_timer exec (the (timer_heap L (snd e))) L) (settle e)"
  using assms entry_ok_deref[OF assms(1)]
  by (auto simp: handleEntry_def settle_def[abs_def] expired_def)

lemma settle_ok:
  assumes inv: "tq_inv L" and batch: "batch_ok (e # es) L" and ok: "settle e L = Inr L'"
  shows "tq_inv L' \<and> batch_ok es L'"
proof -
  have fresh: "snd e \<notin> snd ` set (m_timers L)" and e: "entry_ok L e"
    using batch by (auto simp: batch_ok_def)
  from entry_ok_deref[OF e] obtain t where t: "deref (snd e) L = Inr t" "\<not> m_canceled t" by blast
  show ?thesis
  proof (cases "m_repeat t")
    case True
    with ok t obtain t' where t': "restart t = Inr t'"
      and L': "L' = L\<lparr>timer_heap := (timer_heap L)(snd e \<mapsto> t'),
        m_timers := set_insert (m_when t', snd e) (m_timers L)\<rparr>"
      by (auto simp: settle_def res_iffs)
    have "entry_ok L' (m_when t', snd e)"
      using t t' e by (auto simp: L' entry_ok_def restart_cases)
    then have "tq_inv L'" by (intro tq_inv_insert[OF inv, of "(m_when t', snd e)"]) (simp_all add: L' fresh)
    moreover have "batch_ok es L'"
      by (rule batch_tail[OF batch]) (auto simp: L' set_insert_def set_insort_key split: if_splits)
    ultimately show ?thesis ..
  next
    case False
    with ok t have L': "L' = delete_timer (snd e) L" by (simp add: settle_def)
    have "tq_inv L'"
    proof (rule tq_inv_remove[OF inv, of _ "\<lambda>_. True"])
      show "timer_heap L' (snd x) = timer_heap L (snd x)" if "x \<in> set (m_timers L')" for x
      proof -
        have "x \<in> set (m_timers L)" using that by (simp add: L' delete_timer_def)
        with fresh have "snd x \<noteq> snd e" by (metis imageI)
        then show ?thesis by (simp add: L' delete_timer_def)
      qed
    qed (simp add: L' delete_timer_def)
    moreover have "batch_ok es L'" by (rule batch_tail[OF batch]) (auto simp: L' delete_timer_def)
    ultimately show ?thesis ..
  qed
qed

lemma settle_faults:
  assumes "entry_ok L e" and "settle e L = Inl f"
  shows "f = SignedOverflow"
  using assms entry_ok_deref[OF assms(1)]
  by (auto simp: settle_def bindR_eq_Inl restart_def assertR_eq_Inl int64_def split: if_splits)

text \<open>
  What the queue needs from a closure run by a timer: it may add timers and cancel timers
  that are in the set, but it must leave the timers of the batch being handled alone (they
  are not in the set any more).
\<close>

locale timer_client =
  fixes exec :: "'u \<Rightarrow> ('u, 'w) event_loop_scheme \<Rightarrow> ('u, 'w) event_loop_scheme res"
    and allowed :: "fault \<Rightarrow> bool"
  assumes exec_keeps: "tq_inv L \<Longrightarrow> batch_ok es L \<Longrightarrow> exec u L = Inr L' \<Longrightarrow> tq_inv L' \<and> batch_ok es L'"
    and exec_faults: "tq_inv L \<Longrightarrow> batch_ok es L \<Longrightarrow> exec u L = Inl f \<Longrightarrow> allowed f"
begin

lemma run_timer_keeps:
  "tq_inv L \<Longrightarrow> batch_ok es L \<Longrightarrow> run_timer exec t L = Inr L' \<Longrightarrow> tq_inv L' \<and> batch_ok es L'"
  by (auto simp: run_timer_def dest: exec_keeps split: option.splits)

lemma handleEntry_keeps:
  assumes "tq_inv L" and b: "batch_ok (e # es) L" and now: "fst e \<le> now"
    and ok: "handleEntry exec now e L = Inr L'"
  shows "tq_inv L' \<and> batch_ok es L'"
proof -
  have "entry_ok L e" using b by (simp add: batch_ok_def)
  from ok[unfolded handleEntry_settle[OF this now, of exec]] obtain L1 where
    "run_timer exec (the (timer_heap L (snd e))) L = Inr L1" "settle e L1 = Inr L'"
    unfolding bindR_eq_Inr by blast
  with run_timer_keeps[OF assms(1) b] settle_ok show ?thesis by blast
qed

lemma handleEntry_faults:
  assumes "tq_inv L" and b: "batch_ok (e # es) L" and now: "fst e \<le> now"
    and f: "handleEntry exec now e L = Inl f"
  shows "f = SignedOverflow \<or> allowed f"
proof -
  have "entry_ok L e" using b by (simp add: batch_ok_def)
  from f[unfolded handleEntry_settle[OF this now, of exec]]
  consider "run_timer exec (the (timer_heap L (snd e))) L = Inl f"
    | L1 where "run_timer exec (the (timer_heap L (snd e))) L = Inr L1" "settle e L1 = Inl f"
    unfolding bindR_eq_Inl by blast
  then show ?thesis
  proof cases
    case 1
    then show ?thesis using exec_faults[OF assms(1) b] by (auto simp: run_timer_def split: option.splits)
  next
    case 2
    then have "batch_ok (e # es) L1" using run_timer_keeps[OF assms(1) b] by blast
    then have "entry_ok L1 e" by (simp add: batch_ok_def)
    from settle_faults[OF this 2(2)] show ?thesis ..
  qed
qed

lemma batch_keeps:
  assumes "tq_inv L" and "batch_ok es L" and "\<forall>e \<in> set es. fst e \<le> now"
  shows "case run_all (map (handleEntry exec now) es) L of
      Inr L' \<Rightarrow> tq_inv L'
    | Inl f \<Rightarrow> f = SignedOverflow \<or> allowed f"
  using assms
proof (induction es arbitrary: L)
  case (Cons e es)
  then show ?case
    using handleEntry_keeps[of L e es now] handleEntry_faults[of L e es now]
    by (cases "handleEntry exec now e L") auto
qed simp

lemma handleRead_timer_keeps:
  assumes inv: "tq_inv L"
  shows "case handleRead_timer exec (m_tid L) L of
      Inr L' \<Rightarrow> tq_inv L' \<and> armed L'
    | Inl f \<Rightarrow> f = SignedOverflow \<or> allowed f"
proof (cases "int64_ok (clock_now L + 1)")
  case False
  then show ?thesis by (simp add: handleRead_timer_def getExpired_def int64_def Let_def)
next
  case True
  let ?D = "filter (\<lambda>e. fst e \<le> clock_now L) (m_timers L)"
    and ?L0 = "L\<lparr>m_timers := filter (\<lambda>e. clock_now L < fst e) (m_timers L)\<rparr>"
  have step: "case run_all (map (handleEntry exec (clock_now L)) ?D) ?L0 of Inr L' \<Rightarrow> tq_inv L'
      | Inl f \<Rightarrow> f = SignedOverflow \<or> allowed f"
    by (rule batch_keeps[OF batch_of_expired[OF inv]]) simp
  have eq: "handleRead_timer exec (m_tid L) L =
    bindR (run_all (map (handleEntry exec (clock_now L)) ?D) ?L0) (\<lambda>L.
      if m_timers L \<noteq> [] then timerfdSet (fst (hd (m_timers L))) L else Inr L)"
    by (simp add: handleRead_timer_def getExpired_ok[OF inv True] Let_def)
  show ?thesis
  proof (cases "run_all (map (handleEntry exec (clock_now L)) ?D) ?L0")
    case (Inl f)
    with step show ?thesis by (simp add: eq)
  next
    case (Inr L1)
    with step have inv1: "tq_inv L1" by simp
    show ?thesis
    proof (cases "m_timers L1 = []")
      case True
      with inv1 Inr show ?thesis by (simp add: eq armed_def)
    next
      case False
      show ?thesis
      proof (cases "timerfdSet (fst (hd (m_timers L1))) L1")
        case (Inl f)
        then have "f = SignedOverflow"
          by (auto simp: timerfdSet_def durationFromNow_def bindR_eq_Inl int64_def Let_def split: if_splits)
        with Inl Inr False show ?thesis by (simp add: eq)
      next
        case (Inr L2)
        from timerfdSet_frame[OF Inr] obtain x where
          L2: "L2 = L1\<lparr>timerfd_sets := timerfd_sets L1 @ [x]\<rparr>" "timerfd_sets L2 \<noteq> []"
            "last_deadline L2 = max (fst (hd (m_timers L1))) (last_clock L2 + 1000000)" by blast
        have "m_timers L2 = m_timers L1" by (simp add: L2(1))
        with L2 have "armed L2" by (simp add: armed_def)
        moreover have "tq_inv L2" using inv1 by (simp add: L2(1) tq_inv_timerfd)
        moreover have "handleRead_timer exec (m_tid L) L = Inr L2"
          using \<open>run_all _ _ = Inr L1\<close> False Inr by (simp add: eq)
        ultimately show ?thesis by simp
      qed
    qed
  qed
qed

end

section \<open>What an expiry keeps\<close>

text \<open>
  A statement about the loop that every closure of a timer keeps, and that does not depend on
  the timers themselves, is kept by an expiry.
\<close>

locale timer_frame =
  fixes exec :: "'u \<Rightarrow> ('u, 'w) event_loop_scheme \<Rightarrow> ('u, 'w) event_loop_scheme res"
    and Q :: "('u, 'w) event_loop_scheme \<Rightarrow> bool"
  assumes exec_Q: "Q M \<Longrightarrow> exec u M = Inr M' \<Longrightarrow> Q M'"
    and timers_Q: "Q M \<Longrightarrow> Q (M\<lparr>timer_heap := h, m_timers := ts, timerfd_sets := x\<rparr>)"
begin

lemma run_timer_Q: "run_timer exec t M = Inr M' \<Longrightarrow> Q M \<Longrightarrow> Q M'"
  using exec_Q by (auto simp: run_timer_def split: option.splits)

lemma settle_Q: "settle e M = Inr M' \<Longrightarrow> Q M \<Longrightarrow> Q M'"
proof -
  assume h: "settle e M = Inr M'" and q: "Q M"
  from h obtain t where "(if \<not> m_canceled t \<and> m_repeat t
      then bindR (restart t) (\<lambda>t'. Inr (M\<lparr>timer_heap := (timer_heap M)(snd e \<mapsto> t'),
          m_timers := set_insert (m_when t', snd e) (m_timers M)\<rparr>))
      else Inr (delete_timer (snd e) M)) = Inr M'"
    unfolding settle_def bindR_eq_Inr by blast
  then have "M' = M\<lparr>timer_heap := timer_heap M', m_timers := m_timers M', timerfd_sets := timerfd_sets M\<rparr>"
    by (auto simp: bindR_eq_Inr delete_timer_def split: if_splits)
  with timers_Q[OF q] show ?thesis by metis
qed

lemma handleRead_timer_Q:
  assumes h: "handleRead_timer exec g L = Inr L'" and q: "Q L"
  shows "Q L'"
proof -
  have entry: "Q M'" if "handleEntry exec now e M = Inr M'" "Q M" for now e M M'
  proof -
    have "handleEntry exec now e M = bindR (deref (snd e) M) (\<lambda>t. assertR (expired t now) ''timer->expired(now)''
        (bindR (if \<not> m_canceled t then run_timer exec t M else Inr M) (settle e)))"
      by (simp add: handleEntry_def settle_def[abs_def])
    from bindR_InrE[OF this[symmetric, THEN trans, OF that(1)]] obtain t where
      "assertR (expired t now) ''timer->expired(now)''
        (bindR (if \<not> m_canceled t then run_timer exec t M else Inr M) (settle e)) = Inr M'" .
    then have "bindR (if \<not> m_canceled t then run_timer exec t M else Inr M) (settle e) = Inr M'"
      by (simp add: assertR_eq_Inr)
    from bindR_InrE[OF this] obtain M1 where
      "(if \<not> m_canceled t then run_timer exec t M else Inr M) = Inr M1" "settle e M1 = Inr M'" .
    then have "M1 = M \<or> (\<exists>t. run_timer exec t M = Inr M1)" "settle e M1 = Inr M'" by (auto split: if_splits)
    with that(2) run_timer_Q settle_Q show ?thesis by blast
  qed
  have batch: "Q M'" if "run_all (map (handleEntry exec now) es) M = Inr M'" "Q M" for now es M M'
    using that by (induction es arbitrary: M) (auto simp: bindR_eq_Inr intro: entry)
  from h obtain ts es L1 where r: "run_all (map (handleEntry exec (clock_now L)) es) (L\<lparr>m_timers := ts\<rparr>) = Inr L1"
    and fd: "(if m_timers L1 \<noteq> [] then timerfdSet (fst (hd (m_timers L1))) L1 else Inr L1) = Inr L'"
    by (auto simp: handleRead_timer_def getExpired_def Let_def bindR_eq_Inr assertInLoopThread_eq_Inr case_prod_beta)
  have "Q (L\<lparr>m_timers := ts\<rparr>)"
    using timers_Q[OF q, where h = "timer_heap L" and ts = ts and x = "timerfd_sets L"] by simp
  from batch[OF r this] have q1: "Q L1" .
  show ?thesis
  proof (cases "m_timers L1 = []")
    case False
    with fd timerfdSet_frame obtain x where "L' = L1\<lparr>timerfd_sets := x\<rparr>" by fastforce
    with timers_Q[OF q1, where h = "timer_heap L1" and ts = "m_timers L1" and x = x] show ?thesis by simp
  qed (use fd q1 in simp)
qed

end

section \<open>Closures that leave the timers alone\<close>

text \<open>
  \<open>ticking p cb i es L\<close>: the timer at \<open>p\<close> repeats with the interval \<open>i\<close>, and it is in the
  set or in the batch \<open>es\<close> being handled. When no closure touches a timer, an expiry keeps
  every repeating timer ticking.
\<close>

definition ticking :: "addr \<Rightarrow> 'u option \<Rightarrow> nanoseconds \<Rightarrow> entry list \<Rightarrow> ('u, 'w) event_loop_scheme \<Rightarrow> bool" where
  "ticking p cb i es L \<longleftrightarrow> p \<in> snd ` (set es \<union> set (m_timers L))
     \<and> (\<exists>t. timer_heap L p = Some t \<and> m_callback t = cb \<and> m_interval t = i \<and> m_repeat t)"

locale quiet_client = timer_frame exec Q
  for exec :: "'u \<Rightarrow> ('u, 'w) event_loop_scheme \<Rightarrow> ('u, 'w) event_loop_scheme res" and Q +
  assumes exec_quiet: "exec u M = Inr M' \<Longrightarrow> m_timers M' = m_timers M \<and> timer_heap M' = timer_heap M"

sublocale quiet_client \<subseteq> timer_client exec "\<lambda>_. True"
  using exec_quiet by unfold_locales (auto simp: tq_inv_def batch_ok_def entry_ok_def)

context quiet_client
begin

lemma run_timer_quiet:
  assumes "run_timer exec t M = Inr M'"
  shows "m_timers M' = m_timers M \<and> timer_heap M' = timer_heap M"
  using assms exec_quiet by (auto simp: run_timer_def split: option.splits)

lemma settle_ticking:
  assumes "settle e M = Inr M'" and "ticking p cb i (e # es) M" and e: "entry_ok M e"
  shows "ticking p cb i es M'"
proof -
  from assms(2) obtain t where t: "timer_heap M p = Some t" "m_callback t = cb" "m_interval t = i" "m_repeat t"
    and at: "p \<in> insert (snd e) (snd ` (set es \<union> set (m_timers M)))" by (auto simp: ticking_def)
  show ?thesis
  proof (cases "snd e = p")
    case True
    with e t have "deref p M = Inr t" "\<not> m_canceled t" by (auto simp: entry_ok_def deref_eq_Inr)
    with assms(1) t(4) True obtain t' where "restart t = Inr t'" and M': "M' = M\<lparr>timer_heap := (timer_heap M)(p \<mapsto> t'),
        m_timers := set_insert (m_when t', p) (m_timers M)\<rparr>"
      by (auto simp: settle_def bindR_eq_Inr)
    then have "t' = t\<lparr>m_when := m_when t'\<rparr>" by (auto simp: restart_cases)
    with t have "m_callback t' = cb \<and> m_interval t' = i \<and> m_repeat t'" by (metis timer.select_convs timer.update_convs(2) timer.surjective)
    moreover have "(m_when t', p) \<in> set (m_timers M')" by (auto simp: M' set_insert_def set_insort_key)
    ultimately show ?thesis by (force simp: ticking_def M')
  next
    case False
    from assms(1) e obtain x where x: "M' = delete_timer (snd e) M \<or> (\<exists>t'. M' = M\<lparr>timer_heap := (timer_heap M)(snd e \<mapsto> t'),
        m_timers := set_insert (m_when t', snd e) (m_timers M)\<rparr>)"
      by (auto simp: settle_def bindR_eq_Inr split: if_splits)
    then have "timer_heap M' p = timer_heap M p" "set (m_timers M) \<subseteq> set (m_timers M')"
      using False by (auto simp: delete_timer_def set_insert_def set_insort_key)
    with t at False show ?thesis by (auto simp: ticking_def)
  qed
qed

lemma handleEntry_ticking:
  assumes b: "batch_ok (e # es) L" and now: "fst e \<le> now" and h: "handleEntry exec now e L = Inr L'"
    and t: "ticking p cb i (e # es) L"
  shows "ticking p cb i es L'"
proof -
  have e: "entry_ok L e" using b by (simp add: batch_ok_def)
  from h[unfolded handleEntry_settle[OF e now, of exec]] obtain L1 where
    r: "run_timer exec (the (timer_heap L (snd e))) L = Inr L1" and s: "settle e L1 = Inr L'"
    unfolding bindR_eq_Inr by blast
  note q = run_timer_quiet[OF r]
  have "entry_ok L1 e" "ticking p cb i (e # es) L1" using e t q by (simp_all add: entry_ok_def ticking_def)
  with settle_ticking[OF s] show ?thesis by blast
qed

lemma batch_ticking:
  assumes "tq_inv L" and "batch_ok es L" and "\<forall>e \<in> set es. fst e \<le> now" and "run_all (map (handleEntry exec now) es) L = Inr L'"
    and "ticking p cb i es L"
  shows "ticking p cb i [] L'"
  using assms
proof (induction es arbitrary: L)
  case (Cons e es)
  then obtain L1 where L1: "handleEntry exec now e L = Inr L1" "run_all (map (handleEntry exec now) es) L1 = Inr L'"
    by (auto simp: bindR_eq_Inr)
  have now: "fst e \<le> now" using Cons.prems(3) by simp
  from handleEntry_keeps[OF Cons.prems(1,2) now L1(1)] have "tq_inv L1" "batch_ok es L1" by simp_all
  from Cons.IH[OF this _ L1(2)] Cons.prems(3,5) handleEntry_ticking[OF Cons.prems(2) now L1(1)] show ?case by simp
qed simp

lemma handleRead_timer_ticking:
  assumes inv: "tq_inv L" and h: "handleRead_timer exec (m_tid L) L = Inr L'" and t: "ticking p cb i [] L"
  shows "tq_inv L' \<and> armed L' \<and> ticking p cb i [] L'"
proof -
  let ?D = "filter (\<lambda>e. fst e \<le> clock_now L) (m_timers L)"
    and ?L0 = "L\<lparr>m_timers := filter (\<lambda>e. clock_now L < fst e) (m_timers L)\<rparr>"
  have now: "int64_ok (clock_now L + 1)"
    using h by (auto simp: handleRead_timer_def getExpired_def int64_def Let_def split: if_splits)
  from h obtain L1 where r: "run_all (map (handleEntry exec (clock_now L)) ?D) ?L0 = Inr L1"
    and fd: "(if m_timers L1 \<noteq> [] then timerfdSet (fst (hd (m_timers L1))) L1 else Inr L1) = Inr L'"
    by (auto simp: handleRead_timer_def getExpired_ok[OF inv now] Let_def bindR_eq_Inr)
  have "\<forall>e \<in> set ?D. fst e \<le> clock_now L" by simp
  moreover have "ticking p cb i ?D ?L0" using t by (auto simp: ticking_def image_iff)
  ultimately have 1: "ticking p cb i [] L1" using batch_ticking[OF batch_of_expired[OF inv] _ r] by blast
  have "ticking p cb i [] L'"
  proof (cases "m_timers L1 = []")
    case False
    with fd timerfdSet_frame obtain x where "L' = L1\<lparr>timerfd_sets := x\<rparr>" by fastforce
    with 1 show ?thesis by (simp add: ticking_def)
  qed (use fd 1 in simp)
  with handleRead_timer_keeps[OF inv] h show ?thesis by simp
qed

end

section \<open>Clients that use timers\<close>

text \<open>
  A client's closure is a list of calls of the loop's timer functions, made in the loop
  thread: new timers, at addresses \<^verbatim>\<open>new\<close> may return (an address in use is skipped), and
  cancellations of timers that are waiting in the set (another pointer is skipped: the
  lemma \<open>self_cancel_is_use_after_free\<close> shows what it would do). \<open>m\<close> is the extension,
  where the closures note that they ran.
\<close>

datatype 'u timer_call = NewTimer addr "'u option" time_point nanoseconds | CancelTimer addr

definition waiting :: "('u, 'w) event_loop_scheme \<Rightarrow> addr \<Rightarrow> bool" where
  "waiting L p \<longleftrightarrow> p \<in> snd ` set (m_timers L)"

fun call_timer :: "'u timer_call \<Rightarrow> ('u, 'w) event_loop_scheme \<Rightarrow> ('u, 'w) event_loop_scheme res" where
  "call_timer (NewTimer p cb when interval) L =
     (if p = 0 \<or> timer_heap L p \<noteq> None then Inr L
      else bindR (addTimer (\<lambda>_. Inr) (m_tid L) p cb when interval L) (\<lambda>(_, L). Inr L))"
| "call_timer (CancelTimer p) L =
     (if waiting L p then cancelTimer (\<lambda>_. Inr) (m_tid L) p L else Inr L)"

definition scripted :: "('u \<Rightarrow> 'u timer_call list) \<Rightarrow> 'u
    \<Rightarrow> ('u, 'u list) event_loop_scheme \<Rightarrow> ('u, 'u list) event_loop_scheme res" where
  "scripted script u L =
     run_all (map call_timer (script u)) (L\<lparr>event_loop.more := event_loop.more L @ [u]\<rparr>)"

lemma timer_call_new:
  assumes inv: "tq_inv L" and b: "batch_ok es L" and p: "p \<noteq> 0" "timer_heap L p = None"
  shows "case call_timer (NewTimer p cb when interval) L of
      Inr L' \<Rightarrow> tq_inv L' \<and> batch_ok es L' \<and> (armed L \<longrightarrow> armed L')
    | Inl f \<Rightarrow> f = SignedOverflow"
proof -
  let ?L = "L\<lparr>timer_heap := (timer_heap L)(p \<mapsto> new_Timer cb when interval)\<rparr>"
  have np: "snd e \<noteq> p" if "entry_ok L e" for e using that p by (auto simp: entry_ok_def)
  have frame: "entry_ok ?L e" if "entry_ok L e" for e
    using entry_ok_frame[of ?L e L] np[OF that] that by simp
  have inv': "tq_inv ?L" using inv frame by (simp add: tq_inv_def)
  have e: "entry_ok ?L (when, p)" using p by (simp add: entry_ok_def new_Timer_def)
  have fresh: "p \<notin> snd ` set (m_timers L)" using tq_inv_entry[OF inv] np by fastforce
  have armed: "armed ?L = armed L" by (simp add: armed_def last_deadline_def last_clock_def)
  have run: "call_timer (NewTimer p cb when interval) L = insertTimer (when, p) ?L"
    using p by (simp add: addTimer_def runInLoop_def isInLoopThread_def Let_def)
  show ?thesis
  proof (cases "insertTimer (when, p) ?L")
    case (Inl f)
    moreover have "(when, p) \<notin> set (m_timers L)" using fresh by force
    ultimately have "f = SignedOverflow"
      by (auto simp: insertTimer_def timerfdSet_def durationFromNow_def bindR_eq_Inl int64_def Let_def
          split: if_splits)
    with Inl run show ?thesis by simp
  next
    case (Inr L')
    from insertTimer_ok[OF inv' e _ Inr] fresh have L': "tq_inv L'" "timer_heap L' = timer_heap ?L"
      "set (m_timers L') = insert (when, p) (set (m_timers L))" "armed L \<longrightarrow> armed L'"
      by (simp_all add: armed)
    have "batch_ok es L'"
    proof -
      have "entry_ok L' x" "snd x \<noteq> p" if "x \<in> set es" for x
        using b that frame[of x] np[of x] entry_ok_frame[of L' x ?L] L'(2) by (simp_all add: batch_ok_def)
      then show ?thesis using b L'(3) by (auto simp: batch_ok_def)
    qed
    with L' Inr run show ?thesis by simp
  qed
qed

lemma timer_call_cancel:
  assumes inv: "tq_inv L" and b: "batch_ok es L" and w: "waiting L p"
  shows "case call_timer (CancelTimer p) L of
      Inr L' \<Rightarrow> tq_inv L' \<and> batch_ok es L' \<and> (armed L \<longrightarrow> armed L')
    | Inl f \<Rightarrow> f = SignedOverflow"
proof -
  have run: "call_timer (CancelTimer p) L = eraseTimer p L"
    using w by (simp add: cancelTimer_def runInLoop_def isInLoopThread_def)
  from w obtain e where e: "e \<in> set (m_timers L)" "p = snd e" by (auto simp: waiting_def)
  from entry_ok_deref[OF tq_inv_entry[OF inv e(1)]] obtain t where
    t: "deref p L = Inr t" "\<not> m_canceled t" by (auto simp: e(2))
  then obtain L' where L': "eraseTimer p L = Inr L'" by (simp add: eraseTimer_def cancel_def Let_def)
  from eraseTimer_ok[OF inv L'] have ok: "tq_inv L'" "m_timers L' = filter (\<lambda>e. snd e \<noteq> p) (m_timers L)"
    "timer_heap L' = (timer_heap L)(p := None)" "armed L \<longrightarrow> armed L'" by simp_all
  have "batch_ok es L'"
  proof -
    have "entry_ok L' x" if x: "x \<in> set es" for x
    proof -
      have "snd x \<noteq> p" using b x w by (auto simp: batch_ok_def waiting_def)
      then show ?thesis using b x entry_ok_frame[of L' x L] ok(3) by (simp add: batch_ok_def)
    qed
    moreover have "snd ` set (m_timers L') \<subseteq> snd ` set (m_timers L)" using ok(2) by auto
    ultimately show ?thesis using b unfolding batch_ok_def by blast
  qed
  with ok L' run show ?thesis by simp
qed

lemma timer_call_keeps:
  assumes "tq_inv L" and "batch_ok es L"
  shows "case call_timer c L of
      Inr L' \<Rightarrow> tq_inv L' \<and> batch_ok es L' \<and> (armed L \<longrightarrow> armed L')
    | Inl f \<Rightarrow> f = SignedOverflow"
proof (cases c)
  case (NewTimer p cb w i)
  then show ?thesis using timer_call_new[OF assms, of p cb w i] assms
    by (cases "p = 0 \<or> timer_heap L p \<noteq> None") auto
next
  case (CancelTimer p)
  then show ?thesis using timer_call_cancel[OF assms, of p] assms by (cases "waiting L p") auto
qed

lemma timer_calls_keep:
  assumes "tq_inv L" and "batch_ok es L"
  shows "case run_all (map call_timer cs) L of
      Inr L' \<Rightarrow> tq_inv L' \<and> batch_ok es L' \<and> (armed L \<longrightarrow> armed L')
    | Inl f \<Rightarrow> f = SignedOverflow"
  using assms
proof (induction cs arbitrary: L)
  case (Cons c cs)
  show ?case
  proof (cases "call_timer c L")
    case (Inl f)
    with timer_call_keeps[OF Cons.prems, of c] show ?thesis by simp
  next
    case (Inr L1)
    with timer_call_keeps[OF Cons.prems, of c] have L1: "tq_inv L1" "batch_ok es L1" "armed L \<longrightarrow> armed L1"
      by simp_all
    from Cons.IH[OF L1(1,2)] L1(3) Inr show ?thesis by (auto split: sum.splits)
  qed
qed simp

lemma note_frame:
  "tq_inv (L\<lparr>event_loop.more := m\<rparr>) = tq_inv L" "batch_ok es (L\<lparr>event_loop.more := m\<rparr>) = batch_ok es L"
  by (simp_all add: tq_inv_def batch_ok_def entry_ok_def)

interpretation scripted: timer_client "scripted script" "\<lambda>f. f = SignedOverflow"
proof
  fix L :: "('a, 'a list) event_loop_scheme" and es u L' f
  assume "tq_inv L" and "batch_ok es L"
  note k = timer_calls_keep[of "L\<lparr>event_loop.more := event_loop.more L @ [u]\<rparr>" es "script u",
      unfolded note_frame, OF this]
  show "tq_inv L' \<and> batch_ok es L'" if "scripted script u L = Inr L'"
    using k that by (simp add: scripted_def)
  show "f = SignedOverflow" if "scripted script u L = Inl f"
    using k that by (simp add: scripted_def)
qed

section \<open>What an expiry does\<close>

text \<open>
  For closures that leave the timers alone, the outcome of one expiry in closed form: the
  successor of each due timer (none for a one-shot timer), the entries of the renewed ones,
  and the closures run. Such a closure neither looks at the set of entries, the timers and the
  timer descriptor nor changes them, and it takes no time; it may do anything else, and fail.
\<close>

definition next_timer :: "'u timer \<Rightarrow> 'u timer option" where
  "next_timer t = (if m_repeat t then Some (t\<lparr>m_when := m_when t + m_interval t\<rparr>) else None)"

definition closure_of :: "(addr \<rightharpoonup> 'u timer) \<Rightarrow> entry \<Rightarrow> 'u list" where
  "closure_of h e = (case h (snd e) of None \<Rightarrow> []
     | Some t \<Rightarrow> (case m_callback t of None \<Rightarrow> [] | Some u \<Rightarrow> [u]))"

definition renewed :: "(addr \<rightharpoonup> 'u timer) \<Rightarrow> entry \<Rightarrow> entry set" where
  "renewed h e = (case h (snd e) of None \<Rightarrow> {}
     | Some t \<Rightarrow> if m_repeat t then {(fst e + m_interval t, snd e)} else {})"

definition renewable :: "(addr \<rightharpoonup> 'u timer) \<Rightarrow> entry \<Rightarrow> bool" where
  "renewable h e \<longleftrightarrow> (case h (snd e) of None \<Rightarrow> False
     | Some t \<Rightarrow> m_repeat t \<longrightarrow> int64_ok (fst e + m_interval t))"

definition leaves_timers_alone ::
  "('u \<Rightarrow> ('u, 'w) event_loop_scheme \<Rightarrow> ('u, 'w) event_loop_scheme res) \<Rightarrow> bool" where
  "leaves_timers_alone exec \<longleftrightarrow>
     (\<forall>u M ts h x. exec u (M\<lparr>m_timers := ts, timer_heap := h, timerfd_sets := x\<rparr>)
        = bindR (exec u M) (\<lambda>M'. Inr (M'\<lparr>m_timers := ts, timer_heap := h, timerfd_sets := x\<rparr>)))
     \<and> (\<forall>u M M'. exec u M = Inr M' \<longrightarrow> clock_now M' = clock_now M)"

lemma alone_exec:
  assumes "leaves_timers_alone exec" and "exec u M = Inr M'"
  shows "m_timers M' = m_timers M" "timer_heap M' = timer_heap M" "timerfd_sets M' = timerfd_sets M"
    "clock_now M' = clock_now M"
proof -
  have "M = M\<lparr>m_timers := m_timers M, timer_heap := timer_heap M, timerfd_sets := timerfd_sets M\<rparr>" by simp
  then have "exec u M = bindR (exec u M) (\<lambda>M'. Inr (M'\<lparr>m_timers := m_timers M, timer_heap := timer_heap M,
      timerfd_sets := timerfd_sets M\<rparr>))"
    using assms(1) unfolding leaves_timers_alone_def by metis
  then have M': "M' = M'\<lparr>m_timers := m_timers M, timer_heap := timer_heap M, timerfd_sets := timerfd_sets M\<rparr>"
    using assms(2) by simp
  show "m_timers M' = m_timers M" by (subst M') simp
  show "timer_heap M' = timer_heap M" by (subst M') simp
  show "timerfd_sets M' = timerfd_sets M" by (subst M') simp
  show "clock_now M' = clock_now M" using assms unfolding leaves_timers_alone_def by blast
qed

lemma alone_run_all:
  assumes "leaves_timers_alone exec" and "run_all (map exec us) M = Inr M'"
  shows "m_timers M' = m_timers M \<and> timer_heap M' = timer_heap M \<and> timerfd_sets M' = timerfd_sets M
    \<and> clock_now M' = clock_now M"
  using assms(2)
proof (induction us arbitrary: M)
  case (Cons u us)
  then obtain M1 where "exec u M = Inr M1" "run_all (map exec us) M1 = Inr M'" by (auto simp: bindR_eq_Inr)
  with Cons.IH alone_exec[OF assms(1)] show ?case by metis
qed simp

lemma alone_update:
  assumes "leaves_timers_alone exec"
  shows "run_all (map exec us) (M\<lparr>m_timers := ts, timer_heap := h\<rparr>)
    = bindR (run_all (map exec us) M) (\<lambda>M'. Inr (M'\<lparr>m_timers := ts, timer_heap := h\<rparr>))"
proof (induction us arbitrary: M)
  case (Cons u us)
  have "M\<lparr>m_timers := ts, timer_heap := h\<rparr> = M\<lparr>m_timers := ts, timer_heap := h, timerfd_sets := timerfd_sets M\<rparr>" by simp
  then have e: "exec u (M\<lparr>m_timers := ts, timer_heap := h\<rparr>)
      = bindR (exec u M) (\<lambda>M'. Inr (M'\<lparr>m_timers := ts, timer_heap := h, timerfd_sets := timerfd_sets M\<rparr>))"
    using assms unfolding leaves_timers_alone_def by metis
  show ?case
  proof (cases "exec u M")
    case (Inr M1)
    have "timerfd_sets M = timerfd_sets M1" using alone_exec(3)[OF assms Inr] ..
    then have "M1\<lparr>m_timers := ts, timer_heap := h, timerfd_sets := timerfd_sets M\<rparr> = M1\<lparr>m_timers := ts, timer_heap := h\<rparr>"
      by simp
    with Inr e Cons.IH[of M1] show ?thesis by simp
  qed (use e in simp)
qed simp

lemma alone_client: "leaves_timers_alone exec \<Longrightarrow> timer_client exec (\<lambda>_. True)"
proof
  fix L L' :: "('a, 'b) event_loop_scheme" and es u
  assume "leaves_timers_alone exec" "tq_inv L" "batch_ok es L" "exec u L = Inr L'"
  then show "tq_inv L' \<and> batch_ok es L'"
    using alone_exec(1,2)[of exec u L L'] by (simp add: tq_inv_def batch_ok_def entry_ok_def)
qed simp

text \<open>One due entry: its closure, and then what becomes of its timer.\<close>

lemma handleEntry_alone:
  assumes alone: "leaves_timers_alone exec" and e: "entry_ok L e" and "fst e \<le> now" and "renewable (timer_heap L) e"
    and fresh: "snd e \<notin> snd ` set (m_timers L)"
  obtains ts where "handleEntry exec now e L = bindR (run_all (map exec (closure_of (timer_heap L) e)) L)
      (\<lambda>M. Inr (M\<lparr>m_timers := ts, timer_heap := (timer_heap L)(snd e := next_timer (the (timer_heap L (snd e))))\<rparr>))"
    "set ts = renewed (timer_heap L) e \<union> set (m_timers L)"
proof -
  obtain t where t: "timer_heap L (snd e) = Some t" "m_when t = fst e" "\<not> m_canceled t" "snd e \<noteq> 0"
    using entry_ok_deref[OF e] by (auto simp: deref_eq_Inr)
  define ts where "ts = (if m_repeat t then set_insert (fst e + m_interval t, snd e) (m_timers L) else m_timers L)"
  have ne: "(w, snd e) \<notin> set (m_timers L)" for w using fresh by (metis imageI snd_conv)
  have run: "run_timer exec t L = run_all (map exec (closure_of (timer_heap L) e)) L"
    using t(1) by (cases "m_callback t") (simp_all add: run_timer_def closure_of_def)
  have settle: "settle e M = Inr (M\<lparr>m_timers := ts, timer_heap := (timer_heap L)(snd e := next_timer t)\<rparr>)"
    if "run_all (map exec (closure_of (timer_heap L) e)) L = Inr M" for M
  proof -
    have M: "m_timers M = m_timers L" "timer_heap M = timer_heap L" using alone_run_all[OF alone that] by simp_all
    then have "deref (snd e) M = Inr t" using t by (simp add: deref_eq_Inr)
    moreover have "restart t = Inr (t\<lparr>m_when := fst e + m_interval t\<rparr>)" if "m_repeat t"
      using that assms(4) t by (simp add: renewable_def restart_cases)
    ultimately show ?thesis using M t by (simp add: settle_def ts_def next_timer_def delete_timer_def)
  qed
  have "handleEntry exec now e L = bindR (run_all (map exec (closure_of (timer_heap L) e)) L)
      (\<lambda>M. Inr (M\<lparr>m_timers := ts, timer_heap := (timer_heap L)(snd e := next_timer t)\<rparr>))"
    using settle t(1) unfolding handleEntry_settle[OF e assms(3), of exec] run[symmetric] option.sel
    by (cases "run_timer exec t L") simp_all
  moreover have "set ts = renewed (timer_heap L) e \<union> set (m_timers L)"
    using t ne by (auto simp: ts_def renewed_def set_insert_def set_insort_key)
  ultimately show thesis using that t(1) by simp
qed

lemma batch_alone:
  assumes alone: "leaves_timers_alone exec"
    and "tq_inv L" and "batch_ok es L" and "\<forall>e \<in> set es. fst e \<le> now \<and> renewable (timer_heap L) e"
  shows "case run_all (map exec (concat (map (closure_of (timer_heap L)) es))) L of
      Inl f \<Rightarrow> run_all (map (handleEntry exec now) es) L = Inl f
    | Inr M \<Rightarrow> \<exists>ts. run_all (map (handleEntry exec now) es) L = Inr (M\<lparr>m_timers := ts,
          timer_heap := (\<lambda>p. if p \<in> snd ` set es then Option.bind (timer_heap L p) next_timer else timer_heap L p)\<rparr>)
        \<and> set ts = (\<Union>e \<in> set es. renewed (timer_heap L) e) \<union> set (m_timers L)"
  using assms(2-)
proof (induction es arbitrary: L)
  case Nil
  show ?case by (simp add: exI[of _ "m_timers L"])
next
  case (Cons e es)
  have e: "entry_ok L e" "snd e \<notin> snd ` set (m_timers L)" "fst e \<le> now" "renewable (timer_heap L) e"
    "snd e \<notin> snd ` set es"
    using Cons.prems by (simp_all add: batch_ok_def)
  obtain t where t: "timer_heap L (snd e) = Some t" using entry_ok_deref[OF e(1)] by blast
  let ?h1 = "(timer_heap L)(snd e := next_timer t)"
  obtain ts1 where h1: "handleEntry exec now e L = bindR (run_all (map exec (closure_of (timer_heap L) e)) L)
      (\<lambda>M. Inr (M\<lparr>m_timers := ts1, timer_heap := ?h1\<rparr>))" "set ts1 = renewed (timer_heap L) e \<union> set (m_timers L)"
    using handleEntry_alone[OF alone e(1,3,4,2)] t by (metis option.sel)
  show ?case
  proof (cases "run_all (map exec (closure_of (timer_heap L) e)) L")
    case (Inl f)
    then show ?thesis using h1(1) by (simp add: run_all_append)
  next
    case (Inr M)
    let ?L1 = "M\<lparr>m_timers := ts1, timer_heap := ?h1\<rparr>"
    have L1: "handleEntry exec now e L = Inr ?L1" using h1(1) Inr by simp
    have inv1: "tq_inv ?L1" "batch_ok es ?L1"
      using timer_client.handleEntry_keeps[OF alone_client[OF alone] Cons.prems(1,2) e(3) L1] by simp_all
    have same: "?h1 (snd x) = timer_heap L (snd x)" if "x \<in> set es" for x
    proof -
      have "snd x \<noteq> snd e" using e(5) that by (metis imageI)
      then show ?thesis by simp
    qed
    have cong: "closure_of ?h1 x = closure_of (timer_heap L) x" "renewed ?h1 x = renewed (timer_heap L) x"
      "renewable ?h1 x = renewable (timer_heap L) x" if "x \<in> set es" for x
      using same[OF that] by (simp_all add: closure_of_def renewed_def renewable_def)
    have "\<forall>x \<in> set es. fst x \<le> now \<and> renewable (timer_heap ?L1) x" using Cons.prems(3) cong(3) by simp
    note IH = Cons.IH[OF inv1 this]
    have L1h: "timer_heap ?L1 = ?h1" "m_timers ?L1 = ts1" by simp_all
    have cl: "map (closure_of ?h1) es = map (closure_of (timer_heap L)) es" using cong(1) by simp
    have un: "(\<Union>e \<in> set es. renewed ?h1 e) = (\<Union>e \<in> set es. renewed (timer_heap L) e)" using cong(2) by simp
    have heap: "(\<lambda>p. if p \<in> snd ` set es then Option.bind (?h1 p) next_timer else ?h1 p)
        = (\<lambda>p. if p \<in> snd ` set (e # es) then Option.bind (timer_heap L p) next_timer else timer_heap L p)"
      using e(5) t by (auto simp: fun_eq_iff)
    let ?h2 = "\<lambda>p. if p \<in> snd ` set (e # es) then Option.bind (timer_heap L p) next_timer else timer_heap L p"
      and ?rest = "concat (map (closure_of (timer_heap L)) es)"
    note IH' = IH[unfolded L1h cl un heap alone_update[OF alone]]
    have all: "run_all (map exec (concat (map (closure_of (timer_heap L)) (e # es)))) L = run_all (map exec ?rest) M"
      using Inr by (simp add: run_all_append)
    have step: "run_all (map (handleEntry exec now) (e # es)) L = run_all (map (handleEntry exec now) es) ?L1"
      using L1 by simp
    show ?thesis
    proof (cases "run_all (map exec ?rest) M")
      case (Inl f)
      with IH' show ?thesis unfolding all step by simp
    next
      case (Inr M2)
      with IH' obtain ts where r: "run_all (map (handleEntry exec now) es) ?L1 = Inr (M2\<lparr>m_timers := ts, timer_heap := ?h2\<rparr>)"
        and ts: "set ts = (\<Union>e \<in> set es. renewed (timer_heap L) e) \<union> set ts1" by auto
      have "set ts = (\<Union>e \<in> set (e # es). renewed (timer_heap L) e) \<union> set (m_timers L)"
        unfolding ts h1(2) by auto
      with r show ?thesis unfolding all step Inr by (simp only: sum.case) blast
    qed
  qed
qed

section \<open>Properties\<close>


text \<open>Closures that only note that they ran leave the timers alone.\<close>

abbreviation noted :: "'u \<Rightarrow> ('u, 'u list) event_loop_scheme \<Rightarrow> ('u, 'u list) event_loop_scheme res" where
  "noted \<equiv> scripted (\<lambda>_. [])"

lemma noted_alone: "leaves_timers_alone noted"
  by (simp add: leaves_timers_alone_def scripted_def)

text \<open>A loop with a repeating timer that is due and a one-shot timer that is not.\<close>

definition two_timers :: "(nat, nat list) event_loop_scheme" where
  "two_timers = \<lparr>m_tid = 1, m_quit = False, m_poller = \<lparr>ep_size = 128, ep_calls = []\<rparr>, m_pendingTasks = [],
     m_wakeupChannel = new_Channel 4, wakeup_count = 0, m_timerChannel = new_Channel 5,
     m_timers = [(100, 8), (200, 16)],
     timer_heap = [8 \<mapsto> new_Timer (Some 7) 100 30, 16 \<mapsto> new_Timer (Some 9) 200 0],
     timerfd_sets = [], clock_now = 150, \<dots> = []\<rparr>"


datatype 'u timer_event = ClientCall "'u timer_call" | Expiry time_point

fun timer_event_exec :: "('u \<Rightarrow> 'u timer_call list) \<Rightarrow> 'u timer_event
    \<Rightarrow> ('u, 'u list) event_loop_scheme \<Rightarrow> ('u, 'u list) event_loop_scheme res" where
  "timer_event_exec script (ClientCall c) L = call_timer c L"
| "timer_event_exec script (Expiry now) L =
     handleRead_timer (scripted script) (m_tid L) (L\<lparr>clock_now := now\<rparr>)"

lemma timer_event_exec_keeps:
  assumes "tq_inv L" and "armed L"
  shows "case timer_event_exec script ev L of Inr L' \<Rightarrow> tq_inv L' \<and> armed L' | Inl f \<Rightarrow> f = SignedOverflow"
proof (cases ev)
  case (ClientCall c)
  have "batch_ok [] L" by (simp add: batch_ok_def)
  from timer_call_keeps[OF assms(1) this, of c] assms(2) ClientCall show ?thesis
    by (auto split: sum.splits)
next
  case (Expiry now)
  have "tq_inv (L\<lparr>clock_now := now\<rparr>)" using assms(1) by (simp add: tq_inv_def entry_ok_def)
  from scripted.handleRead_timer_keeps[OF this, of script] Expiry show ?thesis
    by (auto split: sum.splits)
qed

lemma timer_events_keep:
  assumes "tq_inv L" and "armed L"
  shows "case run_all (map (timer_event_exec script) evs) L of
    Inr L' \<Rightarrow> tq_inv L' \<and> armed L' | Inl f \<Rightarrow> f = SignedOverflow"
  using assms
proof (induction evs arbitrary: L)
  case (Cons ev evs)
  with timer_event_exec_keeps[OF Cons.prems, of script ev] show ?case
    by (cases "timer_event_exec script ev L") auto
qed simp

text \<open>
  C3. The timer queue never touches a freed timer and never sleeps past one: starting from
  an empty queue, through any interleaving of new timers, cancellations of waiting timers and
  expiries at arbitrary clock readings, where closures run by timers add and cancel timers
  themselves, every entry of the set points to a live timer that agrees with it and is not
  cancelled, no timer has two entries, and the descriptor is armed for the earliest entry.
  The only possible fault is a time point out of the range of the clock.
\<close>

theorem timer_queue_safe:
  "case run_all (map (timer_event_exec script) evs) (L\<lparr>m_timers := []\<rparr>) of
     Inr L' \<Rightarrow> tq_inv L' \<and> armed L'
   | Inl f \<Rightarrow> f = SignedOverflow"
  by (rule timer_events_keep) (simp_all add: tq_inv_def armed_def)

text \<open>
  A closure that cancels the timer that is running it makes \<^verbatim>\<open>handleRead\<close> use the timer
  after it was freed: \<^verbatim>\<open>cancelTimer\<close> deletes it at once in the loop thread, and
  \<^verbatim>\<open>handleRead\<close> then asks it whether it is cancelled.
\<close>

lemma self_cancel_is_use_after_free:
  assumes "m_timers L = [(w, p)]" and "entry_ok L (w, p)" and "w \<le> clock_now L"
    and "int64_ok (clock_now L + 1)" and "m_callback (the (timer_heap L p)) = Some u"
  shows "handleRead_timer (\<lambda>u M. cancelTimer ex (m_tid M) p M) (m_tid L) L = Inl UseAfterFree"
proof -
  from entry_ok_deref[OF assms(2)] obtain t where t: "deref p L = Inr t" "timer_heap L p = Some t"
    "m_when t = w" "\<not> m_canceled t" by auto
  have inv: "tq_inv L" using assms(1,2) by (simp add: tq_inv_def)
  let ?L0 = "L\<lparr>m_timers := []\<rparr>"
  have e0: "entry_ok ?L0 (w, p)" using assms(2) by (simp add: entry_ok_def)
  have "deref p ?L0 = Inr t" "p \<noteq> 0" using t by (auto simp: deref_eq_Inr)
  then show ?thesis
    using assms t
    by (simp add: handleRead_timer_def getExpired_ok[OF inv] Let_def handleEntry_settle[OF e0]
        run_timer_def cancelTimer_def runInLoop_def isInLoopThread_def eraseTimer_def cancel_def
        delete_timer_def settle_def deref_def)
qed

lemma self_cancel_is_use_after_free_witness:
  "handleRead_timer (\<lambda>u M. cancelTimer (\<lambda>_. Inr) (m_tid M) 8 M) 1 (two_timers\<lparr>m_timers := [(100, 8)]\<rparr>)
     = Inl UseAfterFree"
  using self_cancel_is_use_after_free[of "two_timers\<lparr>m_timers := [(100, 8)]\<rparr>" 100 8 7 "\<lambda>_. Inr"]
  by (simp add: two_timers_def entry_ok_def new_Timer_def int64_ok_def)

end
