(* ===== verification/Byte_Order.thy ===== *)
theory Byte_Order
  imports Prelude
begin

text \<open>
  What the code uses of \<^verbatim>\<open><endian.h>\<close>, \<^verbatim>\<open>htonl\<close>/\<^verbatim>\<open>htons\<close> and of \<^verbatim>\<open>memcpy\<close>
  between an integer and bytes: the memory image of an \<open>n\<close>-byte word on a little- or
  big-endian host (\<open>le\<close>), the conversions to and from network order, and the fact that
  their combination does not depend on the host.
\<close>

unbundle bit_operations_syntax

section \<open>Words as bytes\<close>

fun le_bytes :: "nat \<Rightarrow> 'a::len word \<Rightarrow> bytes" where
  "le_bytes 0 x = []"
| "le_bytes (Suc n) x = ucast x # le_bytes n (drop_bit 8 x)"

fun of_le_bytes :: "bytes \<Rightarrow> 'a::len word" where
  "of_le_bytes [] = 0"
| "of_le_bytes (b # bs) = ucast b OR push_bit 8 (of_le_bytes bs)"

definition be_bytes :: "nat \<Rightarrow> 'a::len word \<Rightarrow> bytes" where
  "be_bytes n x = rev (le_bytes n x)"

definition of_be_bytes :: "bytes \<Rightarrow> 'a::len word" where
  "of_be_bytes bs = of_le_bytes (rev bs)"

lemma length_le_bytes [simp]: "length (le_bytes n x) = n"
  by (induction n arbitrary: x) simp_all

lemma length_be_bytes [simp]: "length (be_bytes n x) = n"
  by (simp add: be_bytes_def)

lemma of_le_bytes_le_bytes: "of_le_bytes (le_bytes n x) = take_bit (8 * n) x"
proof (induction n arbitrary: x)
  case (Suc n)
  have "(ucast (ucast x :: byte) :: 'a word) OR push_bit 8 (take_bit (8 * n) (drop_bit 8 x))
      = take_bit (8 * Suc n) x"
    by (rule bit_word_eqI) (auto simp: bit_simps not_less)
  then show ?case by (simp add: Suc)
qed simp

lemma le_bytes_of_le_bytes:
  "8 * length bs \<le> LENGTH('a) \<Longrightarrow> le_bytes (length bs) (of_le_bytes bs :: 'a::len word) = bs"
proof (induction bs)
  case (Cons b bs)
  let ?w = "of_le_bytes bs :: 'a word"
  have low: "(ucast (ucast b OR push_bit 8 ?w) :: byte) = b"
    using Cons.prems by (intro bit_word_eqI) (auto simp: bit_simps)
  have "drop_bit 8 (ucast b OR push_bit 8 ?w) = take_bit (LENGTH('a) - 8) ?w"
    by (rule bit_word_eqI) (auto simp: bit_simps dest: bit_imp_le_length)
  also have "le_bytes (length bs) (take_bit (LENGTH('a) - 8) ?w) = le_bytes (length bs) ?w"
  proof -
    have "le_bytes m (take_bit k u) = le_bytes m u" if "8 * m \<le> k" for m k and u :: "'a word"
      using that
    proof (induction m arbitrary: k u)
      case (Suc m)
      have "(ucast (take_bit k u) :: byte) = ucast u"
        using Suc.prems by (intro bit_word_eqI) (auto simp: bit_simps)
      moreover have "drop_bit 8 (take_bit k u) = take_bit (k - 8) (drop_bit 8 u)"
        using Suc.prems by (simp add: drop_bit_take_bit)
      ultimately show ?case using Suc by simp
    qed simp
    then show ?thesis using Cons.prems by simp
  qed
  finally show ?case using low Cons by simp
qed simp

lemma of_be_bytes_be_bytes:
  "LENGTH('a) = 8 * n \<Longrightarrow> of_be_bytes (be_bytes n x) = (x :: 'a::len word)"
  by (simp add: of_be_bytes_def be_bytes_def of_le_bytes_le_bytes take_bit_word_eq_self)

lemma be_bytes_of_be_bytes:
  "LENGTH('a) = 8 * length bs \<Longrightarrow> be_bytes (length bs) (of_be_bytes bs :: 'a::len word) = bs"
  using le_bytes_of_le_bytes[of "rev bs", where 'a = 'a]
  by (simp add: of_be_bytes_def be_bytes_def)

text \<open>
  Network order in terms of numbers: \<open>big_endian n k\<close> are the \<open>n\<close> lowest digits of \<open>k\<close> in base
  256, the most significant one first.
\<close>

definition big_endian :: "nat \<Rightarrow> nat \<Rightarrow> bytes" where
  "big_endian n k = map (\<lambda>i. word_of_nat (k div 256 ^ (n - Suc i))) [0..<n]"

lemma big_endian_simps [simp]:
  "big_endian 0 k = []"
  "big_endian (Suc n) k = word_of_nat (k div 256 ^ n) # big_endian n k"
  unfolding big_endian_def by (simp_all add: map_upt_Suc del: upt_Suc)

lemma big_endian_numeral [simp]:
  "big_endian (numeral v) k = word_of_nat (k div 256 ^ pred_numeral v) # big_endian (pred_numeral v) k"
  by (simp only: numeral_eq_Suc big_endian_simps)

lemma le_bytes_digits: "le_bytes n x = map (\<lambda>i. word_of_nat (unat x div 256 ^ i)) [0..<n]"
proof (induction n arbitrary: x)
  case (Suc n)
  have "unat (drop_bit 8 x) = drop_bit 8 (unat x)" by (rule unat_drop_bit_eq)
  also have "\<dots> = unat x div 256" by (simp add: drop_bit_eq_div)
  finally have "unat (drop_bit 8 x) = unat x div 256" .
  then have "le_bytes n (drop_bit 8 x) = map (\<lambda>i. word_of_nat (unat x div 256 ^ Suc i)) [0..<n]"
    by (simp add: Suc div_mult2_eq)
  moreover have "(ucast x :: byte) = word_of_nat (unat x)" by simp
  ultimately show ?case unfolding le_bytes.simps map_upt_Suc by simp
qed simp

lemma be_bytes_big_endian: "be_bytes n x = big_endian n (unat x)"
  unfolding be_bytes_def big_endian_def le_bytes_digits rev_map[symmetric]
  by (rule nth_equalityI) (simp_all add: rev_nth)

section \<open>Host memory and network order\<close>

text \<open>
  \<open>host_store le n x\<close> is the memory image of \<open>x\<close> on the host, \<open>host_load\<close> the
  integer \<^verbatim>\<open>memcpy\<close> reads back. \<open>hton\<close> is \<^verbatim>\<open>htobe64\<close>, \<^verbatim>\<open>htobe32\<close>, \<^verbatim>\<open>htobe16\<close>,
  \<^verbatim>\<open>htonl\<close> and \<^verbatim>\<open>htons\<close> at their widths: a byte swap on a little-endian host, the
  identity on a big-endian one; \<open>ntoh\<close> is the same function under its other name.
\<close>

definition host_store :: "bool \<Rightarrow> nat \<Rightarrow> 'a::len word \<Rightarrow> bytes" where
  "host_store le n x = (if le then le_bytes n x else be_bytes n x)"

definition host_load :: "bool \<Rightarrow> bytes \<Rightarrow> 'a::len word" where
  "host_load le bs = (if le then of_le_bytes bs else of_be_bytes bs)"

definition hton :: "bool \<Rightarrow> nat \<Rightarrow> 'a::len word \<Rightarrow> 'a word" where
  "hton le n x = (if le then of_be_bytes (le_bytes n x) else x)"

definition ntoh :: "bool \<Rightarrow> nat \<Rightarrow> 'a::len word \<Rightarrow> 'a word" where
  "ntoh le n x = (if le then of_be_bytes (le_bytes n x) else x)"

lemma host_store_hton:
  "LENGTH('a) = 8 * n \<Longrightarrow> host_store le n (hton le n (x :: 'a::len word)) = be_bytes n x"
  using le_bytes_of_le_bytes[of "rev (le_bytes n x)", where 'a = 'a]
  by (auto simp: host_store_def hton_def of_be_bytes_def be_bytes_def)

lemma ntoh_host_load:
  assumes "LENGTH('a) = 8 * length bs"
  shows "ntoh le (length bs) (host_load le bs :: 'a::len word) = of_be_bytes bs"
  using assms le_bytes_of_le_bytes[of bs, where 'a = 'a] by (simp add: ntoh_def host_load_def)

lemma ntoh_hton: "LENGTH('a) = 8 * n \<Longrightarrow> ntoh le n (hton le n (x :: 'a::len word)) = x"
  using le_bytes_of_le_bytes[of "rev (le_bytes n x)", where 'a = 'a]
    of_le_bytes_le_bytes[of n x]
  by (auto simp: ntoh_def hton_def of_be_bytes_def take_bit_word_eq_self)

end
