(* ===== verification/Byte_Buffer.thy ===== *)
theory Byte_Buffer
  imports Byte_Order
begin

text \<open>
  The class \<^verbatim>\<open>Buffer\<close> of \<^verbatim>\<open>src/cppweb/Buffer.hpp\<close> and \<^verbatim>\<open>Buffer.cpp\<close>: one vector with a
  prependable, a readable and a writeable part. Pointers into the vector are indices of it
  (the null pointer is \<open>None\<close>), \<^verbatim>\<open>std::string\<close> and \<^verbatim>\<open>(data, len)\<close> arguments are the
  list of the bytes they denote.
\<close>

section \<open>State and constants\<close>

record buffer =
  m_buffer :: bytes
  m_readerIndex :: nat
  m_writerIndex :: nat

definition kCRLF :: bytes where
  "kCRLF = [13, 10]"

definition kCheapPrepend :: nat where
  "kCheapPrepend = 8"

definition kInitialSize :: nat where
  "kInitialSize = 1024"

definition readableBytes :: "buffer \<Rightarrow> nat" where
  "readableBytes b = size_sub (m_writerIndex b) (m_readerIndex b)"

definition writeableBytes :: "buffer \<Rightarrow> nat" where
  "writeableBytes b = size_sub (length (m_buffer b)) (m_writerIndex b)"

definition prependableBytes :: "buffer \<Rightarrow> nat" where
  "prependableBytes b = m_readerIndex b"

definition peek :: "buffer \<Rightarrow> nat" where
  "peek b = m_readerIndex b"

definition new_Buffer :: "nat \<Rightarrow> buffer res" where
  "new_Buffer initialSize =
     bindR (vec_resize [] (size_add kCheapPrepend initialSize)) (\<lambda>v.
       let b = \<lparr>m_buffer = v, m_readerIndex = kCheapPrepend, m_writerIndex = kCheapPrepend\<rparr> in
       assertR (readableBytes b = 0) ''readableBytes() == 0'' (
       assertR (writeableBytes b = initialSize) ''writeableBytes() == initialSize'' (
       assertR (prependableBytes b = kCheapPrepend) ''prependableBytes() == kCheapPrepend'' (
       Inr b))))"

definition swap_Buffer :: "buffer \<Rightarrow> buffer \<Rightarrow> buffer \<times> buffer" where
  "swap_Buffer b rhs =
     (b\<lparr>m_buffer := m_buffer rhs, m_readerIndex := m_readerIndex rhs,
        m_writerIndex := m_writerIndex rhs\<rparr>,
      rhs\<lparr>m_buffer := m_buffer b, m_readerIndex := m_readerIndex b,
        m_writerIndex := m_writerIndex b\<rparr>)"

section \<open>Searching\<close>

definition findCRLF_from :: "buffer \<Rightarrow> nat \<Rightarrow> nat option res" where
  "findCRLF_from b start =
     assertR (peek b \<le> start) ''peek() <= start'' (
     assertR (start \<le> m_writerIndex b) ''start <= beginWrite'' (
     bindR (vec_read (m_buffer b) start (m_writerIndex b - start)) (\<lambda>range.
       let crlf = start + std_search range kCRLF in
       Inr (if crlf = m_writerIndex b then None else Some crlf))))"

definition findCRLF :: "buffer \<Rightarrow> nat option res" where
  "findCRLF b =
     bindR (vec_read (m_buffer b) (peek b) (m_writerIndex b - peek b)) (\<lambda>range.
       let crlf = peek b + std_search range kCRLF in
       Inr (if crlf = m_writerIndex b then None else Some crlf))"

definition findEOL :: "buffer \<Rightarrow> nat option res" where
  "findEOL b =
     bindR (vec_read (m_buffer b) (peek b) (readableBytes b)) (\<lambda>range.
       Inr (map_option (\<lambda>i. peek b + i) (mem_chr range 10)))"

definition findEOL_from :: "buffer \<Rightarrow> nat \<Rightarrow> nat option res" where
  "findEOL_from b start =
     assertR (peek b \<le> start) ''peek() <= start'' (
     assertR (start \<le> m_writerIndex b) ''start <= beginWrite'' (
     bindR (vec_read (m_buffer b) start (m_writerIndex b - start)) (\<lambda>range.
       Inr (map_option (\<lambda>i. start + i) (mem_chr range 10)))))"

section \<open>Consuming\<close>

definition retrieveAll :: "buffer \<Rightarrow> buffer" where
  "retrieveAll b = b\<lparr>m_readerIndex := kCheapPrepend, m_writerIndex := kCheapPrepend\<rparr>"

definition retrieve :: "buffer \<Rightarrow> nat \<Rightarrow> buffer res" where
  "retrieve b len =
     assertR (len \<le> readableBytes b) ''len <= readableBytes()'' (
     if len < readableBytes b
     then Inr (b\<lparr>m_readerIndex := size_add (m_readerIndex b) len\<rparr>)
     else Inr (retrieveAll b))"

definition retrieveInt64 :: "buffer \<Rightarrow> buffer res" where "retrieveInt64 b = retrieve b 8"
definition retrieveInt32 :: "buffer \<Rightarrow> buffer res" where "retrieveInt32 b = retrieve b 4"
definition retrieveInt16 :: "buffer \<Rightarrow> buffer res" where "retrieveInt16 b = retrieve b 2"
definition retrieveInt8 :: "buffer \<Rightarrow> buffer res" where "retrieveInt8 b = retrieve b 1"

definition retrieveAsString :: "buffer \<Rightarrow> nat \<Rightarrow> (bytes \<times> buffer) res" where
  "retrieveAsString b len =
     assertR (len \<le> readableBytes b) ''len <= readableBytes()'' (
     bindR (vec_read (m_buffer b) (peek b) len) (\<lambda>result.
     bindR (retrieve b len) (\<lambda>b'. Inr (result, b'))))"

definition retrieveAllAsString :: "buffer \<Rightarrow> (bytes \<times> buffer) res" where
  "retrieveAllAsString b = retrieveAsString b (readableBytes b)"

section \<open>Appending\<close>

definition hasWritten :: "buffer \<Rightarrow> nat \<Rightarrow> buffer res" where
  "hasWritten b len =
     assertR (len \<le> writeableBytes b) ''len <= writeableBytes()'' (
     Inr (b\<lparr>m_writerIndex := size_add (m_writerIndex b) len\<rparr>))"

definition makeSpace :: "buffer \<Rightarrow> nat \<Rightarrow> buffer res" where
  "makeSpace b len =
     (if size_sub (size_add (writeableBytes b) (prependableBytes b)) kCheapPrepend < len
      then bindR (vec_resize (m_buffer b) (size_add (m_writerIndex b) len)) (\<lambda>v.
             Inr (b\<lparr>m_buffer := v\<rparr>))
      else
        assertR (kCheapPrepend < m_readerIndex b) ''kCheapPrepend < m_readerIndex'' (
        let readable = readableBytes b in
        bindR (vec_read (m_buffer b) (m_readerIndex b) (m_writerIndex b - m_readerIndex b)) (\<lambda>xs.
        bindR (vec_write (m_buffer b) kCheapPrepend xs) (\<lambda>v.
          Inr (b\<lparr>m_buffer := v, m_readerIndex := kCheapPrepend,
                 m_writerIndex := size_add kCheapPrepend readable\<rparr>)))))"

definition ensureWriteableBytes :: "buffer \<Rightarrow> nat \<Rightarrow> buffer res" where
  "ensureWriteableBytes b len =
     bindR (if writeableBytes b < len then makeSpace b len else Inr b) (\<lambda>b'.
       assertR (writeableBytes b' \<ge> len) ''writeableBytes() >= len'' (Inr b'))"

definition append_Buffer :: "buffer \<Rightarrow> bytes \<Rightarrow> buffer res" where
  "append_Buffer b data =
     bindR (ensureWriteableBytes b (length data)) (\<lambda>b'.
     bindR (vec_write (m_buffer b') (m_writerIndex b') data) (\<lambda>v.
       hasWritten (b'\<lparr>m_buffer := v\<rparr>) (length data)))"

definition appendInt64 :: "bool \<Rightarrow> buffer \<Rightarrow> 64 word \<Rightarrow> buffer res" where
  "appendInt64 le b x = (let be64 = hton le 8 x in append_Buffer b (host_store le 8 be64))"

definition appendInt32 :: "bool \<Rightarrow> buffer \<Rightarrow> 32 word \<Rightarrow> buffer res" where
  "appendInt32 le b x = (let be32 = hton le 4 x in append_Buffer b (host_store le 4 be32))"

definition appendInt16 :: "bool \<Rightarrow> buffer \<Rightarrow> 16 word \<Rightarrow> buffer res" where
  "appendInt16 le b x = (let be16 = hton le 2 x in append_Buffer b (host_store le 2 be16))"

definition appendInt8 :: "buffer \<Rightarrow> 8 word \<Rightarrow> buffer res" where
  "appendInt8 b x = append_Buffer b [x]"

section \<open>Reading integers\<close>

definition peekInt64 :: "bool \<Rightarrow> buffer \<Rightarrow> 64 word res" where
  "peekInt64 le b =
     assertR (readableBytes b \<ge> 8) ''readableBytes() >= sizeof(int64_t)'' (
     bindR (vec_read (m_buffer b) (peek b) 8) (\<lambda>bs.
       let be64 = host_load le bs in Inr (ntoh le 8 be64)))"

definition peekInt32 :: "bool \<Rightarrow> buffer \<Rightarrow> 32 word res" where
  "peekInt32 le b =
     assertR (readableBytes b \<ge> 4) ''readableBytes() >= sizeof(int32_t)'' (
     bindR (vec_read (m_buffer b) (peek b) 4) (\<lambda>bs.
       let be32 = host_load le bs in Inr (ntoh le 4 be32)))"

definition peekInt16 :: "bool \<Rightarrow> buffer \<Rightarrow> 16 word res" where
  "peekInt16 le b =
     assertR (readableBytes b \<ge> 2) ''readableBytes() >= sizeof(int16_t)'' (
     bindR (vec_read (m_buffer b) (peek b) 2) (\<lambda>bs.
       let be16 = host_load le bs in Inr (ntoh le 2 be16)))"

definition peekInt8 :: "buffer \<Rightarrow> 8 word res" where
  "peekInt8 b =
     assertR (readableBytes b \<ge> 1) ''readableBytes() >= sizeof(int8_t)'' (
     bindR (vec_read (m_buffer b) (peek b) 1) (\<lambda>bs. Inr (hd bs)))"

definition readInt64 :: "bool \<Rightarrow> buffer \<Rightarrow> (64 word \<times> buffer) res" where
  "readInt64 le b =
     bindR (peekInt64 le b) (\<lambda>result. bindR (retrieveInt64 b) (\<lambda>b'. Inr (result, b')))"

definition readInt32 :: "bool \<Rightarrow> buffer \<Rightarrow> (32 word \<times> buffer) res" where
  "readInt32 le b =
     bindR (peekInt32 le b) (\<lambda>result. bindR (retrieveInt32 b) (\<lambda>b'. Inr (result, b')))"

definition readInt16 :: "bool \<Rightarrow> buffer \<Rightarrow> (16 word \<times> buffer) res" where
  "readInt16 le b =
     bindR (peekInt16 le b) (\<lambda>result. bindR (retrieveInt16 b) (\<lambda>b'. Inr (result, b')))"

definition readInt8 :: "buffer \<Rightarrow> (8 word \<times> buffer) res" where
  "readInt8 b =
     bindR (peekInt8 b) (\<lambda>result. bindR (retrieveInt8 b) (\<lambda>b'. Inr (result, b')))"

section \<open>Prepending\<close>

definition prepend :: "buffer \<Rightarrow> bytes \<Rightarrow> buffer res" where
  "prepend b data =
     assertR (length data \<le> size_sub (prependableBytes b) kCheapPrepend)
       ''len <= prependableBytes() - kCheapPrepend'' (
     let b' = b\<lparr>m_readerIndex := size_sub (m_readerIndex b) (length data)\<rparr> in
     bindR (vec_write (m_buffer b') (m_readerIndex b') data) (\<lambda>v.
       Inr (b'\<lparr>m_buffer := v\<rparr>)))"

definition prependInt64 :: "bool \<Rightarrow> buffer \<Rightarrow> 64 word \<Rightarrow> buffer res" where
  "prependInt64 le b x = (let be64 = hton le 8 x in prepend b (host_store le 8 be64))"

definition prependInt32 :: "bool \<Rightarrow> buffer \<Rightarrow> 32 word \<Rightarrow> buffer res" where
  "prependInt32 le b x = (let be32 = hton le 4 x in prepend b (host_store le 4 be32))"

definition prependInt16 :: "bool \<Rightarrow> buffer \<Rightarrow> 16 word \<Rightarrow> buffer res" where
  "prependInt16 le b x = (let be16 = hton le 2 x in prepend b (host_store le 2 be16))"

definition prependInt8 :: "buffer \<Rightarrow> 8 word \<Rightarrow> buffer res" where
  "prependInt8 b x = prepend b [x]"

section \<open>Reading from a descriptor\<close>

text \<open>
  \<^verbatim>\<open>::readv\<close> is a parameter: given the two capacities it is offered (the second is 0 when
  \<^verbatim>\<open>iovcnt\<close> is 1), it fails with an \<^verbatim>\<open>errno\<close> or delivers bytes, which the kernel scatters
  over the buffer's free part first and the stack buffer \<^verbatim>\<open>extrabuf\<close> second. The result is
  the number of bytes or \<open>-1\<close> with the saved \<^verbatim>\<open>errno\<close>. The named hypothesis \<open>readv_ok\<close>
  is the documented bound on what \<^verbatim>\<open>readv\<close> delivers.
\<close>

type_synonym readv = "nat \<Rightarrow> nat \<Rightarrow> int + bytes"

definition readv_ok :: "readv \<Rightarrow> bool" where
  "readv_ok rv \<longleftrightarrow> (\<forall>c1 c2 ds. rv c1 c2 = Inr ds \<longrightarrow> length ds \<le> c1 + c2)"

definition extrabufSize :: nat where
  "extrabufSize = 65536"

definition iov_capacity :: "nat \<Rightarrow> nat" where
  "iov_capacity writeable = (if writeable < extrabufSize then extrabufSize else 0)"

definition readFd :: "readv \<Rightarrow> buffer \<Rightarrow> ((int \<times> int option) \<times> buffer) res" where
  "readFd rv b =
     (let writeable = writeableBytes b
      in case rv writeable (iov_capacity writeable) of
           Inl errno \<Rightarrow> Inr ((-1, Some errno), b)
         | Inr ds \<Rightarrow>
             bindR (vec_write (m_buffer b) (m_writerIndex b) (take writeable ds)) (\<lambda>v.
             let b1 = b\<lparr>m_buffer := v\<rparr> in
             if length ds \<le> writeable
             then Inr ((int (length ds), None),
                       b1\<lparr>m_writerIndex := size_add (m_writerIndex b1) (length ds)\<rparr>)
             else bindR (append_Buffer (b1\<lparr>m_writerIndex := length (m_buffer b1)\<rparr>)
                           (drop writeable ds)) (\<lambda>b2.
                  Inr ((int (length ds), None), b2))))"

section \<open>Invariant and abstraction\<close>

text \<open>
  The class invariant: the two indices are ordered, the first eight bytes are never part of
  the readable region, and the vector is one \<^verbatim>\<open>std::vector<char>\<close> can hold. The contents are
  the readable bytes; the free space is what the class can offer without growing.
\<close>

definition buf_inv :: "buffer \<Rightarrow> bool" where
  "buf_inv b \<longleftrightarrow> kCheapPrepend \<le> m_readerIndex b \<and> m_readerIndex b \<le> m_writerIndex b
     \<and> m_writerIndex b \<le> length (m_buffer b) \<and> length (m_buffer b) \<le> vec_max_size"

definition contents :: "buffer \<Rightarrow> bytes" where
  "contents b = take (m_writerIndex b - m_readerIndex b) (drop (m_readerIndex b) (m_buffer b))"

definition free_space :: "buffer \<Rightarrow> nat" where
  "free_space b = length (m_buffer b) - m_writerIndex b + (m_readerIndex b - kCheapPrepend)"

named_theorems buf_defs "definitions of the constants of the buffer"

declare kCheapPrepend_def [buf_defs] and vec_max_size_def [buf_defs] and peek_def [buf_defs]
  and prependableBytes_def [buf_defs]

lemma buf_invD:
  assumes "buf_inv b"
  shows "8 \<le> m_readerIndex b" "m_readerIndex b \<le> m_writerIndex b"
    "m_writerIndex b \<le> length (m_buffer b)" "length (m_buffer b) < 2 ^ 63"
  using assms by (simp_all add: buf_inv_def buf_defs)

lemma readable_eq: "buf_inv b \<Longrightarrow> readableBytes b = m_writerIndex b - m_readerIndex b"
  using buf_invD[of b] by (simp add: readableBytes_def sz_simps)

lemma writeable_eq: "buf_inv b \<Longrightarrow> writeableBytes b = length (m_buffer b) - m_writerIndex b"
  using buf_invD[of b] by (simp add: writeableBytes_def sz_simps)

lemma writer_eq: "buf_inv b \<Longrightarrow> m_writerIndex b = m_readerIndex b + readableBytes b"
  using buf_invD[of b] by (simp add: readable_eq)

lemma length_contents: "buf_inv b \<Longrightarrow> length (contents b) = readableBytes b"
  using buf_invD[of b] by (simp add: contents_def readable_eq)

lemma free_eq:
  assumes "buf_inv b"
  shows "size_sub (size_add (writeableBytes b) (prependableBytes b)) kCheapPrepend = free_space b"
  using buf_invD[OF assms]
  by (simp add: writeable_eq[OF assms] sz_simps buf_defs free_space_def)

lemma readable_range:
  "buf_inv b \<Longrightarrow> vec_read (m_buffer b) (peek b) (readableBytes b) = Inr (contents b)"
  using buf_invD[of b] by (simp add: readable_eq vec_read_def contents_def buf_defs)

lemma read_front:
  assumes "buf_inv b" and "n \<le> readableBytes b"
  shows "vec_read (m_buffer b) (peek b) n = Inr (take n (contents b))"
  using assms buf_invD[OF assms(1)]
  by (simp add: readable_eq vec_read_def contents_def buf_defs min_absorb1)

section \<open>Correctness of the operations\<close>

subsection \<open>Construction\<close>

definition empty_buffer :: "nat \<Rightarrow> buffer" where
  "empty_buffer n =
     \<lparr>m_buffer = replicate (8 + n) 0, m_readerIndex = 8, m_writerIndex = 8\<rparr>"

lemma empty_buffer_sel [simp]:
  "m_readerIndex (empty_buffer n) = 8" "m_writerIndex (empty_buffer n) = 8"
  "length (m_buffer (empty_buffer n)) = 8 + n"
  by (simp_all add: empty_buffer_def)

lemma empty_buffer_ok:
  assumes "n \<le> vec_max_size - 8"
  shows "buf_inv (empty_buffer n)" "contents (empty_buffer n) = []"
    "readableBytes (empty_buffer n) = 0" "writeableBytes (empty_buffer n) = n"
proof -
  show inv: "buf_inv (empty_buffer n)"
    using assms by (simp add: empty_buffer_def buf_inv_def buf_defs)
  show "contents (empty_buffer n) = []" by (simp add: empty_buffer_def contents_def)
  show "readableBytes (empty_buffer n) = 0" by (simp add: readable_eq[OF inv])
  show "writeableBytes (empty_buffer n) = n" by (simp add: writeable_eq[OF inv])
qed

lemma new_Buffer_ok:
  assumes "n \<le> vec_max_size - 8"
  shows "new_Buffer n = Inr (empty_buffer n)"
proof -
  have "size_add kCheapPrepend n = 8 + n"
    using assms by (simp add: sz_simps buf_defs)
  moreover have "vec_resize [] (8 + n) = Inr (replicate (8 + n) 0)"
    using assms by (simp add: vec_resize_def buf_defs)
  ultimately show ?thesis
    using empty_buffer_ok(3,4)[OF assms]
    by (simp add: new_Buffer_def empty_buffer_def kCheapPrepend_def prependableBytes_def
        del: replicate_add)
qed

subsection \<open>Consuming\<close>

lemma retrieveAll_ok:
  assumes "buf_inv b"
  shows "buf_inv (retrieveAll b) \<and> contents (retrieveAll b) = []"
  using buf_invD[OF assms] by (simp add: retrieveAll_def buf_inv_def contents_def buf_defs)

lemma retrieve_fails:
  "readableBytes b < n \<Longrightarrow> retrieve b n = Inl (AssertFailed ''len <= readableBytes()'')"
  by (simp add: retrieve_def)

lemma retrieve_ok:
  assumes "buf_inv b" and "n \<le> readableBytes b"
  shows "\<exists>b'. retrieve b n = Inr b' \<and> buf_inv b' \<and> contents b' = drop n (contents b)"
proof (cases "n < readableBytes b")
  case True
  with buf_invD[OF assms(1)] readable_eq[OF assms(1)]
  have "size_add (m_readerIndex b) n = m_readerIndex b + n" by (simp add: sz_simps)
  with True assms buf_invD[OF assms(1)] show ?thesis
    by (simp add: retrieve_def buf_inv_def contents_def readable_eq drop_take add.commute)
next
  case False
  with assms retrieveAll_ok[OF assms(1)] show ?thesis
    by (simp add: retrieve_def length_contents)
qed

lemma retrieveAsString_ok:
  assumes "buf_inv b" and "n \<le> readableBytes b"
  shows "\<exists>b'. retrieveAsString b n = Inr (take n (contents b), b') \<and> buf_inv b'
           \<and> contents b' = drop n (contents b)"
  using retrieve_ok[OF assms] assms by (auto simp: retrieveAsString_def read_front)

lemma retrieveAsString_fails:
  "readableBytes b < n \<Longrightarrow>
     retrieveAsString b n = Inl (AssertFailed ''len <= readableBytes()'')"
  by (simp add: retrieveAsString_def)

lemma retrieveAllAsString_ok:
  assumes "buf_inv b"
  shows "\<exists>b'. retrieveAllAsString b = Inr (contents b, b') \<and> buf_inv b' \<and> contents b' = []"
  using retrieveAsString_ok[OF assms order_refl] assms
  by (auto simp: retrieveAllAsString_def length_contents)

subsection \<open>Appending\<close>

text \<open>
  An append either compacts, grows the vector, or uses the space that is there; it can only
  fail when the data fit neither into the free space nor into a vector of the largest size.
\<close>

definition append_fits :: "buffer \<Rightarrow> nat \<Rightarrow> bool" where
  "append_fits b n \<longleftrightarrow> n \<le> free_space b \<or> m_writerIndex b + n \<le> vec_max_size"

lemma makeSpace_grows:
  assumes inv: "buf_inv b" and n: "free_space b < n" "n \<le> vec_max_size"
  shows "makeSpace b n =
     (if m_writerIndex b + n \<le> vec_max_size
      then Inr (b\<lparr>m_buffer := m_buffer b @ replicate (m_writerIndex b + n - length (m_buffer b)) 0\<rparr>)
      else Inl LengthError)"
proof -
  have sz: "size_add (m_writerIndex b) n = m_writerIndex b + n"
    using buf_invD[OF inv] n by (simp add: sz_simps buf_defs)
  have "length (m_buffer b) \<le> m_writerIndex b + n"
    using buf_invD[OF inv] n by (simp add: free_space_def buf_defs)
  then show ?thesis using n by (simp add: makeSpace_def free_eq[OF inv] sz vec_resize_def)
qed

lemma makeSpace_compacts:
  assumes inv: "buf_inv b" and n: "writeableBytes b < n" "n \<le> free_space b"
  shows "makeSpace b n = Inr (b\<lparr>m_buffer := take 8 (m_buffer b) @ contents b
             @ drop (8 + readableBytes b) (m_buffer b),
           m_readerIndex := 8, m_writerIndex := 8 + readableBytes b\<rparr>)"
proof -
  note w = writer_eq[OF inv] and bounds = buf_invD[OF inv]
  have gt: "kCheapPrepend < m_readerIndex b"
    using n bounds writeable_eq[OF inv] by (simp add: free_space_def buf_defs)
  have rd: "vec_read (m_buffer b) (m_readerIndex b) (m_writerIndex b - m_readerIndex b)
      = Inr (contents b)"
    using readable_range[OF inv] w by (simp add: peek_def)
  have wr: "vec_write (m_buffer b) kCheapPrepend (contents b) = Inr (take 8 (m_buffer b)
      @ contents b @ drop (8 + readableBytes b) (m_buffer b))"
    using bounds w by (simp add: vec_write_def length_contents[OF inv] kCheapPrepend_def)
  have "size_add kCheapPrepend (readableBytes b) = 8 + readableBytes b"
    using bounds w by (simp add: sz_simps kCheapPrepend_def)
  then show ?thesis
    unfolding makeSpace_def free_eq[OF inv] using n(2) gt rd wr by (simp add: kCheapPrepend_def)
qed

lemma ensureWriteableBytes_ok:
  assumes inv: "buf_inv b" and n: "n \<le> vec_max_size" and fits: "append_fits b n"
  shows "\<exists>b'. ensureWriteableBytes b n = Inr b' \<and> buf_inv b' \<and> contents b' = contents b
           \<and> n \<le> writeableBytes b'"
proof (cases "writeableBytes b < n")
  case False
  with inv show ?thesis by (simp add: ensureWriteableBytes_def)
next
  case short: True
  show ?thesis
  proof (cases "n \<le> free_space b")
    case True
    let ?b = "b\<lparr>m_buffer := take 8 (m_buffer b) @ contents b @ drop (8 + readableBytes b) (m_buffer b),
      m_readerIndex := 8, m_writerIndex := 8 + readableBytes b\<rparr>"
    have inv': "buf_inv ?b" and "contents ?b = contents b"
      using buf_invD[OF inv] length_contents[OF inv] writer_eq[OF inv]
      by (simp_all add: buf_inv_def contents_def[of ?b] kCheapPrepend_def vec_max_size_def)
    moreover have "n \<le> writeableBytes ?b"
      using True buf_invD[OF inv] length_contents[OF inv] writer_eq[OF inv]
      by (simp add: writeable_eq[OF inv'] free_space_def kCheapPrepend_def)
    ultimately show ?thesis
      using short by (simp add: ensureWriteableBytes_def makeSpace_compacts[OF inv short True])
  next
    case False
    with fits have max: "m_writerIndex b + n \<le> vec_max_size" by (simp add: append_fits_def)
    let ?b = "b\<lparr>m_buffer := m_buffer b @ replicate (m_writerIndex b + n - length (m_buffer b)) 0\<rparr>"
    have inv': "buf_inv ?b" and "contents ?b = contents b"
      using buf_invD[OF inv] max by (auto simp: buf_inv_def contents_def buf_defs)
    moreover have "n \<le> writeableBytes ?b"
      using buf_invD[OF inv] by (simp add: writeable_eq[OF inv'])
    ultimately show ?thesis
      using short False n max by (simp add: ensureWriteableBytes_def makeSpace_grows[OF inv])
  qed
qed

lemma write_at_end:
  assumes inv: "buf_inv b" and n: "length data \<le> writeableBytes b"
  shows "\<exists>b'. bindR (vec_write (m_buffer b) (m_writerIndex b) data)
            (\<lambda>v. hasWritten (b\<lparr>m_buffer := v\<rparr>) (length data)) = Inr b'
           \<and> buf_inv b' \<and> contents b' = contents b @ data"
proof -
  let ?v = "take (m_writerIndex b) (m_buffer b) @ data
    @ drop (m_writerIndex b + length data) (m_buffer b)"
  let ?b = "b\<lparr>m_buffer := ?v\<rparr>" and ?b' = "b\<lparr>m_buffer := ?v, m_writerIndex := m_writerIndex b + length data\<rparr>"
  have room: "m_writerIndex b + length data \<le> length (m_buffer b)"
    using n buf_invD[OF inv] by (simp add: writeable_eq[OF inv])
  have inv1: "buf_inv ?b" using inv room by (simp add: buf_inv_def)
  have "length data \<le> writeableBytes ?b" using room by (simp add: writeable_eq[OF inv1])
  moreover have "buf_inv ?b'" using inv room by (simp add: buf_inv_def)
  moreover have "contents ?b' = contents b @ data"
    using buf_invD[OF inv] room by (simp add: contents_def drop_take)
  ultimately show ?thesis
    using room buf_invD[OF inv] by (simp add: vec_write_def hasWritten_def sz_simps)
qed

lemma append_Buffer_ok:
  assumes "buf_inv b" and "length data \<le> vec_max_size" and "append_fits b (length data)"
  shows "\<exists>b'. append_Buffer b data = Inr b' \<and> buf_inv b' \<and> contents b' = contents b @ data"
proof -
  from ensureWriteableBytes_ok[OF assms] obtain b1 where
    "ensureWriteableBytes b (length data) = Inr b1" "buf_inv b1" "contents b1 = contents b"
    "length data \<le> writeableBytes b1" by blast
  then show ?thesis using write_at_end[of b1 data] by (simp add: append_Buffer_def)
qed

lemma append_Buffer_fails:
  assumes inv: "buf_inv b" and n: "length data \<le> vec_max_size"
    and no: "\<not> append_fits b (length data)"
  shows "append_Buffer b data = Inl LengthError"
proof -
  from no have "free_space b < length data" "\<not> m_writerIndex b + length data \<le> vec_max_size"
    by (simp_all add: append_fits_def)
  moreover from this have "writeableBytes b < length data"
    using buf_invD[OF inv] by (simp add: writeable_eq[OF inv] free_space_def)
  ultimately show ?thesis
    using n by (simp add: append_Buffer_def ensureWriteableBytes_def makeSpace_grows[OF inv])
qed

lemma ensureWriteableBytes_size:
  assumes "buf_inv b" and "ensureWriteableBytes b n = Inr b'"
  shows "length (m_buffer b') \<le> vec_max_size"
  using assms
  by (auto simp: ensureWriteableBytes_def makeSpace_def res_iffs vec_resize_def buf_inv_def
      Let_def dest: length_vec_write split: if_splits)

lemma append_Buffer_cases:
  assumes inv: "buf_inv b" and ok: "append_Buffer b data = Inr b'"
  shows "buf_inv b' \<and> contents b' = contents b @ data"
proof -
  have "length data \<le> vec_max_size"
  proof -
    from ok obtain b1 v where "ensureWriteableBytes b (length data) = Inr b1"
      "vec_write (m_buffer b1) (m_writerIndex b1) data = Inr v"
      by (auto simp: append_Buffer_def res_iffs)
    then show ?thesis
      using ensureWriteableBytes_size[OF inv] by (force simp: vec_write_def split: if_splits)
  qed
  with append_Buffer_ok[OF inv, of data] append_Buffer_fails[OF inv, of data] ok show ?thesis
    by (cases "append_fits b (length data)") auto
qed

subsection \<open>Prepending\<close>

lemma prepend_cases:
  assumes inv: "buf_inv b"
  shows "prepend b data =
    (if length data \<le> m_readerIndex b - 8
     then Inr (b\<lparr>m_readerIndex := m_readerIndex b - length data,
                m_buffer := take (m_readerIndex b - length data) (m_buffer b) @ data
                  @ drop (m_readerIndex b) (m_buffer b)\<rparr>)
     else Inl (AssertFailed ''len <= prependableBytes() - kCheapPrepend''))"
proof -
  note bounds = buf_invD[OF inv]
  have sz: "size_sub (prependableBytes b) kCheapPrepend = m_readerIndex b - 8"
    using bounds by (simp add: sz_simps buf_defs)
  have "size_sub (m_readerIndex b) (length data) = m_readerIndex b - length data"
    if "length data \<le> m_readerIndex b - 8"
    using bounds that by (simp add: sz_simps)
  then show ?thesis
    using bounds unfolding prepend_def sz by (simp add: vec_write_def Let_def)
qed

lemma prepend_ok:
  assumes inv: "buf_inv b" and n: "length data \<le> m_readerIndex b - 8"
  shows "\<exists>b'. prepend b data = Inr b' \<and> buf_inv b' \<and> contents b' = data @ contents b"
proof -
  note bounds = buf_invD[OF inv]
  have "m_writerIndex b - (m_readerIndex b - length data)
      = length data + (m_writerIndex b - m_readerIndex b)" using bounds n by simp
  moreover have "8 \<le> m_readerIndex b - length data" "length data \<le> m_readerIndex b"
    using n bounds by simp_all
  ultimately show ?thesis
    using n bounds by (simp add: prepend_cases[OF inv] buf_inv_def contents_def buf_defs)
qed

subsection \<open>Integers in network byte order\<close>

lemma appendInt_eq:
  "appendInt64 le b x = append_Buffer b (be_bytes 8 x)"
  "appendInt32 le b x2 = append_Buffer b (be_bytes 4 x2)"
  "appendInt16 le b x3 = append_Buffer b (be_bytes 2 x3)"
  by (simp_all add: appendInt64_def appendInt32_def appendInt16_def host_store_hton)

lemma prependInt_eq:
  "prependInt64 le b x = prepend b (be_bytes 8 x)"
  "prependInt32 le b x2 = prepend b (be_bytes 4 x2)"
  "prependInt16 le b x3 = prepend b (be_bytes 2 x3)"
  by (simp_all add: prependInt64_def prependInt32_def prependInt16_def host_store_hton)

lemma ntoh_host_load_take:
  assumes "LENGTH('a) = 8 * n" and "n \<le> length xs"
  shows "ntoh le n (host_load le (take n xs) :: 'a::len word) = of_be_bytes (take n xs)"
  using ntoh_host_load[of "take n xs", where 'a = 'a and le = le] assms by (simp add: min_absorb2)

lemma peekInt_eq:
  assumes "buf_inv b"
  shows "8 \<le> readableBytes b \<Longrightarrow> peekInt64 le b = Inr (of_be_bytes (take 8 (contents b)))"
    "4 \<le> readableBytes b \<Longrightarrow> peekInt32 le b = Inr (of_be_bytes (take 4 (contents b)))"
    "2 \<le> readableBytes b \<Longrightarrow> peekInt16 le b = Inr (of_be_bytes (take 2 (contents b)))"
    "1 \<le> readableBytes b \<Longrightarrow> peekInt8 b = Inr (hd (contents b))"
  using length_contents[OF assms]
  by (simp_all add: peekInt64_def peekInt32_def peekInt16_def peekInt8_def read_front[OF assms]
      ntoh_host_load_take)

lemma readInt_ok:
  assumes inv: "buf_inv b"
  shows "8 \<le> readableBytes b \<Longrightarrow> \<exists>b'. readInt64 le b = Inr (of_be_bytes (take 8 (contents b)), b')
      \<and> buf_inv b' \<and> contents b' = drop 8 (contents b)"
    "4 \<le> readableBytes b \<Longrightarrow> \<exists>b'. readInt32 le b = Inr (of_be_bytes (take 4 (contents b)), b')
      \<and> buf_inv b' \<and> contents b' = drop 4 (contents b)"
    "2 \<le> readableBytes b \<Longrightarrow> \<exists>b'. readInt16 le b = Inr (of_be_bytes (take 2 (contents b)), b')
      \<and> buf_inv b' \<and> contents b' = drop 2 (contents b)"
    "1 \<le> readableBytes b \<Longrightarrow> \<exists>b'. readInt8 b = Inr (hd (contents b), b')
      \<and> buf_inv b' \<and> contents b' = drop 1 (contents b)"
  using retrieve_ok[OF inv]
  by (fastforce simp: readInt64_def readInt32_def readInt16_def readInt8_def peekInt_eq[OF inv]
      retrieveInt64_def retrieveInt32_def retrieveInt16_def retrieveInt8_def)+

lemma readInt_fails:
  "readableBytes b < 8 \<Longrightarrow> readInt64 le b = Inl (AssertFailed ''readableBytes() >= sizeof(int64_t)'')"
  "readableBytes b < 4 \<Longrightarrow> readInt32 le b = Inl (AssertFailed ''readableBytes() >= sizeof(int32_t)'')"
  "readableBytes b < 2 \<Longrightarrow> readInt16 le b = Inl (AssertFailed ''readableBytes() >= sizeof(int16_t)'')"
  "readableBytes b < 1 \<Longrightarrow> readInt8 b = Inl (AssertFailed ''readableBytes() >= sizeof(int8_t)'')"
  by (simp_all add: readInt64_def readInt32_def readInt16_def readInt8_def
      peekInt64_def peekInt32_def peekInt16_def peekInt8_def)

subsection \<open>Reading from a descriptor\<close>

lemma readFd_error:
  "rv (writeableBytes b) (iov_capacity (writeableBytes b)) = Inl e \<Longrightarrow>
     readFd rv b = Inr ((-1, Some e), b)"
  by (simp add: readFd_def)

lemma readFd_fits:
  assumes inv: "buf_inv b"
    and rv: "rv (writeableBytes b) (iov_capacity (writeableBytes b)) = Inr ds"
    and n: "length ds \<le> writeableBytes b"
  shows "\<exists>b'. readFd rv b = Inr ((int (length ds), None), b') \<and> buf_inv b'
           \<and> contents b' = contents b @ ds"
proof -
  obtain b' where b': "bindR (vec_write (m_buffer b) (m_writerIndex b) ds)
      (\<lambda>v. hasWritten (b\<lparr>m_buffer := v\<rparr>) (length ds)) = Inr b'"
    "buf_inv b'" "contents b' = contents b @ ds"
    using write_at_end[OF inv n] by blast
  from b'(1) n have "readFd rv b = Inr ((int (length ds), None), b')"
    using rv by (auto simp: readFd_def hasWritten_def res_iffs Let_def vec_write_def split: if_splits)
  with b' show ?thesis by blast
qed

definition filled :: "buffer \<Rightarrow> bytes \<Rightarrow> buffer" where
  "filled b ds = b\<lparr>m_buffer := take (m_writerIndex b) (m_buffer b) @ take (writeableBytes b) ds,
                   m_writerIndex := length (m_buffer b)\<rparr>"

lemma filled_ok:
  assumes inv: "buf_inv b" and n: "writeableBytes b < length ds"
  shows "length (m_buffer (filled b ds)) = length (m_buffer b)"
    "buf_inv (filled b ds)" "contents (filled b ds) = contents b @ take (writeableBytes b) ds"
proof -
  note bounds = buf_invD[OF inv]
  show len: "length (m_buffer (filled b ds)) = length (m_buffer b)"
    using n bounds by (simp add: filled_def writeable_eq[OF inv])
  then show "buf_inv (filled b ds)"
    using inv by (simp add: buf_inv_def) (simp add: filled_def)
  show "contents (filled b ds) = contents b @ take (writeableBytes b) ds"
    using n bounds by (simp add: filled_def contents_def drop_take writeable_eq[OF inv] min_def)
qed

lemma readFd_overflow:
  assumes inv: "buf_inv b"
    and rv: "rv (writeableBytes b) (iov_capacity (writeableBytes b)) = Inr ds"
    and n: "writeableBytes b < length ds"
  shows "readFd rv b = bindR (append_Buffer (filled b ds) (drop (writeableBytes b) ds))
           (\<lambda>b'. Inr ((int (length ds), None), b'))"
proof -
  have "m_writerIndex b + writeableBytes b = length (m_buffer b)"
    using buf_invD[OF inv] by (simp add: writeable_eq[OF inv])
  then have "vec_write (m_buffer b) (m_writerIndex b) (take (writeableBytes b) ds)
      = Inr (take (m_writerIndex b) (m_buffer b) @ take (writeableBytes b) ds)"
    using n by (simp add: vec_write_def)
  then show ?thesis
    using rv n filled_ok(1)[OF inv n] by (simp add: readFd_def Let_def filled_def)
qed

lemma readv_ok_size:
  assumes "readv_ok rv" and "rv w (iov_capacity w) = Inr ds"
  shows "length ds \<le> w + extrabufSize"
proof -
  from assms have "length ds \<le> w + iov_capacity w" by (simp add: readv_ok_def)
  then show ?thesis by (simp add: iov_capacity_def split: if_splits)
qed

lemma readFd_ok:
  assumes inv: "buf_inv b" and ok: "readv_ok rv"
    and rv: "rv (writeableBytes b) (iov_capacity (writeableBytes b)) = Inr ds"
    and room: "length (m_buffer b) + extrabufSize \<le> vec_max_size"
  shows "\<exists>b'. readFd rv b = Inr ((int (length ds), None), b') \<and> buf_inv b'
           \<and> contents b' = contents b @ ds"
proof (cases "length ds \<le> writeableBytes b")
  case False
  then have n: "writeableBytes b < length ds" by simp
  note f = filled_ok[OF inv n]
  have size: "length (drop (writeableBytes b) ds) \<le> extrabufSize"
    using readv_ok_size[of rv, OF ok rv] by simp
  then have "m_writerIndex (filled b ds) + length (drop (writeableBytes b) ds) \<le> vec_max_size"
    using room by (simp add: filled_def)
  then have "append_fits (filled b ds) (length (drop (writeableBytes b) ds))"
    "length (drop (writeableBytes b) ds) \<le> vec_max_size"
    by (auto simp: append_fits_def)
  from append_Buffer_ok[OF f(2) this(2,1)] show ?thesis
    using f(3) by (auto simp: readFd_overflow[of b rv ds, OF inv rv n])
qed (use readFd_fits[of b rv ds, OF inv rv] in blast)

lemma readFd_cases:
  assumes inv: "buf_inv b" and ok: "readv_ok rv"
  shows "case readFd rv b of Inr (_, b') \<Rightarrow> buf_inv b' | Inl e \<Rightarrow> e = LengthError"
proof (cases "rv (writeableBytes b) (iov_capacity (writeableBytes b))")
  case (Inl e)
  then have "readFd rv b = Inr ((-1, Some e), b)" by (rule readFd_error)
  with inv show ?thesis by simp
next
  case (Inr ds)
  show ?thesis
  proof (cases "length ds \<le> writeableBytes b")
    case True
    from readFd_fits[of b rv ds, OF inv Inr True] show ?thesis by auto
  next
    case False
    then have n: "writeableBytes b < length ds" by simp
    have "length (drop (writeableBytes b) ds) \<le> vec_max_size"
      using readv_ok_size[of rv, OF ok Inr] by (simp add: extrabufSize_def vec_max_size_def)
    then show ?thesis
      using append_Buffer_ok[OF filled_ok(2)[OF inv n], of "drop (writeableBytes b) ds"]
        append_Buffer_fails[OF filled_ok(2)[OF inv n], of "drop (writeableBytes b) ds"]
      by (cases "append_fits (filled b ds) (length (drop (writeableBytes b) ds))")
        (auto simp: readFd_overflow[of b rv ds, OF inv Inr n])
  qed
qed

subsection \<open>Searching the readable region\<close>

text \<open>
  The result of a search is an index of the vector; relative to the reader index it is a
  position of the contents.
\<close>

lemma findCRLF_from_cases:
  assumes inv: "buf_inv b" and k: "k \<le> readableBytes b"
  shows "findCRLF_from b (m_readerIndex b + k) =
     Inr (let i = std_search (drop k (contents b)) kCRLF in
          if i = length (drop k (contents b)) then None else Some (m_readerIndex b + k + i))"
proof -
  note w = writer_eq[OF inv] and bounds = buf_invD[OF inv]
  have "vec_read (m_buffer b) (m_readerIndex b + k) (readableBytes b - k) = Inr (drop k (contents b))"
    using bounds w k by (simp add: vec_read_def contents_def drop_take add.commute)
  then show ?thesis
    using k w by (auto simp: findCRLF_from_def peek_def length_contents[OF inv] Let_def)
qed

lemma findCRLF_eq_from: "buf_inv b \<Longrightarrow> findCRLF b = findCRLF_from b (m_readerIndex b)"
  by (auto simp: findCRLF_def findCRLF_from_def peek_def dest: buf_invD)

lemma findEOL_from_cases:
  assumes inv: "buf_inv b" and k: "k \<le> readableBytes b"
  shows "findEOL_from b (m_readerIndex b + k) =
     Inr (map_option (\<lambda>i. m_readerIndex b + k + i) (mem_chr (drop k (contents b)) 10))"
proof -
  note w = writer_eq[OF inv] and bounds = buf_invD[OF inv]
  have "vec_read (m_buffer b) (m_readerIndex b + k) (readableBytes b - k) = Inr (drop k (contents b))"
    using bounds w k by (simp add: vec_read_def contents_def drop_take add.commute)
  then show ?thesis
    using k w by (auto simp: findEOL_from_def peek_def)
qed

lemma findEOL_eq_from: "buf_inv b \<Longrightarrow> findEOL b = findEOL_from b (m_readerIndex b)"
  by (auto simp: findEOL_def findEOL_from_def peek_def readable_eq dest: buf_invD)

lemma find_from_outside:
  "start < m_readerIndex b \<Longrightarrow> findCRLF_from b start = Inl (AssertFailed ''peek() <= start'')"
  "start < m_readerIndex b \<Longrightarrow> findEOL_from b start = Inl (AssertFailed ''peek() <= start'')"
  "m_readerIndex b \<le> start \<Longrightarrow> m_writerIndex b < start \<Longrightarrow>
     findCRLF_from b start = Inl (AssertFailed ''start <= beginWrite'')"
  "m_readerIndex b \<le> start \<Longrightarrow> m_writerIndex b < start \<Longrightarrow>
     findEOL_from b start = Inl (AssertFailed ''start <= beginWrite'')"
  by (simp_all add: findCRLF_from_def findEOL_from_def peek_def)

section \<open>The byte queue contract\<close>

text \<open>
  What the rest of the library relies on: a buffer is a queue of bytes. The contract is
  stated over any implementation, and its consequence, that bytes leave in the order in
  which they came in, is proved once from it.
\<close>

datatype queue_op = Put bytes | Get nat

fun queue_run ::
  "('b \<Rightarrow> bytes \<Rightarrow> 'b res) \<Rightarrow> ('b \<Rightarrow> nat \<Rightarrow> (bytes \<times> 'b) res) \<Rightarrow> 'b \<Rightarrow> queue_op list
     \<Rightarrow> (bytes \<times> 'b) res" where
  "queue_run put get b [] = Inr ([], b)"
| "queue_run put get b (Put xs # ops) = bindR (put b xs) (\<lambda>b'. queue_run put get b' ops)"
| "queue_run put get b (Get n # ops) =
     bindR (get b n) (\<lambda>(out, b'). bindR (queue_run put get b' ops) (\<lambda>(outs, b''). Inr (out @ outs, b'')))"

fun queue_input :: "queue_op list \<Rightarrow> bytes" where
  "queue_input [] = []"
| "queue_input (Put xs # ops) = xs @ queue_input ops"
| "queue_input (Get n # ops) = queue_input ops"

locale byte_queue =
  fixes q_inv :: "'b \<Rightarrow> bool"
    and q_contents :: "'b \<Rightarrow> bytes"
    and q_put :: "'b \<Rightarrow> bytes \<Rightarrow> 'b res"
    and q_get :: "'b \<Rightarrow> nat \<Rightarrow> (bytes \<times> 'b) res"
  assumes put_law: "q_inv b \<Longrightarrow> q_put b xs = Inr b' \<Longrightarrow> q_inv b' \<and> q_contents b' = q_contents b @ xs"
    and get_law: "q_inv b \<Longrightarrow> q_get b n = Inr (out, b') \<Longrightarrow>
      q_inv b' \<and> n \<le> length (q_contents b) \<and> out = take n (q_contents b)
      \<and> q_contents b' = drop n (q_contents b)"
begin

lemma queue_run_fifo:
  "q_inv b \<Longrightarrow> queue_run q_put q_get b ops = Inr (outs, b') \<Longrightarrow>
     q_inv b' \<and> outs @ q_contents b' = q_contents b @ queue_input ops"
proof (induction ops arbitrary: b outs)
  case (Cons op ops)
  show ?case
  proof (cases op)
    case (Put xs)
    with Cons.prems obtain b1 where "q_put b xs = Inr b1" "queue_run q_put q_get b1 ops = Inr (outs, b')"
      by (auto simp: res_iffs)
    with put_law[OF Cons.prems(1)] Cons.IH[of b1 outs] Put show ?thesis by auto
  next
    case (Get n)
    with Cons.prems obtain out b1 outs1 where
      "q_get b n = Inr (out, b1)" "queue_run q_put q_get b1 ops = Inr (outs1, b')" "outs = out @ outs1"
      by (auto simp: res_iffs)
    with get_law[OF Cons.prems(1)] Cons.IH[of b1 outs1] Get show ?thesis
      by (metis append.assoc append_take_drop_id queue_input.simps(3))
  qed
qed simp

end

lemma retrieveAsString_cases:
  assumes inv: "buf_inv b" and ok: "retrieveAsString b n = Inr (out, b')"
  shows "buf_inv b' \<and> n \<le> length (contents b) \<and> out = take n (contents b)
    \<and> contents b' = drop n (contents b)"
proof -
  have n: "n \<le> readableBytes b" using ok by (simp add: retrieveAsString_def res_iffs)
  then show ?thesis using retrieveAsString_ok[OF inv n] ok by (auto simp: length_contents[OF inv])
qed

interpretation bbuf: byte_queue buf_inv contents append_Buffer retrieveAsString
  by unfold_locales (blast dest: append_Buffer_cases, rule retrieveAsString_cases)

section \<open>Programs over a buffer\<close>

text \<open>
  Every public operation that changes a buffer, as one step; a step either yields a buffer
  or stops with the fault of the operation.
\<close>

datatype buf_op =
    OpRetrieve nat | OpRetrieveAll | OpRetrieveAsString nat | OpRetrieveAllAsString
  | OpAppend bytes | OpAppend64 "64 word" | OpAppend32 "32 word" | OpAppend16 "16 word"
  | OpAppend8 "8 word"
  | OpRead64 | OpRead32 | OpRead16 | OpRead8
  | OpPrepend bytes | OpPrepend64 "64 word" | OpPrepend32 "32 word" | OpPrepend16 "16 word"
  | OpPrepend8 "8 word"
  | OpReadFd readv

fun buf_apply :: "bool \<Rightarrow> buf_op \<Rightarrow> buffer \<Rightarrow> buffer res" where
  "buf_apply le (OpRetrieve n) b = retrieve b n"
| "buf_apply le OpRetrieveAll b = Inr (retrieveAll b)"
| "buf_apply le (OpRetrieveAsString n) b = bindR (retrieveAsString b n) (\<lambda>p. Inr (snd p))"
| "buf_apply le OpRetrieveAllAsString b = bindR (retrieveAllAsString b) (\<lambda>p. Inr (snd p))"
| "buf_apply le (OpAppend xs) b = append_Buffer b xs"
| "buf_apply le (OpAppend64 x) b = appendInt64 le b x"
| "buf_apply le (OpAppend32 x) b = appendInt32 le b x"
| "buf_apply le (OpAppend16 x) b = appendInt16 le b x"
| "buf_apply le (OpAppend8 x) b = appendInt8 b x"
| "buf_apply le OpRead64 b = bindR (readInt64 le b) (\<lambda>p. Inr (snd p))"
| "buf_apply le OpRead32 b = bindR (readInt32 le b) (\<lambda>p. Inr (snd p))"
| "buf_apply le OpRead16 b = bindR (readInt16 le b) (\<lambda>p. Inr (snd p))"
| "buf_apply le OpRead8 b = bindR (readInt8 b) (\<lambda>p. Inr (snd p))"
| "buf_apply le (OpPrepend xs) b = prepend b xs"
| "buf_apply le (OpPrepend64 x) b = prependInt64 le b x"
| "buf_apply le (OpPrepend32 x) b = prependInt32 le b x"
| "buf_apply le (OpPrepend16 x) b = prependInt16 le b x"
| "buf_apply le (OpPrepend8 x) b = prependInt8 b x"
| "buf_apply le (OpReadFd rv) b = bindR (readFd rv b) (\<lambda>p. Inr (snd p))"

fun buf_exec :: "bool \<Rightarrow> buf_op list \<Rightarrow> buffer \<Rightarrow> buffer res" where
  "buf_exec le [] b = Inr b"
| "buf_exec le (op # ops) b = bindR (buf_apply le op b) (buf_exec le ops)"

text \<open>
  The arguments a program can be given: a byte string that exists in memory, a \<^verbatim>\<open>readv\<close>
  within its documented bounds.
\<close>

fun buf_op_ok :: "buf_op \<Rightarrow> bool" where
  "buf_op_ok (OpAppend xs) = (length xs \<le> vec_max_size)"
| "buf_op_ok (OpReadFd rv) = readv_ok rv"
| "buf_op_ok _ = True"

definition assert_or_length :: "fault \<Rightarrow> bool" where
  "assert_or_length e \<longleftrightarrow> e = LengthError \<or> (\<exists>m. e = AssertFailed m)"

definition step_safe :: "buffer res \<Rightarrow> bool" where
  "step_safe r \<longleftrightarrow> (case r of Inr b \<Rightarrow> buf_inv b | Inl e \<Rightarrow> assert_or_length e)"

lemma step_safe_simps [simp]:
  "step_safe (Inr b) = buf_inv b" "step_safe (Inl e) = assert_or_length e"
  "assert_or_length LengthError" "assert_or_length (AssertFailed m)"
  by (simp_all add: step_safe_def assert_or_length_def)

lemma append_safe: "buf_inv b \<Longrightarrow> length xs \<le> vec_max_size \<Longrightarrow> step_safe (append_Buffer b xs)"
  using append_Buffer_ok[of b xs] append_Buffer_fails[of b xs]
  by (cases "append_fits b (length xs)") auto

lemma retrieve_safe: "buf_inv b \<Longrightarrow> step_safe (retrieve b n)"
  using retrieve_ok[of b n] retrieve_fails[of b n] by (cases "n \<le> readableBytes b") auto

lemma retrieveAsString_safe:
  "buf_inv b \<Longrightarrow> step_safe (bindR (retrieveAsString b n) (\<lambda>p. Inr (snd p)))"
  using retrieveAsString_ok[of b n] retrieveAsString_fails[of b n]
  by (cases "n \<le> readableBytes b") auto

lemma prepend_safe: "buf_inv b \<Longrightarrow> step_safe (prepend b xs)"
  using prepend_ok[of b xs] by (cases "length xs \<le> m_readerIndex b - 8") (auto simp: prepend_cases)

lemma readInt_safe:
  assumes inv: "buf_inv b"
  shows "step_safe (bindR (readInt64 le b) (\<lambda>p. Inr (snd p)))"
    "step_safe (bindR (readInt32 le b) (\<lambda>p. Inr (snd p)))"
    "step_safe (bindR (readInt16 le b) (\<lambda>p. Inr (snd p)))"
    "step_safe (bindR (readInt8 b) (\<lambda>p. Inr (snd p)))"
proof -
  show "step_safe (bindR (readInt64 le b) (\<lambda>p. Inr (snd p)))"
    using readInt_ok(1)[OF inv, of le] readInt_fails(1)[of b le]
    by (cases "8 \<le> readableBytes b") auto
  show "step_safe (bindR (readInt32 le b) (\<lambda>p. Inr (snd p)))"
    using readInt_ok(2)[OF inv, of le] readInt_fails(2)[of b le]
    by (cases "4 \<le> readableBytes b") auto
  show "step_safe (bindR (readInt16 le b) (\<lambda>p. Inr (snd p)))"
    using readInt_ok(3)[OF inv, of le] readInt_fails(3)[of b le]
    by (cases "2 \<le> readableBytes b") auto
  show "step_safe (bindR (readInt8 b) (\<lambda>p. Inr (snd p)))"
    using readInt_ok(4)[OF inv] readInt_fails(4)[of b]
    by (cases "1 \<le> readableBytes b") auto
qed

lemma buf_apply_safe:
  assumes inv: "buf_inv b" and ok: "buf_op_ok op"
  shows "step_safe (buf_apply le op b)"
proof (cases op)
  case (OpReadFd rv)
  with readFd_cases[OF inv, of rv] ok show ?thesis
    by (cases "readFd rv b") auto
qed (use inv ok in \<open>simp_all add: append_safe retrieve_safe retrieveAsString_safe prepend_safe
      readInt_safe retrieveAll_ok appendInt_eq prependInt_eq appendInt8_def prependInt8_def
      retrieveAllAsString_def vec_max_size_def\<close>)

lemma buf_exec_safe:
  "buf_inv b \<Longrightarrow> list_all buf_op_ok ops \<Longrightarrow> step_safe (buf_exec le ops b)"
proof (induction ops arbitrary: b)
  case (Cons op ops)
  then show ?case
    using buf_apply_safe[of b op le] by (cases "buf_apply le op b") auto
qed simp

subsection \<open>Size of the vector\<close>

lemma append_Buffer_length:
  assumes inv: "buf_inv b" and ok: "append_Buffer b data = Inr b'"
  shows "length (m_buffer b') =
    (if length data \<le> free_space b then length (m_buffer b) else m_writerIndex b + length data)"
proof -
  note bounds = buf_invD[OF inv]
  from ok obtain b1 v where e: "ensureWriteableBytes b (length data) = Inr b1"
    and wr: "vec_write (m_buffer b1) (m_writerIndex b1) data = Inr v"
    and b': "m_buffer b' = v"
    by (auto simp: append_Buffer_def hasWritten_def res_iffs)
  from wr b' have len: "length (m_buffer b') = length (m_buffer b1)" by (simp add: length_vec_write)
  show ?thesis
  proof (cases "length data \<le> free_space b")
    case fits: True
    show ?thesis
    proof (cases "writeableBytes b < length data")
      case True
      have "length (m_buffer b1) = length (m_buffer b)"
        using e True bounds writer_eq[OF inv]
        by (auto simp: ensureWriteableBytes_def makeSpace_compacts[OF inv True fits]
            length_contents[OF inv] res_iffs)
      with len fits show ?thesis by simp
    qed (use e len fits in \<open>simp add: ensureWriteableBytes_def res_iffs\<close>)
  next
    case False
    have n: "length data \<le> vec_max_size"
      using wr ensureWriteableBytes_size[OF inv e] by (simp add: vec_write_def split: if_splits)
    have "writeableBytes b < length data"
      using False bounds by (simp add: writeable_eq[OF inv] free_space_def)
    moreover have "length (m_buffer b) \<le> m_writerIndex b + length data"
      using False bounds by (simp add: free_space_def)
    ultimately have "length (m_buffer b1) = m_writerIndex b + length data"
      using e False n
      by (auto simp: ensureWriteableBytes_def makeSpace_grows[OF inv _ n] res_iffs split: if_splits)
    with len False show ?thesis by simp
  qed
qed

lemma occurs_at_bound: "p \<noteq> [] \<Longrightarrow> occurs_at p xs i \<Longrightarrow> i + length p \<le> length xs"
proof -
  assume "p \<noteq> []" and "occurs_at p xs i"
  then have "length p = min (length p) (length xs - i)" "0 < length p"
    by (auto simp: occurs_at_def dest: arg_cong[where f = length])
  then show ?thesis by arith
qed

lemma std_search_all:
  assumes "p \<noteq> []" and "std_search xs p = length xs"
  shows "\<not> occurs_at p xs i"
proof
  assume "occurs_at p xs i"
  with occurs_at_bound[OF assms(1) this] assms have "i < std_search xs p"
    by (cases p) auto
  with std_search_before[of i xs p] \<open>occurs_at p xs i\<close> show False by blast
qed

text \<open>The operations as evaluation rules, for runs on concrete buffers.\<close>

lemmas buf_eval = empty_buffer_def append_Buffer_def ensureWriteableBytes_def makeSpace_def
  hasWritten_def retrieve_def retrieveAll_def retrieveAsString_def retrieveAllAsString_def
  readableBytes_def writeableBytes_def prependableBytes_def peek_def kCheapPrepend_def
  size_add_def size_sub_def vec_read_def vec_write_def vec_resize_def vec_max_size_def
  appendInt_eq appendInt8_def

section \<open>Properties\<close>

text \<open>
  C24. Appending to a buffer whose invariant holds, on every branch (space at hand,
  compaction, growth, refusal): if the data fit into the free space or into a vector of the
  largest size, the invariant holds afterwards and the readable bytes are the old ones
  followed by the data; otherwise the vector throws and nothing is returned.
\<close>

theorem append_Buffer_spec:
  assumes "buf_inv b" and "length data \<le> vec_max_size"
  shows "if length data \<le> free_space b \<or> m_writerIndex b + length data \<le> vec_max_size
         then \<exists>b'. append_Buffer b data = Inr b' \<and> buf_inv b' \<and> contents b' = contents b @ data
         else append_Buffer b data = Inl LengthError"
  using append_Buffer_ok[OF assms] append_Buffer_fails[OF assms] by (simp add: append_fits_def)

lemma append_Buffer_spec_witness:
  "\<exists>b'. append_Buffer (empty_buffer 2) [7, 8, 9] = Inr b' \<and> contents b' = [7, 8, 9]"
  using append_Buffer_spec[of "empty_buffer 2" "[7, 8, 9]"] empty_buffer_ok(1,2)[of 2]
  by (auto simp: vec_max_size_def empty_buffer_def free_space_def kCheapPrepend_def)

text \<open>
  The vector grows only when it must, and then to exactly the size needed: an append that
  fits into the free space (in front of and behind the readable bytes) leaves its size alone.
\<close>

lemma append_Buffer_growth:
  assumes "buf_inv b" and "append_Buffer b data = Inr b'"
  shows "length (m_buffer b') =
    (if length data \<le> free_space b then length (m_buffer b) else m_writerIndex b + length data)"
  using assms by (rule append_Buffer_length)

lemma append_Buffer_growth_witness:
  "\<exists>b'. append_Buffer (empty_buffer 2) [7, 8, 9] = Inr b' \<and> length (m_buffer b') = 11"
  using append_Buffer_ok[of "empty_buffer 2" "[7, 8, 9]"] empty_buffer_ok(1)[of 2]
    append_Buffer_growth[of "empty_buffer 2" "[7, 8, 9]"]
  by (fastforce simp: vec_max_size_def empty_buffer_def free_space_def kCheapPrepend_def
      append_fits_def)

text \<open>
  C25. A buffer is a queue of bytes: in any sequence of appends and retrievals on a newly
  constructed buffer, what came out followed by what is still readable is exactly what was
  appended, in order, across all compactions and growths.
\<close>

theorem buffer_fifo:
  assumes "n \<le> vec_max_size - 8" and "new_Buffer n = Inr b"
    and "queue_run append_Buffer retrieveAsString b ops = Inr (outs, b')"
  shows "outs @ contents b' = queue_input ops"
  using bbuf.queue_run_fifo[OF _ assms(3)] assms(1,2) empty_buffer_ok(1,2)[OF assms(1)]
  by (simp add: new_Buffer_ok)

lemma buffer_fifo_witness:
  "\<exists>outs b'. queue_run append_Buffer retrieveAsString (empty_buffer 2)
     [Put [1, 2], Get 1, Put [3, 4, 5], Get 2] = Inr (outs, b') \<and> outs @ contents b' = [1, 2, 3, 4, 5]"
proof -
  have "case queue_run append_Buffer retrieveAsString (empty_buffer 2)
     [Put [1, 2], Get 1, Put [3, 4, 5], Get 2] of Inr _ \<Rightarrow> True | Inl _ \<Rightarrow> False"
    by (simp add: buf_eval)
  then have "\<exists>outs b'. queue_run append_Buffer retrieveAsString (empty_buffer 2)
     [Put [1, 2], Get 1, Put [3, 4, 5], Get 2] = Inr (outs, b')"
    by (auto split: sum.splits)
  then show ?thesis
    using buffer_fifo[of 2 "empty_buffer 2" "[Put [1, 2], Get 1, Put [3, 4, 5], Get 2]"]
      new_Buffer_ok[of 2] by (fastforce simp: vec_max_size_def)
qed

text \<open>
  C26. Memory safety of the class: every program of public operations on a new buffer keeps
  the invariant or stops with one of the assertions of the code or the vector's
  \<^verbatim>\<open>length_error\<close>; it never reads or writes outside the vector.
\<close>

theorem buffer_memory_safe:
  assumes "n \<le> vec_max_size - 8" and "list_all buf_op_ok ops"
  shows "\<exists>b. new_Buffer n = Inr b \<and>
    (case buf_exec le ops b of Inr b' \<Rightarrow> buf_inv b'
     | Inl e \<Rightarrow> e = LengthError \<or> (\<exists>m. e = AssertFailed m))"
  using buf_exec_safe[OF empty_buffer_ok(1)[OF assms(1)] assms(2), of le] new_Buffer_ok[OF assms(1)]
  by (auto simp: step_safe_def assert_or_length_def split: sum.splits)

lemma buffer_memory_safe_witness:
  "\<exists>b. new_Buffer kInitialSize = Inr b \<and>
    (case buf_exec True [OpAppend64 5, OpRead32, OpPrepend16 3, OpReadFd (\<lambda>c _. Inr (take c [1, 2]))] b
     of Inr b' \<Rightarrow> buf_inv b' | Inl e \<Rightarrow> e = LengthError \<or> (\<exists>m. e = AssertFailed m))"
  by (rule buffer_memory_safe)
    (simp_all add: kInitialSize_def vec_max_size_def readv_ok_def min_def)

text \<open>
  C31. Integers cross the wire unchanged and in network order: on hosts of either byte order,
  what the typed operations append are the digits of the numbers in base 256, the most
  significant byte first, and another host of either byte order reads the numbers back, in
  order, from a buffer that holds those bytes.
\<close>

theorem wire_integers:
  assumes "buf_inv s" and "buf_inv r"
    and "bindR (appendInt64 le s x) (\<lambda>s. bindR (appendInt32 le s y) (\<lambda>s.
           bindR (appendInt16 le s z) (\<lambda>s. appendInt8 s w))) = Inr s'"
    and "contents r = drop (length (contents s)) (contents s') @ rest"
  shows "contents s' = contents s @ big_endian 8 (unat x) @ big_endian 4 (unat y) @ big_endian 2 (unat z)
      @ big_endian 1 (unat w)
    \<and> (\<exists>r'. bindR (readInt64 le' r) (\<lambda>(x', r). bindR (readInt32 le' r) (\<lambda>(y', r).
           bindR (readInt16 le' r) (\<lambda>(z', r). bindR (readInt8 r) (\<lambda>(w', r).
           Inr ((x', y', z', w'), r))))) = Inr ((x, y, z, w), r') \<and> contents r' = rest)"
proof -
  from assms(1,3) have s': "contents s' = contents s @ be_bytes 8 x @ be_bytes 4 y @ be_bytes 2 z @ [w]"
    by (auto simp: res_iffs appendInt_eq appendInt8_def dest!: append_Buffer_cases[rotated])
  have wire: "contents s' = contents s @ big_endian 8 (unat x) @ big_endian 4 (unat y) @ big_endian 2 (unat z)
      @ big_endian 1 (unat w)"
    unfolding s' be_bytes_big_endian by (simp add: big_endian_def)
  from s' assms(4) have r: "contents r = be_bytes 8 x @ be_bytes 4 y @ be_bytes 2 z @ [w] @ rest" by simp
  then obtain r1 where 1: "readInt64 le' r = Inr (x, r1)" "buf_inv r1"
      "contents r1 = be_bytes 4 y @ be_bytes 2 z @ [w] @ rest"
    using readInt_ok(1)[OF assms(2), of le'] length_contents[OF assms(2)]
    by (auto simp: of_be_bytes_be_bytes)
  then obtain r2 where 2: "readInt32 le' r1 = Inr (y, r2)" "buf_inv r2"
      "contents r2 = be_bytes 2 z @ [w] @ rest"
    using readInt_ok(2)[OF 1(2), of le'] length_contents[OF 1(2)]
    by (auto simp: of_be_bytes_be_bytes)
  then obtain r3 where 3: "readInt16 le' r2 = Inr (z, r3)" "buf_inv r3" "contents r3 = [w] @ rest"
    using readInt_ok(3)[OF 2(2), of le'] length_contents[OF 2(2)]
    by (auto simp: of_be_bytes_be_bytes)
  then obtain r4 where 4: "readInt8 r3 = Inr (w, r4)" "contents r4 = rest"
    using readInt_ok(4)[OF 3(2)] length_contents[OF 3(2)] by auto
  from 1 2 3 4 wire show ?thesis by simp
qed

lemma wire_integers_witness:
  "\<exists>s' r'. contents s' = [0, 0, 0, 0, 0, 0, 0, 1] @ [0, 0, 0, 2] @ [0, 3] @ [4] \<and> bindR (appendInt64 True (empty_buffer 0) 1) (\<lambda>s. bindR (appendInt32 True s 2) (\<lambda>s.
       bindR (appendInt16 True s 3) (\<lambda>s. appendInt8 s 4))) = Inr s' \<and>
     bindR (readInt64 False s') (\<lambda>(x', r). bindR (readInt32 False r) (\<lambda>(y', r).
       bindR (readInt16 False r) (\<lambda>(z', r). bindR (readInt8 r) (\<lambda>(w', r).
       Inr ((x', y', z', w'), r))))) = Inr ((1, 2, 3, 4), r')"
proof -
  let ?chain = "bindR (appendInt64 True (empty_buffer 0) 1) (\<lambda>s. bindR (appendInt32 True s 2)
    (\<lambda>s. bindR (appendInt16 True s 3) (\<lambda>s. appendInt8 s 4)))"
  have "case ?chain of Inr _ \<Rightarrow> True | Inl _ \<Rightarrow> False" by (simp add: buf_eval)
  then obtain s' where chain: "?chain = Inr s'" by (auto split: sum.splits)
  have e: "buf_inv (empty_buffer 0)" "contents (empty_buffer 0) = []"
    using empty_buffer_ok(1,2)[of 0] by (simp_all add: vec_max_size_def)
  from chain e(1) have "buf_inv s'"
    by (auto simp: res_iffs appendInt_eq appendInt8_def dest!: append_Buffer_cases[rotated])
  from wire_integers[OF e(1) this chain, of "[]" False] e(2)
  have wire: "contents s' = big_endian 8 (unat (1 :: 64 word)) @ big_endian 4 (unat (2 :: 32 word))
      @ big_endian 2 (unat (3 :: 16 word)) @ big_endian 1 (unat (4 :: 8 word))"
    and "\<exists>r'. bindR (readInt64 False s') (\<lambda>(x', r). bindR (readInt32 False r) (\<lambda>(y', r).
       bindR (readInt16 False r) (\<lambda>(z', r). bindR (readInt8 r) (\<lambda>(w', r).
       Inr ((x', y', z', w'), r))))) = Inr ((1, 2, 3, 4), r')" by auto
  moreover have "contents s' = [0, 0, 0, 0, 0, 0, 0, 1] @ [0, 0, 0, 2] @ [0, 3] @ [4]"
    unfolding wire by simp
  ultimately show ?thesis using chain by blast
qed

text \<open>
  Searching: \<^verbatim>\<open>findCRLF(start)\<close> and \<^verbatim>\<open>findEOL(start)\<close>, from any start inside the readable
  region, return the first \<^verbatim>\<open>"\r\n"\<close>, respectively the first newline, at or after the start,
  and the null pointer exactly when there is none; outside the region they assert.
\<close>

theorem find_from_spec:
  assumes "buf_inv b"
  shows "if start < m_readerIndex b \<or> m_writerIndex b < start
    then (\<exists>m. findCRLF_from b start = Inl (AssertFailed m))
       \<and> (\<exists>m. findEOL_from b start = Inl (AssertFailed m))
    else (let rest = drop (start - m_readerIndex b) (contents b) in
      (\<exists>r. findCRLF_from b start = Inr r \<and> (case r of
          None \<Rightarrow> \<forall>i. \<not> occurs_at kCRLF rest i
        | Some p \<Rightarrow> start \<le> p \<and> p + 2 \<le> m_writerIndex b \<and> occurs_at kCRLF rest (p - start)
            \<and> (\<forall>i < p - start. \<not> occurs_at kCRLF rest i)))
      \<and> (\<exists>r. findEOL_from b start = Inr r \<and> (case r of
          None \<Rightarrow> 10 \<notin> set rest
        | Some p \<Rightarrow> start \<le> p \<and> p < m_writerIndex b \<and> rest ! (p - start) = 10
            \<and> (\<forall>i < p - start. rest ! i \<noteq> 10))))"
proof (cases "start < m_readerIndex b \<or> m_writerIndex b < start")
  case True
  then show ?thesis using find_from_outside[where b = b and start = start]
    by (cases "start < m_readerIndex b") auto
next
  case False
  let ?k = "start - m_readerIndex b" and ?rest = "drop (start - m_readerIndex b) (contents b)"
  have start: "m_readerIndex b + ?k = start" and k: "?k \<le> readableBytes b"
    and w: "start + length ?rest = m_writerIndex b"
    using False writer_eq[OF assms] by (auto simp: length_contents[OF assms])
  let ?i = "std_search ?rest kCRLF"
  have "occurs_at kCRLF ?rest ?i \<and> start + ?i + 2 \<le> m_writerIndex b" if "?i \<noteq> length ?rest"
    using that std_search_le[of ?rest kCRLF] std_search_found[of ?rest kCRLF]
      occurs_at_bound[of kCRLF ?rest ?i] w by (auto simp: kCRLF_def)
  then have "\<exists>r. findCRLF_from b start = Inr r \<and> (case r of
          None \<Rightarrow> \<forall>i. \<not> occurs_at kCRLF ?rest i
        | Some p \<Rightarrow> start \<le> p \<and> p + 2 \<le> m_writerIndex b \<and> occurs_at kCRLF ?rest (p - start)
            \<and> (\<forall>i < p - start. \<not> occurs_at kCRLF ?rest i))"
    using findCRLF_from_cases[OF assms k] start std_search_before[of _ ?rest kCRLF]
      std_search_all[of kCRLF ?rest] by (auto simp: Let_def kCRLF_def)
  moreover have "\<exists>r. findEOL_from b start = Inr r \<and> (case r of
          None \<Rightarrow> 10 \<notin> set ?rest
        | Some p \<Rightarrow> start \<le> p \<and> p < m_writerIndex b \<and> ?rest ! (p - start) = 10
            \<and> (\<forall>i < p - start. ?rest ! i \<noteq> 10))"
    using findEOL_from_cases[OF assms k] start w
    by (cases "mem_chr ?rest 10") (simp_all only: mem_chr_None mem_chr_Some, auto)
  ultimately show ?thesis using False by (simp only: Let_def if_False)
qed

lemma find_from_spec_witness:
  "\<exists>r. findCRLF_from (empty_buffer 0) 8 = Inr r \<and> r = None"
proof -
  have e: "buf_inv (empty_buffer 0)" "contents (empty_buffer 0) = []"
    using empty_buffer_ok(1,2)[of 0] by (simp_all add: vec_max_size_def)
  obtain r where r: "findCRLF_from (empty_buffer 0) 8 = Inr r" "case r of
      None \<Rightarrow> \<forall>i. \<not> occurs_at kCRLF [] i
    | Some p \<Rightarrow> 8 \<le> p \<and> p + 2 \<le> m_writerIndex (empty_buffer 0) \<and> occurs_at kCRLF [] (p - 8)
        \<and> (\<forall>i < p - 8. \<not> occurs_at kCRLF [] i)"
    using find_from_spec[OF e(1), of 8] e(2) by (auto simp: Let_def)
  then have "r = None" by (cases r) (auto simp: occurs_at_def kCRLF_def)
  with r show ?thesis by blast
qed

text \<open>
  C30. \<^verbatim>\<open>readFd\<close>: an error of \<^verbatim>\<open>readv\<close> leaves the buffer alone and is returned as \<open>-1\<close> with
  its \<^verbatim>\<open>errno\<close>; otherwise the bytes delivered, whether they end in the buffer or went through
  the extra stack buffer, are appended to the readable bytes in order, their number is
  returned, and it is at most 128k-1 when the extra buffer is offered.
\<close>

theorem readFd_spec:
  assumes "buf_inv b" and "readv_ok rv" and "length (m_buffer b) + extrabufSize \<le> vec_max_size"
  shows "case rv (writeableBytes b) (if writeableBytes b < 65536 then 65536 else 0) of
      Inl e \<Rightarrow> readFd rv b = Inr ((-1, Some e), b)
    | Inr ds \<Rightarrow> (\<exists>b'. readFd rv b = Inr ((int (length ds), None), b') \<and> buf_inv b'
        \<and> contents b' = contents b @ ds)
        \<and> (writeableBytes b < 65536 \<longrightarrow> length ds \<le> 131071)"
proof -
  have cap: "(if writeableBytes b < 65536 then 65536 else 0) = iov_capacity (writeableBytes b)"
    by (simp add: iov_capacity_def extrabufSize_def)
  show ?thesis
  proof (cases "rv (writeableBytes b) (iov_capacity (writeableBytes b))")
    case (Inr ds)
    have "length ds \<le> writeableBytes b + extrabufSize"
      by (rule readv_ok_size[of rv, OF assms(2) Inr])
    then show ?thesis
      unfolding cap using readFd_ok[OF assms(1,2) Inr assms(3)] Inr by (simp add: extrabufSize_def)
  qed (simp only: cap, simp add: readFd_error)
qed

lemma readFd_spec_witness:
  "\<exists>b'. readFd (\<lambda>c1 c2. Inr (take (c1 + c2) [1, 2, 3])) (empty_buffer 2) = Inr ((3, None), b')
     \<and> contents b' = [1, 2, 3]"
  using readFd_spec[of "empty_buffer 2" "\<lambda>c1 c2. Inr (take (c1 + c2) [1, 2, 3])"]
    empty_buffer_ok[of 2]
  by (auto simp: readv_ok_def vec_max_size_def extrabufSize_def)

text \<open>
  \<^verbatim>\<open>prepend\<close> succeeds exactly when the data fit into the bytes consumed so far, and then
  puts them in front of the readable bytes; otherwise it asserts.
\<close>

theorem prepend_spec:
  assumes "buf_inv b"
  shows "if length data \<le> m_readerIndex b - kCheapPrepend
      then \<exists>b'. prepend b data = Inr b' \<and> buf_inv b' \<and> contents b' = data @ contents b
      else prepend b data = Inl (AssertFailed ''len <= prependableBytes() - kCheapPrepend'')"
  using prepend_ok[OF assms, of data] prepend_cases[OF assms, of data]
  by (simp add: kCheapPrepend_def)

lemma prepend_spec_witness:
  "\<exists>b'. prepend (empty_buffer 4\<lparr>m_readerIndex := 10, m_writerIndex := 12\<rparr>) [5, 6] = Inr b'
     \<and> contents b' = [5, 6, 0, 0]"
proof -
  let ?b = "empty_buffer 4\<lparr>m_readerIndex := 10, m_writerIndex := 12\<rparr>"
  have inv: "buf_inv ?b" by (simp add: buf_inv_def kCheapPrepend_def vec_max_size_def)
  have "contents ?b = [0, 0]" by (simp add: contents_def empty_buffer_def numeral_2_eq_2)
  then show ?thesis
    using prepend_spec[OF inv, of "[5, 6]"] by (auto simp: kCheapPrepend_def)
qed

text \<open>
  On a new buffer nothing can be prepended: the assertion of \<^verbatim>\<open>prepend\<close> subtracts
  \<^verbatim>\<open>kCheapPrepend\<close> from the prependable bytes, so the eight bytes reserved in front of every
  buffer are never available, and \<^verbatim>\<open>prependInt8\<close> to \<^verbatim>\<open>prependInt64\<close> abort.
\<close>

theorem prepend_on_new_buffer_aborts:
  assumes "n \<le> vec_max_size - 8"
  shows "\<exists>b. new_Buffer n = Inr b
      \<and> (data \<noteq> [] \<longrightarrow> (\<exists>m. prepend b data = Inl (AssertFailed m)))
      \<and> (\<exists>m. prependInt64 le b x64 = Inl (AssertFailed m))
      \<and> (\<exists>m. prependInt32 le b x32 = Inl (AssertFailed m))
      \<and> (\<exists>m. prependInt16 le b x16 = Inl (AssertFailed m))
      \<and> (\<exists>m. prependInt8 b x8 = Inl (AssertFailed m))"
  using prepend_cases[OF empty_buffer_ok(1)[OF assms]]
  by (auto simp: new_Buffer_ok[OF assms] prependInt_eq prependInt8_def
      length_greater_0_conv[symmetric] simp del: length_greater_0_conv)

lemma prepend_on_new_buffer_aborts_witness:
  "\<exists>b m. new_Buffer kInitialSize = Inr b \<and> prependInt32 True b 1 = Inl (AssertFailed m)"
  using prepend_on_new_buffer_aborts[of kInitialSize "[]" True 0 1 0 0]
  by (auto simp: kInitialSize_def vec_max_size_def)

end
