(* ===== verification/Inet_Address.thy ===== *)
theory Inet_Address
  imports Byte_Order
begin

text \<open>
  The class \<^verbatim>\<open>InetAddress\<close> (\<^verbatim>\<open>InetAddress.hpp\<close>, \<^verbatim>\<open>InetAddress.cpp\<close>): a
  \<^verbatim>\<open>sockaddr_in\<close> with the port and the address in network byte order, on a little- or
  big-endian host (\<open>le\<close>). \<^verbatim>\<open>inet_pton\<close> and \<^verbatim>\<open>inet_ntop\<close> are parameters.
\<close>

section \<open>Decimal numbers\<close>

text \<open>\<^verbatim>\<open>std::to_string\<close> of an unsigned value, and the number a string of digits denotes.\<close>

definition digit :: "nat \<Rightarrow> char" where
  "digit d = char_of (48 + d)"

fun to_string :: "nat \<Rightarrow> string" where
  "to_string n = (if n < 10 then [digit n] else to_string (n div 10) @ [digit (n mod 10)])"

declare to_string.simps [simp del]

definition of_string :: "string \<Rightarrow> nat" where
  "of_string s = foldl (\<lambda>v c. 10 * v + (of_char c - 48)) 0 s"

lemma of_char_digit: "d < 10 \<Longrightarrow> (of_char (digit d) :: nat) = 48 + d"
  by (simp add: digit_def)

lemma of_string_to_string: "of_string (to_string n) = n"
proof (induction n rule: to_string.induct)
  case (1 n)
  then show ?case
    by (cases "n < 10") (simp_all add: to_string.simps[of n] of_string_def of_char_digit)
qed

section \<open>The class\<close>

definition AF_INET :: "16 word" where "AF_INET = 2"
definition INADDR_ANY :: "32 word" where "INADDR_ANY = 0"
definition INADDR_LOOPBACK :: "32 word" where "INADDR_LOOPBACK = 0x7f000001"

record inet_address =
  sin_family :: "16 word"
  sin_port :: "16 word"
  s_addr :: "32 word"

definition new_InetAddress :: "bool \<Rightarrow> 16 word \<Rightarrow> bool \<Rightarrow> inet_address" where
  "new_InetAddress le port loopback =
     (let ip = if loopback then INADDR_LOOPBACK else INADDR_ANY in
      \<lparr>sin_family = AF_INET, sin_port = hton le 2 port, s_addr = hton le 4 ip\<rparr>)"

definition new_InetAddress_ip ::
  "(string \<Rightarrow> 32 word option) \<Rightarrow> bool \<Rightarrow> string \<Rightarrow> 16 word \<Rightarrow> inet_address res" where
  "new_InetAddress_ip inet_pton le ip port =
     (case inet_pton ip of
        None \<Rightarrow> Inl (ExitProcess ''InetAddress::inet_pton()'')
      | Some a \<Rightarrow> Inr \<lparr>sin_family = AF_INET, sin_port = hton le 2 port, s_addr = a\<rparr>)"

definition setAddress :: "inet_address \<Rightarrow> inet_address \<Rightarrow> inet_address" where
  "setAddress addr self = addr"

definition toIp :: "(32 word \<Rightarrow> string option) \<Rightarrow> inet_address \<Rightarrow> string" where
  "toIp inet_ntop a = (case inet_ntop (s_addr a) of None \<Rightarrow> '''' | Some s \<Rightarrow> s)"

definition toPort :: "bool \<Rightarrow> inet_address \<Rightarrow> 16 word" where
  "toPort le a = ntoh le 2 (sin_port a)"

definition toIpPort :: "(32 word \<Rightarrow> string option) \<Rightarrow> bool \<Rightarrow> inet_address \<Rightarrow> string" where
  "toIpPort inet_ntop le a = (toIp inet_ntop a @ '':'') @ to_string (unat (toPort le a))"

section \<open>Properties\<close>

lemma toPort_hton: "ntoh le 2 (hton le 2 (p :: 16 word)) = p"
  by (rule ntoh_hton) simp

lemma takeWhile_ip: "CHR '':'' \<notin> set ip \<Longrightarrow> takeWhile (\<lambda>c. c \<noteq> CHR '':'') (ip @ '':'' @ r) = ip"
  by (induction ip) auto

lemma dropWhile_ip: "CHR '':'' \<notin> set ip \<Longrightarrow> dropWhile (\<lambda>c. c \<noteq> CHR '':'') (ip @ '':'' @ r) = '':'' @ r"
  by (induction ip) auto

text \<open>
  C32. An address built from a text and a port prints back to that text, a colon and the
  port in decimal, on hosts of either byte order: splitting the printed form at the first
  colon gives the text and the port again. The parameters are used as documented:
  \<^verbatim>\<open>inet_ntop\<close> prints what \<^verbatim>\<open>inet_pton\<close> read, and an address has no colon. The wire
  form of the port is big-endian. A text that \<^verbatim>\<open>inet_pton\<close> refuses ends the process.
\<close>

theorem inet_address_roundtrip:
  assumes "inet_pton ip = Some a" and "inet_ntop a = Some ip" and "CHR '':'' \<notin> set ip"
  shows "\<exists>addr. new_InetAddress_ip inet_pton le ip port = Inr addr
    \<and> takeWhile (\<lambda>c. c \<noteq> CHR '':'') (toIpPort inet_ntop le addr) = ip
    \<and> of_string (tl (dropWhile (\<lambda>c. c \<noteq> CHR '':'') (toIpPort inet_ntop le addr))) = unat port
    \<and> host_store le 2 (sin_port addr) = be_bytes 2 port \<and> toPort le addr = port"
proof -
  let ?addr = "\<lparr>sin_family = AF_INET, sin_port = hton le 2 port, s_addr = a\<rparr>"
  have "toIpPort inet_ntop le ?addr = ip @ '':'' @ to_string (unat port)"
    using assms(2) by (simp add: toIpPort_def toIp_def toPort_def toPort_hton)
  moreover have "host_store le 2 (hton le 2 port) = be_bytes 2 port" by (rule host_store_hton) simp
  ultimately show ?thesis
    using assms(1,3)
    by (intro exI[of _ ?addr])
      (simp add: new_InetAddress_ip_def takeWhile_ip dropWhile_ip of_string_to_string toPort_def toPort_hton
        del: append.simps(2))
qed

lemma inet_address_roundtrip_witness:
  "\<exists>addr. new_InetAddress_ip [''192.123.4.1'' \<mapsto> 0x01047BC0] True ''192.123.4.1'' 1000 = Inr addr
    \<and> toPort True addr = 1000 \<and> host_store True 2 (sin_port addr) = be_bytes 2 (1000 :: 16 word)"
  using inet_address_roundtrip[of "[''192.123.4.1'' \<mapsto> 0x01047BC0]" "''192.123.4.1''" "0x01047BC0"
      "[0x01047BC0 \<mapsto> ''192.123.4.1'']" True 1000]
  by auto

end
