(* ===== verification/Tcp_Connection.thy ===== *)
theory Tcp_Connection
  imports Timer_Queue Byte_Buffer Inet_Address
begin

text \<open>
  The class \<^verbatim>\<open>TCPConnection\<close> (\<^verbatim>\<open>TCPConnection.hpp\<close>, \<^verbatim>\<open>TCPConnection.cpp\<close>): a socket with
  an input and an output buffer on an event loop. An operation acts on the connection and
  its loop. The loop's closures are the ones the connection binds (\<open>net_task\<close>) and the
  clients' own; a client callback is a name of type \<open>'u\<close>, which the parameter \<open>call\<close>
  turns into its effect.
\<close>

section \<open>The socket\<close>

text \<open>
  The kernel's side of the socket: what it took (\<open>sent\<close>), whether the write side was shut
  down and the descriptor closed, and how the coming calls of \<^verbatim>\<open>write\<close> and \<^verbatim>\<open>readv\<close> will
  be answered. As documented, \<^verbatim>\<open>write\<close> takes a prefix of its data or fails with an
  \<^verbatim>\<open>errno\<close>; when the script is used up the socket would block (a \<^verbatim>\<open>write\<close> of no bytes does
  not).
\<close>

datatype write_result = Wrote nat | WriteFailed int

record socket =
  sent :: bytes
  shut_wr :: bool
  closed_fd :: bool
  write_script :: "write_result list"
  read_script :: "readv list"

definition EINTR :: int where "EINTR = 4"
definition EAGAIN :: int where "EAGAIN = 11"
definition EWOULDBLOCK :: int where "EWOULDBLOCK = EAGAIN"

definition retryable :: "int \<Rightarrow> bool" where
  "retryable e \<longleftrightarrow> e = EAGAIN \<or> e = EWOULDBLOCK \<or> e = EINTR"

definition sock_write :: "bytes \<Rightarrow> socket \<Rightarrow> write_result \<times> socket" where
  "sock_write data s =
     (case write_script s of
        [] \<Rightarrow> (if data = [] then Wrote 0 else WriteFailed EAGAIN, s)
      | WriteFailed e # rs \<Rightarrow> (WriteFailed e, s\<lparr>write_script := rs\<rparr>)
      | Wrote k # rs \<Rightarrow> (let n = min k (length data) in
          (Wrote n, s\<lparr>sent := sent s @ take n data, write_script := rs\<rparr>)))"

definition sock_readv :: "socket \<Rightarrow> readv \<times> socket" where
  "sock_readv s =
     (case read_script s of
        [] \<Rightarrow> (\<lambda>_ _. Inl EAGAIN, s)
      | rv # rs \<Rightarrow> (rv, s\<lparr>read_script := rs\<rparr>))"

section \<open>State\<close>

datatype conn_state = kConnecting | kConnected | kDisconnecting | kDisconnected

text \<open>The enumerators are compared as the numbers they stand for.\<close>

fun state_num :: "conn_state \<Rightarrow> nat" where
  "state_num kConnecting = 0"
| "state_num kConnected = 1"
| "state_num kDisconnecting = 2"
| "state_num kDisconnected = 3"

instantiation conn_state :: linorder
begin

definition less_eq_conn_state :: "conn_state \<Rightarrow> conn_state \<Rightarrow> bool" where
  "less_eq_conn_state a b \<longleftrightarrow> state_num a \<le> state_num b"

definition less_conn_state :: "conn_state \<Rightarrow> conn_state \<Rightarrow> bool" where
  "less_conn_state a b \<longleftrightarrow> state_num a < state_num b"

instance
proof
  fix a b :: conn_state
  show "a \<le> b \<Longrightarrow> b \<le> a \<Longrightarrow> a = b" by (cases a; cases b) (simp_all add: less_eq_conn_state_def)
qed (auto simp: less_eq_conn_state_def less_conn_state_def)

end

lemma le_kDisconnecting [simp]: "s \<le> kDisconnecting \<longleftrightarrow> s \<noteq> kDisconnected"
  by (cases s) (simp_all add: less_eq_conn_state_def)

datatype 'u net_task =
    SendInLoop addr bytes
  | ShutdownInLoop addr
  | ForceCloseInLoop addr
  | StopReadInLoop addr
  | StartReadInLoop addr
  | WriteCompleteTask 'u addr
  | HighWaterMarkTask 'u addr nat
  | UserTask 'u

record 'u tcp_connection =
  self :: addr
  m_messageCallback :: "'u option"
  m_writeCompleteCallback :: "'u option"
  m_closeCallback_conn :: "'u option"
  m_highWaterMarkCallback :: "'u option"
  m_highWaterMark :: nat
  m_sockfd :: int
  m_channel :: channel
  m_state :: conn_state
  m_local :: inet_address
  m_peer :: inet_address
  m_inputBuffer :: buffer
  m_outputBuffer :: buffer
  socket_of :: socket

type_synonym ('u, 'w) conn_loop = "'u tcp_connection \<times> ('u net_task, 'w) event_loop_scheme"

text \<open>Which callback is called (the first one by the servers and the client); the size is the
  argument of the high-water mark's.\<close>

datatype conn_event = OnConnection | OnMessage | OnClose | OnWriteComplete | OnHighWaterMark nat

type_synonym ('u, 'w) conn_call = "conn_event \<Rightarrow> 'u \<Rightarrow> ('u, 'w) conn_loop \<Rightarrow> ('u, 'w) conn_loop res"

definition call_conn ::
  "('u, 'w) conn_call \<Rightarrow> conn_event \<Rightarrow> 'u option \<Rightarrow> ('u, 'w) conn_loop \<Rightarrow> ('u, 'w) conn_loop res" where
  "call_conn call ev cb s = (case cb of None \<Rightarrow> Inr s | Some u \<Rightarrow> call ev u s)"

section \<open>Construction and plain accessors\<close>

definition new_TCPConnection :: "addr \<Rightarrow> int \<Rightarrow> inet_address \<Rightarrow> inet_address \<Rightarrow> socket
    \<Rightarrow> 'u tcp_connection res" where
  "new_TCPConnection p sockfd local peer sock =
     bindR (new_Buffer kInitialSize) (\<lambda>ib.
     bindR (new_Buffer kInitialSize) (\<lambda>ob.
     Inr \<lparr>self = p, m_messageCallback = None, m_writeCompleteCallback = None,
       m_closeCallback_conn = None, m_highWaterMarkCallback = None, m_highWaterMark = 0,
       m_sockfd = sockfd, m_channel = new_Channel sockfd, m_state = kConnecting,
       m_local = local, m_peer = peer, m_inputBuffer = ib, m_outputBuffer = ob,
       socket_of = sock\<rparr>))"

definition destroy_TCPConnection :: "'u tcp_connection \<Rightarrow> 'u tcp_connection res" where
  "destroy_TCPConnection c =
     assertR (m_state c = kDisconnected) ''m_state == kDisconnected'' (
     Inr (c\<lparr>socket_of := (socket_of c)\<lparr>closed_fd := True\<rparr>\<rparr>))"

definition setMessageCallback :: "'u option \<Rightarrow> 'u tcp_connection \<Rightarrow> 'u tcp_connection" where
  "setMessageCallback cb c = c\<lparr>m_messageCallback := cb\<rparr>"

definition setWriteCompleteCallback :: "'u option \<Rightarrow> 'u tcp_connection \<Rightarrow> 'u tcp_connection" where
  "setWriteCompleteCallback cb c = c\<lparr>m_writeCompleteCallback := cb\<rparr>"

definition setCloseCallback :: "'u option \<Rightarrow> 'u tcp_connection \<Rightarrow> 'u tcp_connection" where
  "setCloseCallback cb c = c\<lparr>m_closeCallback_conn := cb\<rparr>"

definition setHighWaterMarkCallback :: "'u option \<Rightarrow> nat \<Rightarrow> 'u tcp_connection \<Rightarrow> 'u tcp_connection" where
  "setHighWaterMarkCallback cb mark c = c\<lparr>m_highWaterMarkCallback := cb, m_highWaterMark := mark\<rparr>"

definition isConnected :: "'u tcp_connection \<Rightarrow> bool" where
  "isConnected c \<longleftrightarrow> m_state c = kConnected"

definition isDisconnected :: "'u tcp_connection \<Rightarrow> bool" where
  "isDisconnected c \<longleftrightarrow> m_state c = kDisconnected"

definition isReading_conn :: "'u tcp_connection \<Rightarrow> bool" where
  "isReading_conn c \<longleftrightarrow> isReading (m_channel c)"

definition name_conn :: "(32 word \<Rightarrow> string option) \<Rightarrow> bool \<Rightarrow> 'u tcp_connection \<Rightarrow> string" where
  "name_conn inet_ntop le c =
     toIpPort inet_ntop le (m_peer c) @ '' -> '' @ toIpPort inet_ntop le (m_local c)"

section \<open>Operations\<close>

definition conn_channel ::
  "(tid \<Rightarrow> tid \<Rightarrow> epoller \<times> channel \<Rightarrow> (epoller \<times> channel) res) \<Rightarrow> tid
     \<Rightarrow> ('u, 'w) conn_loop \<Rightarrow> ('u, 'w) conn_loop res" where
  "conn_channel op gettid = (\<lambda>(c, L).
     bindR (on_channel op gettid (m_channel c) L) (\<lambda>(ch, L). Inr (c\<lparr>m_channel := ch\<rparr>, L)))"

text \<open>\<^verbatim>\<open>runInLoop\<close> with a closure bound to the connection: \<open>body\<close> is the closure's body.\<close>

definition conn_runInLoop ::
  "tid \<Rightarrow> 'u net_task \<Rightarrow> (('u, 'w) conn_loop \<Rightarrow> ('u, 'w) conn_loop res)
     \<Rightarrow> ('u, 'w) conn_loop \<Rightarrow> ('u, 'w) conn_loop res" where
  "conn_runInLoop gettid task body = (\<lambda>(c, L).
     if isInLoopThread (m_tid L) gettid then body (c, L) else Inr (c, queueInLoop (Closure task) L))"

definition connectEstablished :: "tid \<Rightarrow> ('u, 'w) conn_loop \<Rightarrow> ('u, 'w) conn_loop res" where
  "connectEstablished gettid = (\<lambda>(c, L).
     assertInLoopThread (m_tid L) gettid (
     assertR (m_state c = kConnecting) ''m_state == kConnecting'' (
     conn_channel enableRead gettid (c\<lparr>m_state := kConnected, m_channel := tie (m_channel c)\<rparr>, L))))"

definition queue_callback :: "('u \<Rightarrow> 'u net_task) \<Rightarrow> 'u option
    \<Rightarrow> ('u net_task, 'w) event_loop_scheme \<Rightarrow> ('u net_task, 'w) event_loop_scheme" where
  "queue_callback mk cb L = (case cb of None \<Rightarrow> L | Some u \<Rightarrow> queueInLoop (Closure (mk u)) L)"

text \<open>
  The second half of \<^verbatim>\<open>sendInLoop\<close>: what was not written is buffered. (\<^verbatim>\<open>write\<close> never
  takes more than \<^verbatim>\<open>len\<close> bytes, so \<^verbatim>\<open>remain -= n\<close> does not wrap.)
\<close>

definition send_rest :: "tid \<Rightarrow> bytes \<Rightarrow> ('u, 'w) conn_loop \<Rightarrow> ('u, 'w) conn_loop res" where
  "send_rest gettid rest = (\<lambda>(c, L).
     let remain = length rest;
         oldLen = readableBytes (m_outputBuffer c);
         newLen = size_add oldLen remain;
         L = (if oldLen < m_highWaterMark c \<and> newLen \<ge> m_highWaterMark c
              then queue_callback (\<lambda>u. HighWaterMarkTask u (self c) newLen) (m_highWaterMarkCallback c) L
              else L) in
     bindR (append_Buffer (m_outputBuffer c) rest) (\<lambda>ob.
     conn_channel enableWrite gettid (c\<lparr>m_outputBuffer := ob\<rparr>, L)))"

definition sendInLoop :: "tid \<Rightarrow> bytes \<Rightarrow> ('u, 'w) conn_loop \<Rightarrow> ('u, 'w) conn_loop res" where
  "sendInLoop gettid data = (\<lambda>(c, L).
     assertInLoopThread (m_tid L) gettid (
     if m_state c = kDisconnected then Inr (c, L) else
     bindR (if \<not> isWriting (m_channel c) then
         assertR (readableBytes (m_outputBuffer c) = 0) ''m_outputBuffer.readableBytes() == 0'' (
         case sock_write data (socket_of c) of
           (WriteFailed e, s) \<Rightarrow> Inr (c\<lparr>socket_of := s\<rparr>, L, 0, length data, \<not> retryable e)
         | (Wrote n, s) \<Rightarrow>
             let remain = length data - n in
             Inr (c\<lparr>socket_of := s\<rparr>,
               if remain = 0 then queue_callback (\<lambda>u. WriteCompleteTask u (self c)) (m_writeCompleteCallback c) L
               else L, n, remain, False))
       else Inr (c, L, 0, length data, False)) (\<lambda>(c, L, n, remain, faultError).
     if \<not> faultError \<and> remain > 0 then send_rest gettid (take remain (drop n data)) (c, L)
     else Inr (c, L))))"

definition send :: "tid \<Rightarrow> bytes \<Rightarrow> ('u, 'w) conn_loop \<Rightarrow> ('u, 'w) conn_loop res" where
  "send gettid data = (\<lambda>(c, L).
     if m_state c \<noteq> kConnected then Inr (c, L)
     else conn_runInLoop gettid (SendInLoop (self c) data) (sendInLoop gettid data) (c, L))"

text \<open>The overload for a buffer empties it first.\<close>

definition send_Buffer ::
  "tid \<Rightarrow> buffer \<Rightarrow> ('u, 'w) conn_loop \<Rightarrow> (buffer \<times> ('u, 'w) conn_loop) res" where
  "send_Buffer gettid buf s =
     bindR (retrieveAllAsString buf) (\<lambda>(data, buf').
     bindR (send gettid data s) (\<lambda>s'. Inr (buf', s')))"

definition stateAtomicGetAndSet :: "conn_state \<Rightarrow> 'u tcp_connection \<Rightarrow> conn_state \<times> 'u tcp_connection" where
  "stateAtomicGetAndSet newState c = (m_state c, c\<lparr>m_state := newState\<rparr>)"

definition shutdownInLoop :: "tid \<Rightarrow> ('u, 'w) conn_loop \<Rightarrow> ('u, 'w) conn_loop res" where
  "shutdownInLoop gettid = (\<lambda>(c, L).
     assertInLoopThread (m_tid L) gettid (
     if m_state c \<noteq> kDisconnected \<and> \<not> isWriting (m_channel c)
     then Inr (c\<lparr>socket_of := (socket_of c)\<lparr>shut_wr := True\<rparr>\<rparr>, L)
     else Inr (c, L)))"

text \<open>
  \<^verbatim>\<open>shutdown\<close> and \<^verbatim>\<open>forceClose\<close> look at the state and then exchange it; another thread
  may run in between, so the second half is an operation of its own.
\<close>

definition shutdown_exchange :: "tid \<Rightarrow> ('u, 'w) conn_loop \<Rightarrow> ('u, 'w) conn_loop res" where
  "shutdown_exchange gettid = (\<lambda>(c, L).
     let (old, c) = stateAtomicGetAndSet kDisconnecting c in
     if old = kConnected then conn_runInLoop gettid (ShutdownInLoop (self c)) (shutdownInLoop gettid) (c, L)
     else Inr (c, L))"

definition shutdown :: "tid \<Rightarrow> ('u, 'w) conn_loop \<Rightarrow> ('u, 'w) conn_loop res" where
  "shutdown gettid = (\<lambda>(c, L).
     assertR (m_state c \<le> kDisconnecting) ''m_state <= kDisconnecting'' (shutdown_exchange gettid (c, L)))"

definition forceClose_exchange :: "('u, 'w) conn_loop \<Rightarrow> ('u, 'w) conn_loop" where
  "forceClose_exchange = (\<lambda>(c, L).
     let (old, c) = stateAtomicGetAndSet kDisconnecting c in
     if old \<noteq> kDisconnected then (c, queueInLoop (Closure (ForceCloseInLoop (self c))) L) else (c, L))"

definition forceClose :: "('u, 'w) conn_loop \<Rightarrow> ('u, 'w) conn_loop" where
  "forceClose = (\<lambda>(c, L). if m_state c \<noteq> kDisconnected then forceClose_exchange (c, L) else (c, L))"

definition handleClose :: "('u, 'w) conn_call \<Rightarrow> tid \<Rightarrow> ('u, 'w) conn_loop \<Rightarrow> ('u, 'w) conn_loop res" where
  "handleClose call gettid = (\<lambda>(c, L).
     assertInLoopThread (m_tid L) gettid (
     assertR (m_state c = kConnected \<or> m_state c = kDisconnecting)
       ''m_state == kConnected || m_state == kDisconnecting'' (
     bindR (conn_channel disableAll gettid (c\<lparr>m_state := kDisconnected\<rparr>, L)) (\<lambda>(c, L).
     call_conn call OnClose (m_closeCallback_conn c) (c, L)))))"

definition forceCloseInLoop :: "('u, 'w) conn_call \<Rightarrow> tid \<Rightarrow> ('u, 'w) conn_loop \<Rightarrow> ('u, 'w) conn_loop res" where
  "forceCloseInLoop call gettid = (\<lambda>(c, L).
     assertInLoopThread (m_tid L) gettid (
     if m_state c \<noteq> kDisconnected then handleClose call gettid (c, L) else Inr (c, L)))"

definition stopReadInLoop :: "tid \<Rightarrow> ('u, 'w) conn_loop \<Rightarrow> ('u, 'w) conn_loop res" where
  "stopReadInLoop gettid = (\<lambda>(c, L).
     if isReading (m_channel c) then conn_channel disableRead gettid (c, L) else Inr (c, L))"

definition stopRead :: "tid \<Rightarrow> ('u, 'w) conn_loop \<Rightarrow> ('u, 'w) conn_loop res" where
  "stopRead gettid = (\<lambda>(c, L).
     conn_runInLoop gettid (StopReadInLoop (self c)) (stopReadInLoop gettid) (c, L))"

definition startReadInLoop :: "tid \<Rightarrow> ('u, 'w) conn_loop \<Rightarrow> ('u, 'w) conn_loop res" where
  "startReadInLoop gettid = (\<lambda>(c, L).
     if \<not> isReading (m_channel c) then conn_channel enableRead gettid (c, L) else Inr (c, L))"

definition startRead :: "tid \<Rightarrow> ('u, 'w) conn_loop \<Rightarrow> ('u, 'w) conn_loop res" where
  "startRead gettid = (\<lambda>(c, L).
     conn_runInLoop gettid (StartReadInLoop (self c)) (startReadInLoop gettid) (c, L))"

section \<open>Event handlers\<close>

text \<open>\<^verbatim>\<open>handleError\<close> only logs.\<close>

definition handleError :: "('u, 'w) conn_loop \<Rightarrow> ('u, 'w) conn_loop" where
  "handleError s = s"

definition handleRead_conn :: "('u, 'w) conn_call \<Rightarrow> tid \<Rightarrow> ('u, 'w) conn_loop \<Rightarrow> ('u, 'w) conn_loop res" where
  "handleRead_conn call gettid = (\<lambda>(c, L).
     assertInLoopThread (m_tid L) gettid (
     assertR (m_state c \<noteq> kDisconnected) ''m_state != kDisconnected'' (
     let (rv, s) = sock_readv (socket_of c) in
     bindR (readFd rv (m_inputBuffer c)) (\<lambda>((n, savedErrno), ib).
     let c = c\<lparr>m_inputBuffer := ib, socket_of := s\<rparr> in
     if n = -1 then Inr (handleError (c, L))
     else if n = 0 then handleClose call gettid (c, L)
     else call_conn call OnMessage (m_messageCallback c) (c, L)))))"

definition handleWrite_conn :: "tid \<Rightarrow> ('u, 'w) conn_loop \<Rightarrow> ('u, 'w) conn_loop res" where
  "handleWrite_conn gettid = (\<lambda>(c, L).
     if m_state c = kDisconnected then Inr (c, L) else
     assertR (readableBytes (m_outputBuffer c) > 0) ''m_outputBuffer.readableBytes() > 0'' (
     assertR (isWriting (m_channel c)) ''m_channel.isWriting()'' (
     bindR (vec_read (m_buffer (m_outputBuffer c)) (peek (m_outputBuffer c)) (readableBytes (m_outputBuffer c)))
       (\<lambda>data.
     case sock_write data (socket_of c) of
       (WriteFailed e, s) \<Rightarrow> Inr (c\<lparr>socket_of := s\<rparr>, L)
     | (Wrote n, s) \<Rightarrow>
         bindR (retrieve (m_outputBuffer c) n) (\<lambda>ob.
         let c = c\<lparr>socket_of := s, m_outputBuffer := ob\<rparr> in
         if readableBytes ob = 0 then
           bindR (conn_channel disableWrite gettid (c, L)) (\<lambda>(c, L).
           bindR (if m_state c = kDisconnecting then shutdownInLoop gettid (c, L) else Inr (c, L)) (\<lambda>(c, L).
           Inr (c, queue_callback (\<lambda>u. WriteCompleteTask u (self c)) (m_writeCompleteCallback c) L)))
         else Inr (c, L))))))"

text \<open>The callbacks the constructor sets on the channel, and the dispatch of an event.\<close>

definition conn_callbacks :: "('u, 'w) conn_call \<Rightarrow> tid \<Rightarrow> ('u, 'w) conn_loop callbacks" where
  "conn_callbacks call gettid =
     setErrorCallback (\<lambda>s. Inr (handleError s))
       (setCloseCallback_ch (handleClose call gettid)
       (setWriteCallback (handleWrite_conn gettid)
       (setReadCallback (handleRead_conn call gettid) no_callbacks)))"

definition handle_conn_event :: "('u, 'w) conn_call \<Rightarrow> tid \<Rightarrow> 32 word \<Rightarrow> ('u, 'w) conn_loop \<Rightarrow> ('u, 'w) conn_loop res" where
  "handle_conn_event call gettid ev = (\<lambda>(c, L).
     handleEvents (m_tid L) gettid True (\<lambda>(c, L). m_channel c) (conn_callbacks call gettid)
       (c\<lparr>m_channel := setRevents ev (m_channel c)\<rparr>, L))"

text \<open>What running one of the connection's closures does.\<close>

fun run_net_task :: "('u, 'w) conn_call \<Rightarrow> tid \<Rightarrow> 'u net_task \<Rightarrow> ('u, 'w) conn_loop \<Rightarrow> ('u, 'w) conn_loop res" where
  "run_net_task call g (SendInLoop p data) s = sendInLoop g data s"
| "run_net_task call g (ShutdownInLoop p) s = shutdownInLoop g s"
| "run_net_task call g (ForceCloseInLoop p) s = forceCloseInLoop call g s"
| "run_net_task call g (StopReadInLoop p) s = stopReadInLoop g s"
| "run_net_task call g (StartReadInLoop p) s = startReadInLoop g s"
| "run_net_task call g (WriteCompleteTask u p) s = call OnWriteComplete u s"
| "run_net_task call g (HighWaterMarkTask u p n) s = call (OnHighWaterMark n) u s"
| "run_net_task call g (UserTask u) s = Inr s"

section \<open>Invariant\<close>

text \<open>
  The stream is what was handed to the kernel followed by what waits in the output buffer.
  An established connection has well-formed buffers; until it is closed its channel is
  registered and reading, and its output buffer is empty unless the channel waits for
  \<^verbatim>\<open>EPOLLOUT\<close>.
\<close>

definition stream :: "'u tcp_connection \<Rightarrow> bytes" where
  "stream c = sent (socket_of c) @ contents (m_outputBuffer c)"

definition conn_inv :: "'u tcp_connection \<Rightarrow> bool" where
  "conn_inv c \<longleftrightarrow> buf_inv (m_inputBuffer c) \<and> buf_inv (m_outputBuffer c) \<and> m_state c \<noteq> kConnecting
     \<and> (m_state c \<noteq> kDisconnected \<longrightarrow> polling (m_channel c) \<and> isReading (m_channel c)
          \<and> (\<not> isWriting (m_channel c) \<longrightarrow> contents (m_outputBuffer c) = []))"

text \<open>Scripts within what the kernel documents, and without errors that lose data.\<close>

definition benign :: "socket \<Rightarrow> bool" where
  "benign s \<longleftrightarrow> (\<forall>e. WriteFailed e \<in> set (write_script s) \<longrightarrow> retryable e)
     \<and> (\<forall>rv \<in> set (read_script s). readv_ok rv)"

lemma readable_empty: "buf_inv b \<Longrightarrow> readableBytes b = 0 \<longleftrightarrow> contents b = []"
  using length_contents[of b] by (metis length_0_conv)

lemma conn_channel_update:
  assumes "\<And>t g p. op t g p = set_events t g f p"
    and "polling (m_channel c) \<or> f (m_events (m_channel c)) \<noteq> 0"
  shows "\<exists>ep. conn_channel op (m_tid L) (c, L) =
    Inr (c\<lparr>m_channel := (m_channel c)\<lparr>m_events := f (m_events (m_channel c)),
            polling := f (m_events (m_channel c)) \<noteq> 0\<rparr>\<rparr>, L\<lparr>m_poller := ep\<rparr>)"
  using assms(2) by (auto simp: conn_channel_def on_channel_def assms(1) set_events_ok)

lemma conn_channel_eq_Inr:
  assumes "conn_channel op g (c, L) = Inr (c', L')" and "\<And>t g p. op t g p = set_events t g f p"
  shows "m_events (m_channel c') = f (m_events (m_channel c))"
    "polling (m_channel c') \<longleftrightarrow> f (m_events (m_channel c)) \<noteq> 0"
    "c' = c\<lparr>m_channel := m_channel c'\<rparr>" "\<exists>ep. L' = L\<lparr>m_poller := ep\<rparr>" "m_tid L = g"
proof -
  from assms(1) obtain ep ch where s: "set_events (m_tid L) g f (m_poller L, m_channel c) = Inr (ep, ch)"
    and eq: "c' = c\<lparr>m_channel := ch\<rparr>" "L' = L\<lparr>m_poller := ep\<rparr>"
    by (auto simp: conn_channel_def on_channel_def assms(2) res_iffs)
  note fr = set_events_frame[OF s]
  show "m_events (m_channel c') = f (m_events (m_channel c))"
    "polling (m_channel c') \<longleftrightarrow> f (m_events (m_channel c)) \<noteq> 0" "m_tid L = g"
    using fr(1,5,7) by (simp_all add: eq)
  show "c' = c\<lparr>m_channel := m_channel c'\<rparr>" by (simp add: eq)
  show "\<exists>ep. L' = L\<lparr>m_poller := ep\<rparr>" using eq by blast
qed

lemma word_or_and_keeps: "(e AND b) \<noteq> 0 \<Longrightarrow> ((e OR x) AND b) \<noteq> (0 :: 32 word)"
  by (simp add: bit.conj_disj_distrib2 or_eq_0_iff)

lemma sock_write_cases:
  assumes "sock_write data s = (r, s')"
  obtains (fails) e where "r = WriteFailed e" "sent s' = sent s" "set (write_script s') \<subseteq> set (write_script s)"
      "read_script s' = read_script s" "benign s \<Longrightarrow> retryable e"
  | (writes) n where "r = Wrote n" "n \<le> length data" "sent s' = sent s @ take n data"
      "set (write_script s') \<subseteq> set (write_script s)" "read_script s' = read_script s"
proof (cases "write_script s")
  case Nil
  show thesis
  proof (cases "data = []")
    case True
    with assms Nil show thesis by (intro writes[of 0]) (simp_all add: sock_write_def)
  next
    case False
    with assms Nil show thesis by (intro fails[of EAGAIN]) (auto simp: sock_write_def retryable_def)
  qed
next
  case (Cons a rs)
  show thesis
  proof (cases a)
    case (Wrote k)
    with assms Cons show thesis
      by (intro writes[of "min k (length data)"]) (auto simp: sock_write_def Let_def)
  next
    case (WriteFailed e)
    with assms Cons show thesis
      by (intro fails[of e]) (auto simp: sock_write_def benign_def)
  qed
qed

lemma sock_write_benign: "sock_write data s = (r, s') \<Longrightarrow> benign s \<Longrightarrow> benign s'"
  by (erule sock_write_cases) (auto simp: benign_def)

lemma sock_readv_frame:
  "sock_readv s = (rv, s') \<Longrightarrow> benign s \<Longrightarrow>
     sent s' = sent s \<and> benign s' \<and> readv_ok rv"
  by (auto simp: sock_readv_def benign_def readv_ok_def split: list.splits)

section \<open>Sending\<close>

text \<open>
  What the one \<^verbatim>\<open>write\<close> of \<^verbatim>\<open>sendInLoop\<close> does: how much was taken, and whether the
  data are given up. The tasks queued: the write-complete callback when everything went out
  at once, the high-water mark's when the buffered amount crosses the mark.
\<close>

definition write_outcome :: "'u tcp_connection \<Rightarrow> bytes \<Rightarrow> nat \<times> bool" where
  "write_outcome c data =
     (if isWriting (m_channel c) then (0, False)
      else case fst (sock_write data (socket_of c)) of
        Wrote n \<Rightarrow> (n, False) | WriteFailed e \<Rightarrow> (0, \<not> retryable e))"

definition completes :: "'u tcp_connection \<Rightarrow> bytes \<Rightarrow> bool" where
  "completes c data \<longleftrightarrow> \<not> isWriting (m_channel c) \<and> fst (sock_write data (socket_of c)) = Wrote (length data)"

definition crosses_mark :: "'u tcp_connection \<Rightarrow> bytes \<Rightarrow> bool" where
  "crosses_mark c data \<longleftrightarrow>
     (let (n, lost) = write_outcome c data; old = length (contents (m_outputBuffer c)) in
      \<not> lost \<and> n < length data \<and> old < m_highWaterMark c \<and> m_highWaterMark c \<le> old + (length data - n))"

fun opt_task :: "bool \<Rightarrow> ('u \<Rightarrow> 'u net_task) \<Rightarrow> 'u option \<Rightarrow> 'u net_task task list" where
  "opt_task True mk (Some u) = [Closure (mk u)]"
| "opt_task _ _ _ = []"

lemma queue_callback_frame:
  "m_pendingTasks (queue_callback mk cb L) = m_pendingTasks L @ opt_task True mk cb"
  "m_tid (queue_callback mk cb L) = m_tid L" "m_poller (queue_callback mk cb L) = m_poller L"
  "event_loop.more (queue_callback mk cb L) = event_loop.more L"
  by (cases cb, simp_all add: queue_callback_def queueInLoop_def wakeup_def)+

lemma queue_callback_if:
  "m_pendingTasks (if b then queue_callback mk cb L else L) = m_pendingTasks L @ opt_task b mk cb"
  by (cases b; cases cb) (simp_all add: queue_callback_frame)

lemma append_fits_mono: "append_fits b n \<Longrightarrow> m \<le> n \<Longrightarrow> append_fits b m"
  by (auto simp: append_fits_def)

lemma EPOLLOUT_nonzero [simp]: "EPOLLOUT \<noteq> 0"
  by (simp add: epoll_bits)

lemma or_EPOLLOUT: "e OR EPOLLOUT \<noteq> 0" "(e OR EPOLLOUT) AND EPOLLOUT \<noteq> 0"
proof -
  have "(e OR EPOLLOUT) AND EPOLLOUT = EPOLLOUT" by (rule bit_word_eqI) (auto simp: bit_simps)
  then show "(e OR EPOLLOUT) AND EPOLLOUT \<noteq> 0" by (simp add: epoll_bits)
  then show "e OR EPOLLOUT \<noteq> 0" by (auto simp: or_eq_0_iff)
qed

lemma buffer_rest_ok:
  assumes inv: "buf_inv (m_outputBuffer c)" and fits: "length rest \<le> vec_max_size"
    "append_fits (m_outputBuffer c) (length rest)"
  obtains c' ep where
    "bindR (append_Buffer (m_outputBuffer c) rest) (\<lambda>ob. conn_channel enableWrite (m_tid L) (c\<lparr>m_outputBuffer := ob\<rparr>, L))
       = Inr (c', L\<lparr>m_poller := ep\<rparr>)"
    "buf_inv (m_outputBuffer c')" "contents (m_outputBuffer c') = contents (m_outputBuffer c) @ rest"
    "isWriting (m_channel c')" "isReading (m_channel c) \<longrightarrow> isReading (m_channel c')"
    "polling (m_channel c')" "m_state c' = m_state c" "m_inputBuffer c' = m_inputBuffer c"
    "socket_of c' = socket_of c"
proof -
  from append_Buffer_ok[OF inv fits] obtain ob where ob: "append_Buffer (m_outputBuffer c) rest = Inr ob"
    "buf_inv ob" "contents ob = contents (m_outputBuffer c) @ rest" by blast
  let ?c = "c\<lparr>m_outputBuffer := ob\<rparr>" and ?f = "\<lambda>e. e OR EPOLLOUT"
  have "polling (m_channel ?c) \<or> ?f (m_events (m_channel ?c)) \<noteq> 0" using or_EPOLLOUT by blast
  from conn_channel_update[of enableWrite ?f, OF channel_ops_set_events(2) this, of L] obtain ep where
    ep: "conn_channel enableWrite (m_tid L) (?c, L) = Inr (?c\<lparr>m_channel := (m_channel ?c)\<lparr>
        m_events := ?f (m_events (m_channel ?c)), polling := ?f (m_events (m_channel ?c)) \<noteq> 0\<rparr>\<rparr>, L\<lparr>m_poller := ep\<rparr>)"
    by blast
  let ?c' = "?c\<lparr>m_channel := (m_channel ?c)\<lparr>m_events := ?f (m_events (m_channel ?c)),
    polling := ?f (m_events (m_channel ?c)) \<noteq> 0\<rparr>\<rparr>"
  from ob ep show thesis
    by (intro that[of ?c' ep]) (simp_all add: isWriting_def isReading_def or_EPOLLOUT word_or_and_keeps)
qed

definition send_spec :: "'u tcp_connection \<Rightarrow> bytes \<Rightarrow> ('u net_task, 'w) event_loop_scheme
    \<Rightarrow> 'u tcp_connection \<Rightarrow> ('u net_task, 'w) event_loop_scheme \<Rightarrow> bool" where
  "send_spec c data L c' L' \<longleftrightarrow>
     (let (n, lost) = write_outcome c data in
        sent (socket_of c') = sent (socket_of c) @ take n data
      \<and> contents (m_outputBuffer c') = contents (m_outputBuffer c) @ (if lost then [] else drop n data)
      \<and> (isWriting (m_channel c') \<longleftrightarrow> isWriting (m_channel c) \<or> \<not> lost \<and> n < length data)
      \<and> m_pendingTasks L' = m_pendingTasks L
          @ opt_task (completes c data) (\<lambda>u. WriteCompleteTask u (self c)) (m_writeCompleteCallback c)
          @ opt_task (crosses_mark c data) (\<lambda>u. HighWaterMarkTask u (self c)
              (length (contents (m_outputBuffer c)) + (length data - n))) (m_highWaterMarkCallback c))
      \<and> m_state c' = m_state c \<and> m_inputBuffer c' = m_inputBuffer c"

definition rest_spec :: "'u tcp_connection \<Rightarrow> bytes \<Rightarrow> ('u net_task, 'w) event_loop_scheme
    \<Rightarrow> 'u tcp_connection \<Rightarrow> ('u net_task, 'w) event_loop_scheme \<Rightarrow> bool" where
  "rest_spec c rest L c' L' \<longleftrightarrow>
     buf_inv (m_outputBuffer c') \<and> contents (m_outputBuffer c') = contents (m_outputBuffer c) @ rest
     \<and> isWriting (m_channel c') \<and> (isReading (m_channel c) \<longrightarrow> isReading (m_channel c')) \<and> polling (m_channel c')
     \<and> m_state c' = m_state c \<and> m_inputBuffer c' = m_inputBuffer c \<and> socket_of c' = socket_of c
     \<and> m_pendingTasks L' = m_pendingTasks L
         @ opt_task (length (contents (m_outputBuffer c)) < m_highWaterMark c
              \<and> m_highWaterMark c \<le> length (contents (m_outputBuffer c)) + length rest)
             (\<lambda>u. HighWaterMarkTask u (self c) (length (contents (m_outputBuffer c)) + length rest))
             (m_highWaterMarkCallback c)
     \<and> event_loop.more L' = event_loop.more L"

lemma send_rest_eval:
  assumes inv: "buf_inv (m_outputBuffer c)"
    and rest: "length rest \<le> vec_max_size" "append_fits (m_outputBuffer c) (length rest)"
  obtains c' L' where "send_rest (m_tid L) rest (c, L) = Inr (c', L')" "rest_spec c rest L c' L'"
proof -
  let ?old = "length (contents (m_outputBuffer c))"
  have old: "readableBytes (m_outputBuffer c) = ?old" using length_contents[OF inv] by simp
  have "?old < 2 ^ 63" using buf_invD[OF inv] old readable_eq[OF inv] by simp
  moreover have "length rest < 2 ^ 63" using rest(1) by (simp add: buf_defs)
  ultimately have new: "size_add ?old (length rest) = ?old + length rest" by (simp add: sz_simps)
  define L1 where "L1 = (if ?old < m_highWaterMark c \<and> m_highWaterMark c \<le> ?old + length rest
    then queue_callback (\<lambda>u. HighWaterMarkTask u (self c) (?old + length rest)) (m_highWaterMarkCallback c) L else L)"
  have L1: "m_tid L1 = m_tid L" "event_loop.more L1 = event_loop.more L"
    "m_pendingTasks L1 = m_pendingTasks L @ opt_task (?old < m_highWaterMark c \<and> m_highWaterMark c \<le> ?old + length rest)
       (\<lambda>u. HighWaterMarkTask u (self c) (?old + length rest)) (m_highWaterMarkCallback c)"
    by (simp_all add: L1_def queue_callback_frame queue_callback_if)
  obtain c' ep where c': "bindR (append_Buffer (m_outputBuffer c) rest)
        (\<lambda>ob. conn_channel enableWrite (m_tid L1) (c\<lparr>m_outputBuffer := ob\<rparr>, L1)) = Inr (c', L1\<lparr>m_poller := ep\<rparr>)"
    and spec: "buf_inv (m_outputBuffer c')" "contents (m_outputBuffer c') = contents (m_outputBuffer c) @ rest"
    "isWriting (m_channel c')" "isReading (m_channel c) \<longrightarrow> isReading (m_channel c')"
    "polling (m_channel c')" "m_state c' = m_state c" "m_inputBuffer c' = m_inputBuffer c"
    "socket_of c' = socket_of c"
    by (rule buffer_rest_ok[OF inv rest, of L1])
  have "send_rest (m_tid L) rest (c, L) = Inr (c', L1\<lparr>m_poller := ep\<rparr>)"
    using c' unfolding send_rest_def Let_def old new split L1_def[symmetric] L1(1) by simp
  with spec L1 show thesis by (intro that[of c' "L1\<lparr>m_poller := ep\<rparr>"]) (simp_all add: rest_spec_def)
qed

lemma sendInLoop_ok:
  assumes inv: "conn_inv c" and st: "m_state c \<noteq> kDisconnected"
    and fits: "length data \<le> vec_max_size" "append_fits (m_outputBuffer c) (length data)"
  shows "\<exists>c' L'. sendInLoop (m_tid L) data (c, L) = Inr (c', L') \<and> send_spec c data L c' L' \<and> conn_inv c'
    \<and> event_loop.more L' = event_loop.more L"
proof -
  note defs = sendInLoop_def send_spec_def write_outcome_def completes_def crosses_mark_def
    conn_inv_def rest_spec_def Let_def
  have bi: "buf_inv (m_outputBuffer c)" using inv by (simp add: conn_inv_def)
  show ?thesis
  proof (cases "isWriting (m_channel c)")
    case w: True
    show ?thesis
    proof (cases "data = []")
      case True
      with w st inv show ?thesis
        by (intro exI[of _ c] exI[of _ L]) (simp add: defs)
    next
      case False
      obtain c' L' where "send_rest (m_tid L) data (c, L) = Inr (c', L')" "rest_spec c data L c' L'"
        by (rule send_rest_eval[OF bi fits])
      with w st inv False show ?thesis
        by (intro exI[of _ c'] exI[of _ L']) (simp add: defs)
    qed
  next
    case nw: False
    with inv st have empty: "contents (m_outputBuffer c) = []" "readableBytes (m_outputBuffer c) = 0"
      using readable_empty[OF bi] by (simp_all add: conn_inv_def)
    obtain r s where w: "sock_write data (socket_of c) = (r, s)" by fastforce
    let ?c = "c\<lparr>socket_of := s\<rparr>"
    have bi': "buf_inv (m_outputBuffer ?c)" using bi by simp
    from w show ?thesis
    proof (cases rule: sock_write_cases)
      case (fails e)
      show ?thesis
      proof (cases "retryable e \<and> data \<noteq> []")
        case True
        have "append_fits (m_outputBuffer ?c) (length data)" using fits(2) by simp
        from send_rest_eval[OF bi' fits(1) this, of L] obtain c' L' where
          "send_rest (m_tid L) data (?c, L) = Inr (c', L')" "rest_spec ?c data L c' L'" .
        with w fails True nw st inv empty show ?thesis
          by (intro exI[of _ c'] exI[of _ L']) (simp add: defs)
      next
        case False
        with w fails nw st inv empty show ?thesis
          by (intro exI[of _ ?c] exI[of _ L]) (auto simp: defs)
      qed
    next
      case (writes n)
      show ?thesis
      proof (cases "n = length data")
        case True
        with w writes nw st inv empty show ?thesis
          by (intro exI[of _ ?c] exI[of _ "queue_callback (\<lambda>u. WriteCompleteTask u (self c)) (m_writeCompleteCallback c) L"])
            (auto simp: defs queue_callback_frame)
      next
        case False
        then have n: "n < length data" using writes(2) by simp
        have "length (drop n data) \<le> vec_max_size" "append_fits (m_outputBuffer ?c) (length (drop n data))"
          using fits append_fits_mono[OF fits(2)] by simp_all
        from send_rest_eval[OF bi' this, of L] obtain c' L' where
          "send_rest (m_tid L) (drop n data) (?c, L) = Inr (c', L')" "rest_spec ?c (drop n data) L c' L'" .
        with w writes n nw st inv empty show ?thesis
          by (intro exI[of _ c'] exI[of _ L']) (simp add: defs)
      qed
    qed
  qed
qed

section \<open>The client contract\<close>

text \<open>
  \<open>conn_ok K\<close> is what an established connection maintains: its own invariant, a socket
  that behaves, a close callback that is set, and a relation \<open>K\<close> between its address, that
  callback, being closed, the stream and the extension of the loop, where clients keep their
  state. A client may be
  called back while \<open>K\<close> holds and must restore it; when the close callback is called, the
  connection is closed but \<open>K\<close> need not know yet (\<open>K'\<close>).
\<close>

definition conn_ok :: "(addr \<Rightarrow> 'u \<Rightarrow> bool \<Rightarrow> bytes \<Rightarrow> 'w \<Rightarrow> bool) \<Rightarrow> ('u, 'w) conn_loop \<Rightarrow> bool" where
  "conn_ok K s \<longleftrightarrow> conn_inv (fst s) \<and> benign (socket_of (fst s)) \<and> m_closeCallback_conn (fst s) \<noteq> None
     \<and> K (self (fst s)) (the (m_closeCallback_conn (fst s))) (m_state (fst s) = kDisconnected) (stream (fst s))
         (event_loop.more (snd s))"

lemma send_rest_Inr:
  assumes inv: "buf_inv (m_outputBuffer c)" and ok: "send_rest g rest (c, L) = Inr (c', L')"
  shows "\<exists>ob ch. c' = c\<lparr>m_outputBuffer := ob, m_channel := ch\<rparr> \<and> buf_inv ob
     \<and> contents ob = contents (m_outputBuffer c) @ rest \<and> isWriting ch \<and> polling ch
     \<and> (isReading (m_channel c) \<longrightarrow> isReading ch)
     \<and> event_loop.more L' = event_loop.more L"
proof -
  have "\<exists>L1. event_loop.more L1 = event_loop.more L
     \<and> bindR (append_Buffer (m_outputBuffer c) rest)
         (\<lambda>ob. conn_channel enableWrite g (c\<lparr>m_outputBuffer := ob\<rparr>, L1)) = Inr (c', L')"
    by (intro exI conjI[rotated], rule ok[unfolded send_rest_def Let_def split])
      (simp add: queue_callback_frame)
  then obtain ob L1 where ob: "append_Buffer (m_outputBuffer c) rest = Inr ob"
    and L1: "event_loop.more L1 = event_loop.more L"
    and ch: "conn_channel enableWrite g (c\<lparr>m_outputBuffer := ob\<rparr>, L1) = Inr (c', L')"
    unfolding bindR_eq_Inr by blast
  note fr = conn_channel_eq_Inr[OF ch channel_ops_set_events(2)]
  have "isWriting (m_channel c')" "polling (m_channel c')"
    "isReading (m_channel c) \<longrightarrow> isReading (m_channel c')"
    using fr(1,2) or_EPOLLOUT by (auto simp: isWriting_def isReading_def word_or_and_keeps)
  with append_Buffer_cases[OF inv ob] fr(3,4) L1 show ?thesis
    by (intro exI[of _ ob] exI[of _ "m_channel c'"]) auto
qed

lemma sendInLoop_Inr:
  assumes inv: "conn_inv c" "benign (socket_of c)" and ok: "sendInLoop g data (c, L) = Inr (c', L')"
  shows "conn_inv c' \<and> benign (socket_of c') \<and> m_state c' = m_state c
    \<and> m_closeCallback_conn c' = m_closeCallback_conn c \<and> self c' = self c
    \<and> stream c' = stream c @ (if m_state c = kDisconnected then [] else data)
    \<and> event_loop.more L' = event_loop.more L"
proof (cases "m_state c = kDisconnected")
  case True
  with inv ok show ?thesis by (simp add: sendInLoop_def assertInLoopThread_eq_Inr)
next
  case st: False
  have bi: "buf_inv (m_outputBuffer c)" using inv by (simp add: conn_inv_def)
  show ?thesis
  proof (cases "isWriting (m_channel c)")
    case w: True
    show ?thesis
    proof (cases "data = []")
      case True
      with w st inv ok show ?thesis by (simp add: sendInLoop_def assertInLoopThread_eq_Inr)
    next
      case False
      with w st ok have "send_rest g data (c, L) = Inr (c', L')"
        by (simp add: sendInLoop_def assertInLoopThread_eq_Inr)
      from send_rest_Inr[OF bi this] inv st show ?thesis
        by (auto simp: conn_inv_def stream_def)
    qed
  next
    case nw: False
    with inv st have empty: "contents (m_outputBuffer c) = []" "readableBytes (m_outputBuffer c) = 0"
      using readable_empty[OF bi] by (simp_all add: conn_inv_def)
    obtain r s where w: "sock_write data (socket_of c) = (r, s)" by fastforce
    let ?c = "c\<lparr>socket_of := s\<rparr>"
    note b = sock_write_benign[OF w inv(2)]
    have bi': "buf_inv (m_outputBuffer ?c)" using bi by simp
    from w show ?thesis
    proof (cases rule: sock_write_cases)
      case (fails e)
      show ?thesis
      proof (cases "data = []")
        case True
        with w fails nw st inv ok empty b show ?thesis
          by (auto simp: sendInLoop_def assertInLoopThread_eq_Inr stream_def conn_inv_def)
      next
        case False
        with w fails(1) fails(5)[OF inv(2)] nw st ok empty have "send_rest g data (?c, L) = Inr (c', L')"
          by (simp add: sendInLoop_def assertInLoopThread_eq_Inr)
        from send_rest_Inr[OF bi' this] inv st b fails(2) show ?thesis
          by (auto simp: conn_inv_def stream_def)
      qed
    next
      case (writes n)
      show ?thesis
      proof (cases "n = length data")
        case True
        with w writes nw st inv ok empty b show ?thesis
          by (auto simp: sendInLoop_def assertInLoopThread_eq_Inr stream_def conn_inv_def queue_callback_frame)
      next
        case False
        with w writes nw st ok empty have "send_rest g (drop n data) (?c, L) = Inr (c', L')"
          by (simp add: sendInLoop_def assertInLoopThread_eq_Inr)
        from send_rest_Inr[OF bi' this] inv st b writes(3) empty show ?thesis
          by (auto simp: conn_inv_def stream_def)
      qed
    qed
  qed
qed

text \<open>Operations that neither close the connection nor add to its stream.\<close>

definition unchanged :: "('u, 'w) conn_loop \<Rightarrow> ('u, 'w) conn_loop \<Rightarrow> bool" where
  "unchanged s s' \<longleftrightarrow> conn_inv (fst s') \<and> benign (socket_of (fst s'))
     \<and> (m_state (fst s') = kDisconnected \<longleftrightarrow> m_state (fst s) = kDisconnected)
     \<and> m_closeCallback_conn (fst s') = m_closeCallback_conn (fst s) \<and> self (fst s') = self (fst s)
     \<and> stream (fst s') = stream (fst s) \<and> event_loop.more (snd s') = event_loop.more (snd s)"

lemma unchanged_ok: "conn_ok K s \<Longrightarrow> unchanged s s' \<Longrightarrow> conn_ok K s'"
  by (simp add: conn_ok_def unchanged_def)

lemma unchanged_refl: "conn_inv (fst s) \<Longrightarrow> benign (socket_of (fst s)) \<Longrightarrow> unchanged s s"
  by (simp add: unchanged_def)

lemma interest_unchanged:
  assumes inv: "conn_inv c" "benign (socket_of c)" and ok: "conn_channel op g (c, L) = Inr (c', L')"
    and op: "\<And>t g p. op t g p = set_events t g (\<lambda>e. e OR x) p"
  shows "unchanged (c, L) (c', L')"
proof -
  note fr = conn_channel_eq_Inr[OF ok op]
  obtain ch where c': "c' = c\<lparr>m_channel := ch\<rparr>" using fr(3) by blast
  then have ch: "m_events ch = m_events (m_channel c) OR x" "polling ch \<longleftrightarrow> m_events ch \<noteq> 0"
    using fr(1,2) by simp_all
  then have "isReading (m_channel c) \<longrightarrow> isReading ch \<and> polling ch" "isWriting (m_channel c) \<longrightarrow> isWriting ch"
    using word_or_and_keeps[of "m_events (m_channel c)" _ x] by (auto simp: isReading_def isWriting_def)
  moreover obtain ep where "L' = L\<lparr>m_poller := ep\<rparr>" using fr(4) by blast
  ultimately show ?thesis using inv by (auto simp: c' unchanged_def conn_inv_def stream_def)
qed

lemma stopReadInLoop_unchanged:
  "conn_inv c \<Longrightarrow> benign (socket_of c) \<Longrightarrow> stopReadInLoop g (c, L) = Inr (c', L') \<Longrightarrow> unchanged (c, L) (c', L')"
  using interest_unchanged[OF _ _ _ channel_ops_set_events(3)] unchanged_refl[of "(c, L)"]
  by (auto simp: stopReadInLoop_def split: if_splits)

lemma startReadInLoop_unchanged:
  "conn_inv c \<Longrightarrow> benign (socket_of c) \<Longrightarrow> startReadInLoop g (c, L) = Inr (c', L') \<Longrightarrow> unchanged (c, L) (c', L')"
  using interest_unchanged[OF _ _ _ channel_ops_set_events(1)] unchanged_refl[of "(c, L)"]
  by (auto simp: startReadInLoop_def split: if_splits)

lemma shutdownInLoop_unchanged:
  "conn_inv c \<Longrightarrow> benign (socket_of c) \<Longrightarrow> shutdownInLoop g (c, L) = Inr (c', L') \<Longrightarrow> unchanged (c, L) (c', L')"
  by (auto simp: shutdownInLoop_def assertInLoopThread_eq_Inr unchanged_def conn_inv_def benign_def stream_def
      split: if_splits)

lemma unchanged_trans: "unchanged s s' \<Longrightarrow> unchanged s' s'' \<Longrightarrow> unchanged s s''"
  by (simp add: unchanged_def)

lemma unchangedD: "unchanged (c, L) (c', L') \<Longrightarrow> conn_inv c' \<and> benign (socket_of c')"
  by (simp add: unchanged_def)

lemma unchanged_queue_callback: "unchanged s (c, L) \<Longrightarrow> unchanged s (c, queue_callback mk cb L)"
  by (simp add: unchanged_def queue_callback_frame)

lemma handleWrite_conn_unchanged:
  assumes inv: "conn_inv c" "benign (socket_of c)" and ok: "handleWrite_conn g (c, L) = Inr (c', L')"
  shows "unchanged (c, L) (c', L')"
proof (cases "m_state c = kDisconnected")
  case True
  with ok inv show ?thesis by (simp add: handleWrite_conn_def unchanged_refl)
next
  case st: False
  let ?ob = "m_outputBuffer c"
  have bi: "buf_inv ?ob" using inv by (simp add: conn_inv_def)
  obtain r s where w: "sock_write (contents ?ob) (socket_of c) = (r, s)" by fastforce
  note b = sock_write_benign[OF w inv(2)]
  from w show ?thesis
  proof (cases rule: sock_write_cases)
    case (fails e)
    with w ok st inv b have "c' = c\<lparr>socket_of := s\<rparr>" "L' = L"
      by (auto simp: handleWrite_conn_def readable_range[OF bi] res_iffs)
    with fails inv b show ?thesis by (auto simp: unchanged_def conn_inv_def stream_def)
  next
    case (writes n)
    then have "n \<le> readableBytes ?ob" using length_contents[OF bi] by simp
    from retrieve_ok[OF bi this] obtain ob where ob: "retrieve ?ob n = Inr ob" "buf_inv ob"
      "contents ob = drop n (contents ?ob)" by blast
    let ?c = "c\<lparr>socket_of := s, m_outputBuffer := ob\<rparr>"
    have wr: "isWriting (m_channel c)" using ok st by (auto simp: handleWrite_conn_def res_iffs)
    have u: "unchanged (c, L) (?c, L)"
      using inv b writes(3) ob(2,3) wr by (auto simp: unchanged_def conn_inv_def stream_def)
    show ?thesis
    proof (cases "readableBytes ob = 0")
      case False
      with ok st w writes(1) ob(1) have "c' = ?c" "L' = L"
        by (auto simp: handleWrite_conn_def readable_range[OF bi] res_iffs Let_def)
      with u show ?thesis by simp
    next
      case True
      with ok st w writes(1) ob(1) obtain c1 L1 c2 L2 where
        1: "conn_channel disableWrite g (?c, L) = Inr (c1, L1)"
        and 2: "(if m_state c1 = kDisconnecting then shutdownInLoop g (c1, L1) else Inr (c1, L1)) = Inr (c2, L2)"
        and 3: "c' = c2" "L' = queue_callback (\<lambda>u. WriteCompleteTask u (self c2)) (m_writeCompleteCallback c2) L2"
        by (auto simp: handleWrite_conn_def readable_range[OF bi] bindR_eq_Inr assertR_eq_Inr Let_def)
      have u1: "unchanged (?c, L) (c1, L1)"
        using interest_unchanged[OF _ _ 1 channel_ops_set_events(4)] unchangedD[OF u] by simp
      have "unchanged (c1, L1) (c2, L2)"
        using 2 unchangedD[OF u1] shutdownInLoop_unchanged unchanged_refl[of "(c1, L1)"]
        by (auto split: if_splits)
      with u u1 have "unchanged (c, L) (c2, L2)" by (blast intro: unchanged_trans)
      then show ?thesis by (simp add: 3 unchanged_queue_callback)
    qed
  qed
qed

lemma forceClose_unchanged:
  "conn_inv c \<Longrightarrow> benign (socket_of c) \<Longrightarrow> unchanged (c, L) (forceClose (c, L))"
  by (auto simp: forceClose_def forceClose_exchange_def stateAtomicGetAndSet_def unchanged_def conn_inv_def
      stream_def queueInLoop_def wakeup_def)

lemma shutdown_unchanged:
  assumes inv: "conn_inv c" "benign (socket_of c)" and ok: "shutdown g (c, L) = Inr (c', L')"
  shows "unchanged (c, L) (c', L')"
proof -
  let ?c = "c\<lparr>m_state := kDisconnecting\<rparr>"
  have st: "m_state c \<noteq> kDisconnected" using ok by (auto simp: shutdown_def res_iffs)
  with inv have u: "unchanged (c, L) (?c, L)" by (auto simp: unchanged_def conn_inv_def stream_def)
  from ok st consider "shutdownInLoop g (?c, L) = Inr (c', L')"
    | "c' = ?c" "L' = L \<or> L' = queueInLoop (Closure (ShutdownInLoop (self c))) L"
    by (auto simp: shutdown_def shutdown_exchange_def stateAtomicGetAndSet_def conn_runInLoop_def split: if_splits)
  then show ?thesis
  proof cases
    case 1
    from shutdownInLoop_unchanged[OF _ _ 1] unchangedD[OF u] u show ?thesis
      by (blast intro: unchanged_trans)
  next
    case 2
    with u show ?thesis by (auto simp: unchanged_def queueInLoop_def wakeup_def)
  qed
qed

lemma handleEvents_keeps:
  assumes "\<And>f s s'. f \<in> {g. Some g \<in> {m_closeCallback cbs, m_errorCallback cbs, m_readCallback cbs, m_writeCallback cbs}}
      \<Longrightarrow> P s \<Longrightarrow> f s = Inr s' \<Longrightarrow> P s'"
    and "handleEvents t g alive ch cbs s = Inr s'" and "P s"
  shows "P s'"
proof -
  have step: "P b" if "cb \<in> {m_closeCallback cbs, m_errorCallback cbs, m_readCallback cbs, m_writeCallback cbs}"
    "call_if x cb a = Inr b" "P a" for x cb a b
    using that assms(1) by (auto simp: call_if_def split: if_splits option.splits)
  have "P s'" if guarded: "handleEventsWithGuard ch cbs s = Inr s'"
  proof -
    from guarded obtain b1 b2 b3 b4 s1 s2 s3 where
      "call_if b1 (m_closeCallback cbs) s = Inr s1" "call_if b2 (m_errorCallback cbs) s1 = Inr s2"
      "call_if b3 (m_readCallback cbs) s2 = Inr s3" "call_if b4 (m_writeCallback cbs) s3 = Inr s'"
      unfolding handleEventsWithGuard_def bindR_eq_Inr by metis
    from step[OF _ this(4) step[OF _ this(3) step[OF _ this(2) step[OF _ this(1) assms(3)]]]]
    show ?thesis by simp
  qed
  with assms(2,3) show ?thesis
    by (auto simp: handleEvents_def assertInLoopThread_eq_Inr split: if_splits)
qed

locale conn_client =
  fixes call :: "('u, 'w) conn_call" and K K' :: "addr \<Rightarrow> 'u \<Rightarrow> bool \<Rightarrow> bytes \<Rightarrow> 'w \<Rightarrow> bool"
  assumes call_keeps: "ev \<noteq> OnClose \<Longrightarrow> conn_ok K s \<Longrightarrow> call ev u s = Inr s' \<Longrightarrow> conn_ok K s'"
    and close_keeps: "conn_ok K' s \<Longrightarrow> m_closeCallback_conn (fst s) = Some u
          \<Longrightarrow> call OnClose u s = Inr s' \<Longrightarrow> conn_ok K s'"
    and closing: "K p u False str w \<Longrightarrow> K' p u True str w"
begin

lemma handleClose_keeps:
  assumes ok: "conn_ok K (c, L)" and h: "handleClose call g (c, L) = Inr s'"
  shows "conn_ok K s'"
proof -
  from h obtain c1 L1 where st: "m_state c = kConnected \<or> m_state c = kDisconnecting"
    and ch: "conn_channel disableAll g (c\<lparr>m_state := kDisconnected\<rparr>, L) = Inr (c1, L1)"
    and call: "call_conn call OnClose (m_closeCallback_conn c1) (c1, L1) = Inr s'"
    by (auto simp: handleClose_def res_iffs assertInLoopThread_eq_Inr)
  note fr = conn_channel_eq_Inr[OF ch channel_ops_set_events(5)]
  obtain ch1 ep where c1: "c1 = c\<lparr>m_state := kDisconnected, m_channel := ch1\<rparr>" and L1: "L1 = L\<lparr>m_poller := ep\<rparr>"
    using fr(3,4) by fastforce
  have K': "K' (self c) (the (m_closeCallback_conn c)) True (stream c) (event_loop.more L)"
    using ok st by (intro closing) (auto simp: conn_ok_def)
  have "conn_ok K' (c1, L1)"
    using ok K' by (simp add: conn_ok_def c1 L1 conn_inv_def stream_def)
  moreover obtain u where "m_closeCallback_conn c1 = Some u" using ok by (auto simp: conn_ok_def c1)
  ultimately show ?thesis using call close_keeps by (simp add: call_conn_def)
qed

lemma handleRead_conn_keeps:
  assumes ok: "conn_ok K (c, L)" and h: "handleRead_conn call g (c, L) = Inr s'"
  shows "conn_ok K s'"
proof -
  obtain rv s where rv: "sock_readv (socket_of c) = (rv, s)" by fastforce
  have fr: "sent s = sent (socket_of c)" "benign s" "readv_ok rv"
    using sock_readv_frame[OF rv] ok by (simp_all add: conn_ok_def)
  have bi: "buf_inv (m_inputBuffer c)" using ok by (simp add: conn_ok_def conn_inv_def)
  from h rv obtain n e ib where rd: "readFd rv (m_inputBuffer c) = Inr ((n, e), ib)"
    and next_step: "(let c = c\<lparr>m_inputBuffer := ib, socket_of := s\<rparr> in
       if n = -1 then Inr (handleError (c, L))
       else if n = 0 then handleClose call g (c, L)
       else call_conn call OnMessage (m_messageCallback c) (c, L)) = Inr s'"
    unfolding handleRead_conn_def by (auto simp only: split assertInLoopThread_eq_Inr assertR_eq_Inr bindR_eq_Inr Let_def)
  have "buf_inv ib" using readFd_cases[OF bi fr(3)] rd by simp
  with ok fr have ok': "conn_ok K (c\<lparr>m_inputBuffer := ib, socket_of := s\<rparr>, L)"
    by (simp add: conn_ok_def conn_inv_def stream_def)
  show ?thesis
    using next_step ok' handleClose_keeps[OF ok'] call_keeps[OF _ ok', of OnMessage]
    by (auto simp: call_conn_def handleError_def Let_def split: if_splits option.splits)
qed

lemma handleWrite_conn_keeps:
  assumes "conn_ok K s" and "handleWrite_conn g s = Inr s'"
  shows "conn_ok K s'"
  using assms handleWrite_conn_unchanged[of "fst s" g "snd s" "fst s'" "snd s'"]
  by (auto simp: conn_ok_def[of _ s] intro: unchanged_ok[OF assms(1)])

lemma handle_conn_event_keeps:
  assumes ok: "conn_ok K (c, L)" and h: "handle_conn_event call g ev (c, L) = Inr s'"
  shows "conn_ok K s'"
proof (rule handleEvents_keeps[where P = "conn_ok K"])
  show "handleEvents (m_tid L) g True (\<lambda>(c, L). m_channel c) (conn_callbacks call g)
       (c\<lparr>m_channel := setRevents ev (m_channel c)\<rparr>, L) = Inr s'"
    using h by (simp add: handle_conn_event_def)
  show "conn_ok K (c\<lparr>m_channel := setRevents ev (m_channel c)\<rparr>, L)"
    using ok by (simp add: conn_ok_def conn_inv_def stream_def setRevents_def isReading_def isWriting_def)
  fix f s s'
  assume "f \<in> {h. Some h \<in> {m_closeCallback (conn_callbacks call g), m_errorCallback (conn_callbacks call g),
      m_readCallback (conn_callbacks call g), m_writeCallback (conn_callbacks call g)}}"
    and p: "conn_ok K s" "f s = Inr s'"
  then consider "f = handleClose call g" | "f = (\<lambda>s. Inr (handleError s))" | "f = handleRead_conn call g"
    | "f = handleWrite_conn g"
    by (auto simp: conn_callbacks_def)
  moreover obtain c1 L1 where s: "s = (c1, L1)" by fastforce
  ultimately show "conn_ok K s'"
  proof cases
    case 1
    with p handleClose_keeps[of c1 L1 g s'] show ?thesis unfolding s by blast
  next
    case 2
    with p show ?thesis by (simp add: handleError_def)
  next
    case 3
    with p handleRead_conn_keeps[of c1 L1 g s'] show ?thesis unfolding s by blast
  next
    case 4
    with p handleWrite_conn_keeps show ?thesis by blast
  qed
qed

lemma forceCloseInLoop_keeps:
  "conn_ok K (c, L) \<Longrightarrow> forceCloseInLoop call g (c, L) = Inr s' \<Longrightarrow> conn_ok K s'"
  using handleClose_keeps[of c L g s']
  by (auto simp: forceCloseInLoop_def assertInLoopThread_eq_Inr split: if_splits)

text \<open>Every closure but a \<^verbatim>\<open>send\<close>, which adds to the stream.\<close>

lemma run_net_task_keeps:
  assumes ok: "conn_ok K (c, L)" and h: "run_net_task call g t (c, L) = Inr s'"
    and t: "\<And>p d. t \<noteq> SendInLoop p d"
  shows "conn_ok K s'"
proof -
  have inv: "conn_inv c" "benign (socket_of c)" using ok by (simp_all add: conn_ok_def)
  obtain c' L' where s': "s' = (c', L')" by fastforce
  show ?thesis
  proof (cases t)
    case (ShutdownInLoop p)
    with h shutdownInLoop_unchanged[OF inv, of g L c' L'] show ?thesis by (simp add: s' unchanged_ok[OF ok])
  next
    case (ForceCloseInLoop p)
    with h forceCloseInLoop_keeps[OF ok] show ?thesis by simp
  next
    case (StopReadInLoop p)
    with h stopReadInLoop_unchanged[OF inv, of g L c' L'] show ?thesis by (simp add: s' unchanged_ok[OF ok])
  next
    case (StartReadInLoop p)
    with h startReadInLoop_unchanged[OF inv, of g L c' L'] show ?thesis by (simp add: s' unchanged_ok[OF ok])
  next
    case (WriteCompleteTask u p)
    with h call_keeps[OF _ ok, of OnWriteComplete u s'] show ?thesis by simp
  next
    case (HighWaterMarkTask u p n)
    with h call_keeps[OF _ ok, of "OnHighWaterMark n" u s'] show ?thesis by simp
  qed (use h t ok in simp_all)
qed

end

section \<open>Calls by other threads\<close>

text \<open>
  A call on a connection by a thread that is not its loop's is not one step. It looks at the
  state, then it exchanges the state (\<^verbatim>\<open>shutdown\<close> and \<^verbatim>\<open>forceClose\<close>), then it queues a
  closure, and the loop thread and other callers may do anything in between. \<open>call_pc\<close> is
  where such a call stands: \<open>begin_call\<close> is the part up to and with the test of the state,
  \<open>advance_call\<close> the next part. \<open>overwrites\<close> says that the part about to be done is an
  exchange that will replace \<open>kDisconnected\<close>: the loop thread has closed the connection
  since the test.
\<close>

datatype conn_act = ActSend bytes | ActShutdown | ActForceClose | ActStopRead | ActStartRead

datatype 'u call_pc = CallIdle | ShutdownExchanges | ForceCloseExchanges | CallQueues "'u net_task"

fun begin_call :: "conn_act \<Rightarrow> 'u tcp_connection \<Rightarrow> 'u call_pc res" where
  "begin_call (ActSend d) c = Inr (if m_state c \<noteq> kConnected then CallIdle else CallQueues (SendInLoop (self c) d))"
| "begin_call ActShutdown c = assertR (m_state c \<le> kDisconnecting) ''m_state <= kDisconnecting'' (Inr ShutdownExchanges)"
| "begin_call ActForceClose c = Inr (if m_state c \<noteq> kDisconnected then ForceCloseExchanges else CallIdle)"
| "begin_call ActStopRead c = Inr (CallQueues (StopReadInLoop (self c)))"
| "begin_call ActStartRead c = Inr (CallQueues (StartReadInLoop (self c)))"

fun advance_call :: "'u call_pc \<Rightarrow> ('u, 'w) conn_loop \<Rightarrow> 'u call_pc \<times> ('u, 'w) conn_loop" where
  "advance_call CallIdle s = (CallIdle, s)"
| "advance_call ShutdownExchanges (c, L) =
     (let (old, c) = stateAtomicGetAndSet kDisconnecting c in
      (if old = kConnected then CallQueues (ShutdownInLoop (self c)) else CallIdle, (c, L)))"
| "advance_call ForceCloseExchanges (c, L) =
     (let (old, c) = stateAtomicGetAndSet kDisconnecting c in
      (if old \<noteq> kDisconnected then CallQueues (ForceCloseInLoop (self c)) else CallIdle, (c, L)))"
| "advance_call (CallQueues t) (c, L) = (CallIdle, (c, queueInLoop (Closure t) L))"

fun overwrites :: "'u call_pc \<Rightarrow> 'u tcp_connection \<Rightarrow> bool" where
  "overwrites ShutdownExchanges c = (m_state c = kDisconnected)"
| "overwrites ForceCloseExchanges c = (m_state c = kDisconnected)"
| "overwrites _ c = False"

text \<open>The operations themselves, as \<^verbatim>\<open>send\<close> and the others above define them.\<close>

fun plain_act :: "tid \<Rightarrow> conn_act \<Rightarrow> ('u, 'w) conn_loop \<Rightarrow> ('u, 'w) conn_loop res" where
  "plain_act g (ActSend d) s = send g d s"
| "plain_act g ActShutdown s = shutdown g s"
| "plain_act g ActForceClose s = Inr (forceClose s)"
| "plain_act g ActStopRead s = stopRead g s"
| "plain_act g ActStartRead s = startRead g s"

text \<open>Done without interruption, the parts of a call are the operation.\<close>

lemma parts_make_the_call:
  assumes "g \<noteq> m_tid L"
  shows "plain_act g a (c, L) = bindR (begin_call a c) (\<lambda>pc.
     case advance_call pc (c, L) of (pc, s) \<Rightarrow> case advance_call pc s of (pc, s) \<Rightarrow> Inr s)"
  using assms by (cases a) (simp_all add: send_def shutdown_def shutdown_exchange_def forceClose_def
      forceClose_exchange_def stopRead_def startRead_def stateAtomicGetAndSet_def conn_runInLoop_def
      isInLoopThread_def assertR_def)

text \<open>A part that does not overwrite \<open>kDisconnected\<close> leaves the connection as it is.\<close>

lemma advance_call_unchanged:
  assumes "conn_inv c" and "benign (socket_of c)" and "\<not> overwrites pc c" and "advance_call pc (c, L) = (pc', s')"
  shows "unchanged (c, L) s'"
  using assms
  by (cases pc) (auto simp: unchanged_def conn_inv_def stream_def stateAtomicGetAndSet_def queueInLoop_def
      wakeup_def)

section \<open>Scripted clients\<close>

text \<open>
  A client callback is a script of calls on its connection, made in the loop thread. The
  extension of the loop logs the data accepted for sending, at the moment \<^verbatim>\<open>sendInLoop\<close>
  takes them, and the callbacks made. A step is a call: by the loop thread, a whole one, by
  another thread the beginning of one; the next part of the call another thread is making; an
  event on the channel; or the first pending closure being run by the loop thread. Each
  thread makes one call at a time.
\<close>

type_synonym 'u conn_log = "bytes \<times> (conn_event \<times> 'u) list"

datatype conn_step = Call tid conn_act | Continue tid | Event "32 word" | RunTask

record 'u conn_run =
  conn_at :: "('u, 'u conn_log) conn_loop"
  calls :: "tid \<Rightarrow> 'u call_pc"
  overwritten :: bool

definition fresh_run :: "('u, 'u conn_log) conn_loop \<Rightarrow> 'u conn_run" where
  "fresh_run s = \<lparr>conn_at = s, calls = (\<lambda>_. CallIdle), overwritten = False\<rparr>"

definition log_data :: "bool \<Rightarrow> bytes \<Rightarrow> ('u net_task, 'u conn_log) event_loop_scheme
    \<Rightarrow> ('u net_task, 'u conn_log) event_loop_scheme" where
  "log_data b d L = (if b then L\<lparr>event_loop.more := (fst (event_loop.more L) @ d, snd (event_loop.more L))\<rparr> else L)"

definition log_call :: "conn_event \<Rightarrow> 'u \<Rightarrow> ('u net_task, 'u conn_log) event_loop_scheme
    \<Rightarrow> ('u net_task, 'u conn_log) event_loop_scheme" where
  "log_call ev u L = L\<lparr>event_loop.more := (fst (event_loop.more L), snd (event_loop.more L) @ [(ev, u)])\<rparr>"

fun act_exec :: "tid \<Rightarrow> conn_act \<Rightarrow> ('u, 'u conn_log) conn_loop \<Rightarrow> ('u, 'u conn_log) conn_loop res" where
  "act_exec g (ActSend d) (c, L) = send g d (c, log_data (m_state c = kConnected \<and> m_tid L = g) d L)"
| "act_exec g ActShutdown s = shutdown g s"
| "act_exec g ActForceClose s = Inr (forceClose s)"
| "act_exec g ActStopRead s = stopRead g s"
| "act_exec g ActStartRead s = startRead g s"

definition scripted_conn :: "(conn_event \<Rightarrow> 'u \<Rightarrow> conn_act list) \<Rightarrow> ('u, 'u conn_log) conn_call" where
  "scripted_conn script ev u = (\<lambda>(c, L). run_all (map (act_exec (m_tid L)) (script ev u)) (c, log_call ev u L))"

definition run_logged :: "(conn_event \<Rightarrow> 'u \<Rightarrow> conn_act list) \<Rightarrow> 'u net_task
    \<Rightarrow> ('u, 'u conn_log) conn_loop \<Rightarrow> ('u, 'u conn_log) conn_loop res" where
  "run_logged script t = (\<lambda>(c, L). run_net_task (scripted_conn script) (m_tid L) t
     (c, case t of SendInLoop p d \<Rightarrow> log_data (m_state c \<noteq> kDisconnected) d L | _ \<Rightarrow> L))"

fun loop_step_exec :: "(conn_event \<Rightarrow> 'u \<Rightarrow> conn_act list) \<Rightarrow> conn_step
    \<Rightarrow> ('u, 'u conn_log) conn_loop \<Rightarrow> ('u, 'u conn_log) conn_loop res" where
  "loop_step_exec script (Call g a) s = act_exec g a s"
| "loop_step_exec script (Continue g) s = Inr s"
| "loop_step_exec script (Event ev) (c, L) = handle_conn_event (scripted_conn script) (m_tid L) ev (c, L)"
| "loop_step_exec script RunTask (c, L) =
     (case m_pendingTasks L of
        [] \<Rightarrow> Inr (c, L)
      | t # ts \<Rightarrow>
          (case t of Closure u \<Rightarrow> run_logged script u (c, L\<lparr>m_pendingTasks := ts\<rparr>)
           | _ \<Rightarrow> Inr (c, L\<lparr>m_pendingTasks := ts\<rparr>)))"

definition begin_by :: "tid \<Rightarrow> conn_act \<Rightarrow> 'u conn_run \<Rightarrow> 'u conn_run res" where
  "begin_by g a R =
     (case calls R g of
        CallIdle \<Rightarrow> bindR (begin_call a (fst (conn_at R))) (\<lambda>pc. Inr (R\<lparr>calls := (calls R)(g := pc)\<rparr>))
      | _ \<Rightarrow> Inr R)"

definition continue_by :: "tid \<Rightarrow> 'u conn_run \<Rightarrow> 'u conn_run" where
  "continue_by g R =
     (case advance_call (calls R g) (conn_at R) of (pc, s) \<Rightarrow>
        R\<lparr>conn_at := s, calls := (calls R)(g := pc),
          overwritten := overwritten R \<or> overwrites (calls R g) (fst (conn_at R))\<rparr>)"

definition conn_step_exec :: "(conn_event \<Rightarrow> 'u \<Rightarrow> conn_act list) \<Rightarrow> conn_step \<Rightarrow> 'u conn_run \<Rightarrow> 'u conn_run res" where
  "conn_step_exec script st R =
     (let whole = bindR (loop_step_exec script st (conn_at R)) (\<lambda>s. Inr (R\<lparr>conn_at := s\<rparr>)) in
      case st of
        Call g a \<Rightarrow> if isInLoopThread (m_tid (snd (conn_at R))) g then whole else begin_by g a R
      | Continue g \<Rightarrow> Inr (continue_by g R)
      | _ \<Rightarrow> whole)"

definition closes :: "(conn_event \<times> 'u) list \<Rightarrow> nat" where
  "closes evs = length (filter (\<lambda>(ev, u). ev = OnClose) evs)"

definition faithful :: "addr \<Rightarrow> 'v \<Rightarrow> bool \<Rightarrow> bytes \<Rightarrow> 'u conn_log \<Rightarrow> bool" where
  "faithful p u closed str w \<longleftrightarrow> str = fst w \<and> closes (snd w) = (if closed then 1 else 0)"

definition about_to_tell :: "addr \<Rightarrow> 'v \<Rightarrow> bool \<Rightarrow> bytes \<Rightarrow> 'u conn_log \<Rightarrow> bool" where
  "about_to_tell p u closed str w \<longleftrightarrow> str = fst w \<and> closed \<and> closes (snd w) = 0"

lemma sendInLoop_faithful:
  assumes ok: "conn_ok faithful (c, L)"
    and h: "sendInLoop g d (c, log_data (m_state c \<noteq> kDisconnected) d L) = Inr s'"
  shows "conn_ok faithful s'"
proof -
  obtain c' L' where s': "s' = (c', L')" by fastforce
  from ok h sendInLoop_Inr[of c g d "log_data (m_state c \<noteq> kDisconnected) d L" c' L'] show ?thesis
    by (auto simp: s' conn_ok_def faithful_def log_data_def split: if_splits)
qed

lemma conn_runInLoop_cases:
  "conn_runInLoop g task body (c, L) = Inr s' \<Longrightarrow>
     (m_tid L = g \<and> body (c, L) = Inr s') \<or> s' = (c, queueInLoop (Closure task) L)"
  by (auto simp: conn_runInLoop_def isInLoopThread_def split: if_splits)

lemma queueInLoop_ok: "conn_ok K (c, queueInLoop task L) = conn_ok K (c, L)"
  by (simp add: conn_ok_def queueInLoop_def wakeup_def)

lemma act_exec_keeps:
  assumes ok: "conn_ok faithful s" and h: "act_exec g a s = Inr s'"
  shows "conn_ok faithful s'"
proof -
  obtain c L c' L' where s: "s = (c, L)" and s': "s' = (c', L')" by fastforce
  have inv: "conn_inv c" "benign (socket_of c)" using ok by (simp_all add: s conn_ok_def)
  show ?thesis
  proof (cases a)
    case (ActSend d)
    let ?L = "log_data (m_state c = kConnected \<and> m_tid L = g) d L"
    show ?thesis
    proof (cases "m_state c = kConnected \<and> m_tid L = g")
      case True
      with h have "sendInLoop g d (c, ?L) = Inr s'"
        by (simp add: ActSend s send_def conn_runInLoop_def isInLoopThread_def log_data_def)
      with True sendInLoop_faithful[of c L g d s'] ok show ?thesis by (simp add: s)
    next
      case False
      then have "?L = L" by (auto simp: log_data_def)
      with h False have "s' = (c, L) \<or> s' = (c, queueInLoop (Closure (SendInLoop (self c) d)) L)"
        by (auto simp: ActSend s send_def conn_runInLoop_def isInLoopThread_def split: if_splits)
      with ok show ?thesis by (auto simp: s queueInLoop_ok)
    qed
  next
    case ActShutdown
    with h shutdown_unchanged[OF inv, of g L c' L'] ok show ?thesis by (simp add: s s' unchanged_ok)
  next
    case ActForceClose
    with h forceClose_unchanged[OF inv, of L] ok show ?thesis by (auto simp: s intro: unchanged_ok)
  next
    case ActStopRead
    with h have "conn_runInLoop g (StopReadInLoop (self c)) (stopReadInLoop g) (c, L) = Inr s'"
      by (simp add: s stopRead_def)
    from conn_runInLoop_cases[OF this] stopReadInLoop_unchanged[OF inv, of g L c' L'] ok show ?thesis
      by (auto simp: s s' queueInLoop_ok intro: unchanged_ok)
  next
    case ActStartRead
    with h have "conn_runInLoop g (StartReadInLoop (self c)) (startReadInLoop g) (c, L) = Inr s'"
      by (simp add: s startRead_def)
    from conn_runInLoop_cases[OF this] startReadInLoop_unchanged[OF inv, of g L c' L'] ok show ?thesis
      by (auto simp: s s' queueInLoop_ok intro: unchanged_ok)
  qed
qed

lemma run_all_keeps:
  assumes "\<And>f s s'. f \<in> set fs \<Longrightarrow> P s \<Longrightarrow> f s = Inr s' \<Longrightarrow> P s'" and "run_all fs s = Inr s'" and "P s"
  shows "P s'"
  using assms
proof (induction fs arbitrary: s)
  case (Cons f fs)
  from Cons.prems(2) obtain s1 where "f s = Inr s1" "run_all fs s1 = Inr s'" by (auto simp: res_iffs)
  with Cons show ?case by (metis list.set_intros)
qed simp

interpretation scripted_conn: conn_client "scripted_conn script" faithful about_to_tell
proof
  fix ev u and s s' :: "('a, 'a conn_log) conn_loop"
  obtain c L where s: "s = (c, L)" by fastforce
  have run: "conn_ok faithful s'" if "scripted_conn script ev u s = Inr s'" "conn_ok faithful (c, log_call ev u L)" for ev
  proof (rule run_all_keeps[where P = "conn_ok faithful"])
    show "run_all (map (act_exec (m_tid L)) (script ev u)) (c, log_call ev u L) = Inr s'"
      using that(1) by (simp add: scripted_conn_def s)
    show "conn_ok faithful (c, log_call ev u L)" by (rule that(2))
    show "conn_ok faithful t'" if "f \<in> set (map (act_exec (m_tid L)) (script ev u))" "conn_ok faithful t" "f t = Inr t'"
      for f t t'
    proof -
      from that(1) obtain a where "f = act_exec (m_tid L) a" by auto
      with that(2,3) act_exec_keeps show ?thesis by blast
    qed
  qed
  show "conn_ok faithful s'" if "ev \<noteq> OnClose" "conn_ok faithful s" "scripted_conn script ev u s = Inr s'"
    using that by (intro run) (auto simp: s conn_ok_def faithful_def log_call_def closes_def)
  show "conn_ok faithful s'" if "conn_ok about_to_tell s" "scripted_conn script OnClose u s = Inr s'"
    using that by (intro run) (auto simp: s conn_ok_def faithful_def about_to_tell_def log_call_def closes_def)
qed (simp add: faithful_def about_to_tell_def)

lemma run_logged_keeps:
  assumes ok: "conn_ok faithful (c, L)" and h: "run_logged script t (c, L) = Inr s'"
  shows "conn_ok faithful s'"
proof (cases "\<exists>p d. t = SendInLoop p d")
  case True
  then obtain p d where t: "t = SendInLoop p d" by blast
  with h have "sendInLoop (m_tid L) d (c, log_data (m_state c \<noteq> kDisconnected) d L) = Inr s'"
    by (simp add: run_logged_def)
  from sendInLoop_faithful[OF ok this] show ?thesis .
next
  case False
  then have "(case t of SendInLoop p d \<Rightarrow> log_data (m_state c \<noteq> kDisconnected) d L | _ \<Rightarrow> L) = L"
    by (cases t) simp_all
  with h have "run_net_task (scripted_conn script) (m_tid L) t (c, L) = Inr s'" by (simp add: run_logged_def)
  from scripted_conn.run_net_task_keeps[OF ok this] False show ?thesis by blast
qed

lemma loop_step_keeps:
  assumes ok: "conn_ok faithful s" and h: "loop_step_exec script st s = Inr s'"
  shows "conn_ok faithful s'"
proof -
  obtain c L where s: "s = (c, L)" by fastforce
  show ?thesis
  proof (cases st)
    case (Call g a)
    with ok h act_exec_keeps show ?thesis by simp
  next
    case (Continue g)
    with ok h show ?thesis by simp
  next
    case (Event ev)
    with ok h scripted_conn.handle_conn_event_keeps[of c L script "m_tid L" ev s'] show ?thesis by (simp add: s)
  next
    case RunTask
    show ?thesis
    proof (cases "m_pendingTasks L")
      case Nil
      with ok h RunTask show ?thesis by (simp add: s)
    next
      case (Cons t ts)
      let ?L = "L\<lparr>m_pendingTasks := ts\<rparr>"
      have ok': "conn_ok faithful (c, ?L)" using ok by (simp add: s conn_ok_def)
      show ?thesis
      proof (cases t)
        case (Closure u)
        with h RunTask Cons have "run_logged script u (c, ?L) = Inr s'" by (simp add: s)
        from run_logged_keeps[OF ok' this] show ?thesis .
      qed (use h RunTask Cons ok' in \<open>auto simp: s\<close>)
    qed
  qed
qed

text \<open>As long as no exchange has overwritten \<open>kDisconnected\<close>, every step keeps the invariant.\<close>

definition run_ok :: "'u conn_run \<Rightarrow> bool" where
  "run_ok R \<longleftrightarrow> overwritten R \<or> conn_ok faithful (conn_at R)"

lemma continue_by_keeps: "run_ok R \<Longrightarrow> run_ok (continue_by g R)"
proof -
  assume ok: "run_ok R"
  obtain c L where s: "conn_at R = (c, L)" by fastforce
  obtain pc s' where adv: "advance_call (calls R g) (c, L) = (pc, s')" by (rule prod.exhaust)
  show ?thesis
  proof (cases "overwritten R \<or> overwrites (calls R g) c")
    case False
    with ok have c: "conn_ok faithful (c, L)" by (simp add: run_ok_def s)
    then have "conn_inv c" "benign (socket_of c)" by (simp_all add: conn_ok_def)
    with advance_call_unchanged[OF _ _ _ adv] False have "unchanged (c, L) s'" by blast
    from unchanged_ok[OF c this] show ?thesis by (simp add: run_ok_def continue_by_def s adv)
  qed (simp add: run_ok_def continue_by_def s adv)
qed

lemma conn_step_keeps:
  assumes ok: "run_ok R" and h: "conn_step_exec script st R = Inr R'"
  shows "run_ok R'"
proof -
  have whole: "run_ok R'" if "bindR (loop_step_exec script st (conn_at R)) (\<lambda>s. Inr (R\<lparr>conn_at := s\<rparr>)) = Inr R'"
  proof -
    from that obtain s where s: "loop_step_exec script st (conn_at R) = Inr s" "R' = R\<lparr>conn_at := s\<rparr>"
      unfolding bindR_eq_Inr by blast
    from ok loop_step_keeps[OF _ s(1)] show ?thesis unfolding s(2) run_ok_def by fastforce
  qed
  show ?thesis
  proof (cases st)
    case (Call g a)
    show ?thesis
    proof (cases "isInLoopThread (m_tid (snd (conn_at R))) g")
      case False
      with h Call have "begin_by g a R = Inr R'" by (simp add: conn_step_exec_def)
      with ok show ?thesis by (auto simp: begin_by_def run_ok_def bindR_eq_Inr split: call_pc.splits)
    qed (use h whole Call in \<open>simp add: conn_step_exec_def\<close>)
  next
    case (Continue g)
    with h ok continue_by_keeps show ?thesis by (auto simp: conn_step_exec_def)
  qed (use h whole in \<open>simp_all add: conn_step_exec_def\<close>)
qed

lemma conn_run_ok:
  assumes "conn_ok faithful s" and "run_all (map (conn_step_exec script) steps) (fresh_run s) = Inr R"
  shows "run_ok R"
proof -
  have "run_ok (fresh_run s)" using assms(1) by (simp add: run_ok_def fresh_run_def)
  then show ?thesis
    by (rule run_all_keeps[where P = run_ok, OF _ assms(2), rotated]) (auto intro: conn_step_keeps)
qed

section \<open>Properties\<close>

text \<open>
  C21. Sending: in the loop thread, on a connection that is not closed, \<^verbatim>\<open>sendInLoop\<close>
  does not fail when its data fit the buffer; the bytes the kernel took and the bytes
  buffered are together exactly the data, in order (unless the kernel reported an error
  that is not retryable, then what it did not take is given up); the channel waits for
  \<^verbatim>\<open>EPOLLOUT\<close> exactly when something is buffered; the write-complete callback is queued
  exactly when everything went out at once, and the high-water mark's exactly when the
  buffered amount crosses the mark, with the new amount.
\<close>

theorem sendInLoop_spec:
  assumes "conn_inv c" and "m_state c \<noteq> kDisconnected"
    and "length data \<le> vec_max_size" and "append_fits (m_outputBuffer c) (length data)"
  shows "\<exists>c' L'. sendInLoop (m_tid L) data (c, L) = Inr (c', L') \<and> send_spec c data L c' L' \<and> conn_inv c'
    \<and> event_loop.more L' = event_loop.more L"
  by (rule sendInLoop_ok[OF assms])

text \<open>
  An established connection with its callbacks: the sequence in which the servers and the
  client set one up.
\<close>

definition establish :: "addr \<Rightarrow> int \<Rightarrow> inet_address \<Rightarrow> inet_address \<Rightarrow> socket \<Rightarrow> 'u option \<Rightarrow> 'u option
    \<Rightarrow> 'u option \<Rightarrow> nat \<Rightarrow> 'u \<Rightarrow> ('u net_task, 'w) event_loop_scheme \<Rightarrow> ('u, 'w) conn_loop res" where
  "establish p fd local peer sock m w h mark k L =
     bindR (new_TCPConnection p fd local peer sock) (\<lambda>c.
     connectEstablished (m_tid L) (setMessageCallback m (setWriteCompleteCallback w
       (setHighWaterMarkCallback h mark (setCloseCallback (Some k) c))), L))"

lemma new_TCPConnection_ok:
  "new_TCPConnection p fd local peer sock = Inr \<lparr>self = p, m_messageCallback = None,
     m_writeCompleteCallback = None, m_closeCallback_conn = None, m_highWaterMarkCallback = None,
     m_highWaterMark = 0, m_sockfd = fd, m_channel = new_Channel fd, m_state = kConnecting,
     m_local = local, m_peer = peer, m_inputBuffer = empty_buffer kInitialSize,
     m_outputBuffer = empty_buffer kInitialSize, socket_of = sock\<rparr>"
  using new_Buffer_ok[of kInitialSize] by (simp add: new_TCPConnection_def kInitialSize_def buf_defs)

lemma or_EPOLLIN: "e OR (EPOLLIN OR EPOLLPRI) \<noteq> 0" "(e OR (EPOLLIN OR EPOLLPRI)) AND EPOLLIN \<noteq> 0"
proof -
  have "(e OR (EPOLLIN OR EPOLLPRI)) AND EPOLLIN = EPOLLIN"
    by (rule bit_word_eqI) (auto simp: bit_simps)
  then show "(e OR (EPOLLIN OR EPOLLPRI)) AND EPOLLIN \<noteq> 0" by (simp add: epoll_bits)
  then show "e OR (EPOLLIN OR EPOLLPRI) \<noteq> 0" by auto
qed

lemma establish_ok:
  obtains c ep where "establish p fd local peer sock m w h mark k L = Inr (c, L\<lparr>m_poller := ep\<rparr>)"
    "conn_inv c" "socket_of c = sock" "m_closeCallback_conn c = Some k" "m_state c = kConnected"
    "contents (m_outputBuffer c) = []" "m_messageCallback c = m" "m_tied (m_channel c)"
    "\<not> isWriting (m_channel c)" "readableBytes (m_outputBuffer c) = 0" "self c = p"
proof -
  have eb: "buf_inv (empty_buffer kInitialSize)" "contents (empty_buffer kInitialSize) = []"
    "readableBytes (empty_buffer kInitialSize) = 0"
    using empty_buffer_ok[of kInitialSize] by (simp_all add: kInitialSize_def buf_defs)
  let ?c = "\<lparr>self = p, m_messageCallback = m, m_writeCompleteCallback = w, m_closeCallback_conn = Some k,
     m_highWaterMarkCallback = h, m_highWaterMark = mark, m_sockfd = fd, m_channel = tie (new_Channel fd),
     m_state = kConnected, m_local = local, m_peer = peer, m_inputBuffer = empty_buffer kInitialSize,
     m_outputBuffer = empty_buffer kInitialSize, socket_of = sock\<rparr>"
  let ?f = "\<lambda>e. e OR (EPOLLIN OR EPOLLPRI)"
  have "polling (m_channel ?c) \<or> ?f (m_events (m_channel ?c)) \<noteq> 0" using or_EPOLLIN by blast
  from conn_channel_update[of enableRead ?f, OF channel_ops_set_events(1) this, of L] obtain ep where
    ep: "conn_channel enableRead (m_tid L) (?c, L) = Inr (?c\<lparr>m_channel := (m_channel ?c)\<lparr>
        m_events := ?f (m_events (m_channel ?c)), polling := ?f (m_events (m_channel ?c)) \<noteq> 0\<rparr>\<rparr>, L\<lparr>m_poller := ep\<rparr>)"
    by blast
  have "establish p fd local peer sock m w h mark k L = conn_channel enableRead (m_tid L) (?c, L)"
    by (simp add: establish_def new_TCPConnection_ok connectEstablished_def setMessageCallback_def
        setWriteCompleteCallback_def setHighWaterMarkCallback_def setCloseCallback_def)
  with ep show thesis
    by (intro that[of "?c\<lparr>m_channel := (m_channel ?c)\<lparr>
        m_events := ?f (m_events (m_channel ?c)), polling := ?f (m_events (m_channel ?c)) \<noteq> 0\<rparr>\<rparr>" ep])
      (simp_all add: conn_inv_def eb isReading_def isWriting_def or_EPOLLIN tie_def new_Channel_def epoll_bits)
qed

text \<open>
  A new connection, established with a close callback on a socket nothing was sent on yet.
\<close>

lemma established_ok:
  assumes "establish p fd local peer sock m w h mark k (L\<lparr>event_loop.more := ([], [])\<rparr>) = Inr s"
    and "benign sock" and "sent sock = []"
  shows "conn_ok faithful s"
proof -
  obtain c ep where c: "s = (c, L\<lparr>event_loop.more := ([], [])\<rparr>\<lparr>m_poller := ep\<rparr>)" "conn_inv c" "socket_of c = sock"
    "m_closeCallback_conn c = Some k" "m_state c = kConnected" "contents (m_outputBuffer c) = []"
    by (rule establish_ok[of p fd local peer sock m w h mark k "L\<lparr>event_loop.more := ([], [])\<rparr>"])
      (use assms(1) in auto)
  then show ?thesis using assms(2,3) by (simp add: conn_ok_def faithful_def stream_def closes_def)
qed


text \<open>A loop as its constructor leaves it, with extension \<open>w\<close>.\<close>

definition idle_loop :: "'w \<Rightarrow> ('u, 'w) event_loop_scheme" where
  "idle_loop w = \<lparr>m_tid = 1, m_quit = False, m_poller = \<lparr>ep_size = 128, ep_calls = []\<rparr>, m_pendingTasks = [],
     m_wakeupChannel = new_Channel 4, wakeup_count = 0, m_timerChannel = new_Channel 5,
     m_timers = [], timer_heap = Map.empty, timerfd_sets = [], clock_now = 0, \<dots> = w\<rparr>"

abbreviation any_address :: inet_address where
  "any_address \<equiv> new_InetAddress True 8000 False"

definition sample_socket :: "write_result list \<Rightarrow> socket" where
  "sample_socket ws = \<lparr>sent = [], shut_wr = False, closed_fd = False, write_script = ws, read_script = []\<rparr>"

lemma empty_output_fits:
  "buf_inv b \<Longrightarrow> contents b = [] \<Longrightarrow> n \<le> length (m_buffer b) - 8 \<Longrightarrow> append_fits b n"
  using length_contents[of b] readable_eq[of b] buf_invD[of b]
  by (auto simp: append_fits_def free_space_def kCheapPrepend_def)

lemma establish_fits:
  assumes "establish p fd local peer sock m w h mark k L = Inr (c, L')" and "n \<le> 1024"
  shows "append_fits (m_outputBuffer c) n"
proof -
  from assms(1) have "m_outputBuffer c = empty_buffer kInitialSize"
    by (auto simp: establish_def new_TCPConnection_ok connectEstablished_def res_iffs assertInLoopThread_eq_Inr
        setMessageCallback_def setWriteCompleteCallback_def setHighWaterMarkCallback_def setCloseCallback_def
        conn_channel_def on_channel_def)
  with assms(2) empty_buffer_ok[of kInitialSize] show ?thesis
    by (intro empty_output_fits) (simp_all add: kInitialSize_def buf_defs)
qed

lemma sendInLoop_spec_witness:
  "\<exists>s c' L'. establish 8 9 any_address any_address (sample_socket [Wrote 3]) None None (Some (7 :: nat)) 2 6 (idle_loop ()) = Inr s
     \<and> sendInLoop 1 [10, 11, 12, 13, 14] s = Inr (c', L') \<and> sent (socket_of c') = [10, 11, 12]
     \<and> contents (m_outputBuffer c') = [13, 14] \<and> isWriting (m_channel c')
     \<and> m_pendingTasks L' = [Closure (HighWaterMarkTask 7 (self (fst s)) 2)]"
proof -
  let ?d = "[10, 11, 12, 13, 14] :: bytes" and ?L = "idle_loop () :: (nat net_task, unit) event_loop_scheme"
  obtain c ep where c: "establish 8 9 any_address any_address (sample_socket [Wrote 3]) None None (Some 7) 2 6 ?L
      = Inr (c, ?L\<lparr>m_poller := ep\<rparr>)"
    "conn_inv c" "socket_of c = sample_socket [Wrote 3]" "m_state c = kConnected"
    "contents (m_outputBuffer c) = []" "\<not> isWriting (m_channel c)"
    using establish_ok[of 8 9 any_address any_address "sample_socket [Wrote 3]" None None "Some 7" 2 6 ?L] by metis
  have hw: "m_highWaterMarkCallback c = Some 7" "m_highWaterMark c = 2" "m_writeCompleteCallback c = None"
    using c(1) by (auto simp: establish_def new_TCPConnection_ok connectEstablished_def res_iffs
        assertInLoopThread_eq_Inr setMessageCallback_def setWriteCompleteCallback_def
        setHighWaterMarkCallback_def setCloseCallback_def conn_channel_def on_channel_def)
  have st: "m_state c \<noteq> kDisconnected" using c(4) by simp
  have fits: "length ?d \<le> vec_max_size" "append_fits (m_outputBuffer c) (length ?d)"
    using establish_fits[OF c(1), of "length ?d"] by (simp_all add: buf_defs)
  have t: "m_tid (?L\<lparr>m_poller := ep\<rparr>) = 1" "m_pendingTasks (?L\<lparr>m_poller := ep\<rparr>) = []"
    by (simp_all add: idle_loop_def)
  obtain c' L' where s: "sendInLoop 1 ?d (c, ?L\<lparr>m_poller := ep\<rparr>) = Inr (c', L')"
      "send_spec c ?d (?L\<lparr>m_poller := ep\<rparr>) c' L'"
    using sendInLoop_spec[OF c(2) st fits, of "?L\<lparr>m_poller := ep\<rparr>"] unfolding t(1) by blast
  have "write_outcome c ?d = (3, False)" "\<not> completes c ?d"
    using c(3,6) by (simp_all add: write_outcome_def completes_def sample_socket_def sock_write_def)
  with s(2) c t hw have "sent (socket_of c') = [10, 11, 12]" "contents (m_outputBuffer c') = [13, 14]"
    "isWriting (m_channel c')" "m_pendingTasks L' = [Closure (HighWaterMarkTask 7 (self c) 2)]"
    by (simp_all add: send_spec_def crosses_mark_def sample_socket_def)
  with c(1) s(1) show ?thesis by (intro exI conjI) (assumption | simp)+
qed


lemma handleWrite_conn_still_writing:
  assumes inv: "conn_inv c" and st: "m_state c \<noteq> kDisconnected"
    and ok: "handleWrite_conn g (c, L) = Inr (c', L')"
  shows "isWriting (m_channel c') \<and> shut_wr (socket_of c') = shut_wr (socket_of c)
    \<and> m_state c' = m_state c \<and> buf_inv (m_outputBuffer c')"
proof -
  let ?ob = "m_outputBuffer c"
  have bi: "buf_inv ?ob" using inv by (simp add: conn_inv_def)
  obtain r s where w: "sock_write (contents ?ob) (socket_of c) = (r, s)" by fastforce
  then have shut: "shut_wr s = shut_wr (socket_of c)"
    by (auto simp: sock_write_def Let_def split: list.splits write_result.splits)
  have wr: "isWriting (m_channel c)" using ok st by (auto simp: handleWrite_conn_def res_iffs)
  from w show ?thesis
  proof (cases rule: sock_write_cases)
    case (fails e)
    with w ok st have "c' = c\<lparr>socket_of := s\<rparr>"
      by (auto simp: handleWrite_conn_def readable_range[OF bi] res_iffs)
    with wr shut bi show ?thesis by simp
  next
    case (writes n)
    then have "n \<le> readableBytes ?ob" using length_contents[OF bi] by simp
    from retrieve_ok[OF bi this] obtain ob where ob: "retrieve ?ob n = Inr ob" "buf_inv ob" by blast
    let ?c = "c\<lparr>socket_of := s, m_outputBuffer := ob\<rparr>"
    show ?thesis
    proof (cases "readableBytes ob = 0")
      case False
      with ok st w writes(1) ob(1) have "c' = ?c"
        by (auto simp: handleWrite_conn_def readable_range[OF bi] res_iffs Let_def)
      with wr shut ob(2) show ?thesis by simp
    next
      case True
      with ok st w writes(1) ob(1) obtain c1 L1 L2 where
        1: "conn_channel disableWrite g (?c, L) = Inr (c1, L1)"
        and 2: "(if m_state c1 = kDisconnecting then shutdownInLoop g (c1, L1) else Inr (c1, L1)) = Inr (c', L2)"
        by (auto simp: handleWrite_conn_def readable_range[OF bi] bindR_eq_Inr assertR_eq_Inr Let_def)
      note fr = conn_channel_eq_Inr[OF 1 channel_ops_set_events(4)]
      have w1: "isWriting (m_channel c1)"
        using wr fr(1) word_or_and_keeps by (simp add: isWriting_def)
      with 2 have "c' = c1" by (auto simp: shutdownInLoop_def assertInLoopThread_eq_Inr split: if_splits)
      moreover obtain ch where "c1 = ?c\<lparr>m_channel := ch\<rparr>" using fr(3) by blast
      ultimately show ?thesis using w1 shut ob(2) by auto
    qed
  qed
qed

text \<open>
  C34. After \<^verbatim>\<open>handleWrite\<close> has sent the last buffered byte, \<^verbatim>\<open>disableWrite\<close> has no effect
  on the interest in \<^verbatim>\<open>EPOLLOUT\<close>: the channel is still writing, so a \<^verbatim>\<open>shutdown\<close> that was
  waiting for the drain does not send its FIN, and the next writable event, which is
  immediate, aborts the process on the assertion that there is something to write.
\<close>

theorem drained_connection_aborts:
  assumes "conn_inv c" and "m_state c \<noteq> kDisconnected"
    and "handleWrite_conn (m_tid L) (c, L) = Inr (c', L')" and "contents (m_outputBuffer c') = []"
  shows "isWriting (m_channel c') \<and> shut_wr (socket_of c') = shut_wr (socket_of c)
    \<and> handle_conn_event call (m_tid L') EPOLLOUT (c', L') = Inl (AssertFailed ''m_outputBuffer.readableBytes() > 0'')"
proof -
  note still = handleWrite_conn_still_writing[OF assms(1-3)]
  have "readableBytes (m_outputBuffer c') = 0" using still assms(4) readable_empty by blast
  then show ?thesis
    using still assms(2)
    by (simp add: handle_conn_event_def handleEvents_def handleEventsWithGuard_def call_if_def setRevents_def
        conn_callbacks_def handleWrite_conn_def epoll_bits)
qed

text \<open>A connected connection that waits for \<^verbatim>\<open>EPOLLOUT\<close> with two bytes buffered.\<close>

definition waiting_conn :: "conn_state \<Rightarrow> write_result list \<Rightarrow> nat tcp_connection" where
  "waiting_conn st ws = \<lparr>self = 8, m_messageCallback = None, m_writeCompleteCallback = None,
     m_closeCallback_conn = Some 6, m_highWaterMarkCallback = None, m_highWaterMark = 0,
     m_sockfd = 9, m_channel = (new_Channel 9)\<lparr>m_events := EPOLLIN OR EPOLLPRI OR EPOLLOUT, polling := True\<rparr>,
     m_state = st, m_local = any_address, m_peer = any_address,
     m_inputBuffer = \<lparr>m_buffer = replicate 12 0, m_readerIndex = 8, m_writerIndex = 8\<rparr>,
     m_outputBuffer = \<lparr>m_buffer = replicate 8 0 @ [21, 22], m_readerIndex = 8, m_writerIndex = 10\<rparr>,
     socket_of = sample_socket ws\<rparr>"

lemma waiting_conn_inv: "st \<noteq> kConnecting \<Longrightarrow> conn_inv (waiting_conn st ws)"
  by (simp add: waiting_conn_def conn_inv_def buf_inv_def buf_defs isReading_def isWriting_def epoll_bits
      new_Channel_def)

lemma drained_connection_aborts_witness:
  "\<exists>c' L'. handleWrite_conn 1 (waiting_conn kDisconnecting [Wrote 2], idle_loop ()) = Inr (c', L')
     \<and> sent (socket_of c') = [21, 22] \<and> \<not> shut_wr (socket_of c')
     \<and> handle_conn_event (\<lambda>_ _. Inr) (m_tid L') EPOLLOUT (c', L') = Inl (AssertFailed ''m_outputBuffer.readableBytes() > 0'')"
proof -
  let ?c = "waiting_conn kDisconnecting [Wrote 2]" and ?L = "idle_loop () :: (nat net_task, unit) event_loop_scheme"
  have t: "m_tid ?L = 1" by (simp add: idle_loop_def)
  have "\<exists>c' L'. handleWrite_conn 1 (?c, ?L) = Inr (c', L') \<and> contents (m_outputBuffer c') = []
      \<and> sent (socket_of c') = [21, 22]"
    by (simp add: handleWrite_conn_def waiting_conn_def sample_socket_def readableBytes_def size_sub_def
        isWriting_def epoll_bits peek_def vec_read_def sock_write_def retrieve_def retrieveAll_def
        kCheapPrepend_def contents_def conn_channel_def on_channel_def channel_ops_set_events set_events_ok
        idle_loop_def shutdownInLoop_def new_Channel_def replicate_append_same)
  then obtain c' L' where h: "handleWrite_conn 1 (?c, ?L) = Inr (c', L')" "contents (m_outputBuffer c') = []"
    "sent (socket_of c') = [21, 22]" by blast
  have "conn_inv ?c" "m_state ?c \<noteq> kDisconnected" by (simp add: waiting_conn_inv, simp add: waiting_conn_def)
  note D = drained_connection_aborts[OF this, of ?L, unfolded t, OF h(1,2), of "\<lambda>_ _. Inr"]
  have "\<not> shut_wr (socket_of ?c)" by (simp add: waiting_conn_def sample_socket_def)
  with D h show ?thesis by (intro exI conjI) (assumption | simp)+
qed

text \<open>
  \<^verbatim>\<open>startRead\<close> on a closed connection puts its channel back into the poller, because
  only the interest is looked at and not the state; the next readable event aborts the
  process on the assertion of \<^verbatim>\<open>handleRead\<close>.
\<close>

theorem startRead_after_close:
  assumes "m_state c = kDisconnected" and "m_events (m_channel c) = 0"
  shows "\<exists>c' L'. startRead (m_tid L) (c, L) = Inr (c', L') \<and> polling (m_channel c')
    \<and> handle_conn_event call (m_tid L') EPOLLIN (c', L') = Inl (AssertFailed ''m_state != kDisconnected'')"
proof -
  let ?f = "\<lambda>e. e OR (EPOLLIN OR EPOLLPRI)"
  have "polling (m_channel c) \<or> ?f (m_events (m_channel c)) \<noteq> 0" using or_EPOLLIN by blast
  from conn_channel_update[of enableRead ?f, OF channel_ops_set_events(1) this, of L] assms
  show ?thesis
    by (auto simp: startRead_def startReadInLoop_def conn_runInLoop_def isInLoopThread_def isReading_def
        or_EPOLLIN handle_conn_event_def handleEvents_def handleEventsWithGuard_def call_if_def setRevents_def
        conn_callbacks_def handleRead_conn_def epoll_bits)
qed

lemma startRead_after_close_witness:
  "\<exists>c' L'. startRead 1 ((waiting_conn kDisconnected [])\<lparr>m_channel := new_Channel 9\<rparr>, idle_loop ()) = Inr (c', L')
     \<and> handle_conn_event (\<lambda>_ _. Inr) (m_tid L') EPOLLIN (c', L') = Inl (AssertFailed ''m_state != kDisconnected'')"
proof -
  let ?c = "(waiting_conn kDisconnected [])\<lparr>m_channel := new_Channel 9\<rparr>"
    and ?L = "idle_loop () :: (nat net_task, unit) event_loop_scheme"
  have "m_state ?c = kDisconnected" "m_events (m_channel ?c) = 0"
    by (simp_all add: waiting_conn_def new_Channel_def)
  from startRead_after_close[OF this, of ?L "\<lambda>_ _. Inr"] show ?thesis
    by (auto simp: idle_loop_def)
qed

text \<open>
  C40. \<^verbatim>\<open>forceClose\<close> called from another thread looks at the state and then exchanges it.
  When the loop thread closes the connection in between, the exchange takes the connection
  out of \<^verbatim>\<open>kDisconnected\<close> again, nothing is queued to bring it back, and its destructor
  aborts the process.
\<close>

theorem forceClose_race:
  assumes "m_state c = kConnected" and "polling (m_channel c)"
  shows "forceClose (c, L) = forceClose_exchange (c, L)
    \<and> (\<exists>c1 L1. handleClose (\<lambda>_ _. Inr) (m_tid L) (c, L) = Inr (c1, L1) \<and> m_state c1 = kDisconnected
        \<and> (case forceClose_exchange (c1, L1) of (c2, L2) \<Rightarrow> m_pendingTasks L2 = m_pendingTasks L
             \<and> m_state c2 = kDisconnecting
             \<and> destroy_TCPConnection c2 = Inl (AssertFailed ''m_state == kDisconnected'')))"
proof -
  let ?c = "c\<lparr>m_state := kDisconnected\<rparr>"
  have "polling (m_channel ?c) \<or> (\<lambda>_. 0) (m_events (m_channel ?c)) \<noteq> (0 :: 32 word)" using assms(2) by simp
  from conn_channel_update[of disableAll "\<lambda>_. 0", OF channel_ops_set_events(5) this, of L] obtain ep ch where
    ep: "conn_channel disableAll (m_tid L) (?c, L) = Inr (?c\<lparr>m_channel := ch\<rparr>, L\<lparr>m_poller := ep\<rparr>)"
    by blast
  have "handleClose (\<lambda>_ _. Inr) (m_tid L) (c, L) = Inr (?c\<lparr>m_channel := ch\<rparr>, L\<lparr>m_poller := ep\<rparr>)"
    using assms(1) ep by (simp add: handleClose_def call_conn_def split: option.split)
  then have "\<exists>c1 L1. handleClose (\<lambda>_ _. Inr) (m_tid L) (c, L) = Inr (c1, L1) \<and> m_state c1 = kDisconnected
      \<and> m_pendingTasks L1 = m_pendingTasks L"
    by (intro exI[of _ "?c\<lparr>m_channel := ch\<rparr>"] exI[of _ "L\<lparr>m_poller := ep\<rparr>"]) simp
  moreover have "forceClose (c, L) = forceClose_exchange (c, L)" using assms(1) by (simp add: forceClose_def)
  ultimately show ?thesis
    by (fastforce simp: forceClose_exchange_def stateAtomicGetAndSet_def destroy_TCPConnection_def)
qed

lemma forceClose_race_witness:
  "\<exists>c1 L1. handleClose (\<lambda>_ _. Inr) 1 (waiting_conn kConnected [], idle_loop ()) = Inr (c1, L1)
     \<and> destroy_TCPConnection (fst (forceClose_exchange (c1, L1))) = Inl (AssertFailed ''m_state == kDisconnected'')"
proof -
  let ?c = "waiting_conn kConnected []" and ?L = "idle_loop () :: (nat net_task, unit) event_loop_scheme"
  have "m_state ?c = kConnected" "polling (m_channel ?c)" by (simp_all add: waiting_conn_def)
  from forceClose_race[OF this, of ?L] show ?thesis by (auto simp: idle_loop_def)
qed

section \<open>Sending from another thread\<close>

text \<open>One more count in the \<^verbatim>\<open>eventfd\<close>, and that no operation of sending looks at it.\<close>

definition bump :: "('u, 'w) event_loop_scheme \<Rightarrow> ('u, 'w) event_loop_scheme" where
  "bump L = L\<lparr>wakeup_count := wakeup_count L + 1\<rparr>"

definition bumped :: "('u, 'w) conn_loop res \<Rightarrow> ('u, 'w) conn_loop res" where
  "bumped r = bindR r (\<lambda>(c, L). Inr (c, bump L))"

lemma bump_simps [simp]: "m_tid (bump L) = m_tid L" "m_poller (bump L) = m_poller L"
  by (simp_all add: bump_def)

lemma queue_callback_bump: "queue_callback mk cb (bump L) = bump (queue_callback mk cb L)"
  by (cases cb) (simp_all add: queue_callback_def queueInLoop_def wakeup_def bump_def)

lemma conn_channel_bump: "conn_channel op g (c, bump L) = bumped (conn_channel op g (c, L))"
  by (cases "op (m_tid L) g (m_poller L, m_channel c)")
    (auto simp: conn_channel_def on_channel_def bumped_def bump_def)

lemma send_rest_bump: "send_rest g rest (c, bump L) = bumped (send_rest g rest (c, L))"
proof -
  have if_bump: "(if b then queue_callback mk cb (bump L) else bump L) = bump (if b then queue_callback mk cb L else L)" for b mk cb
    by (simp add: queue_callback_bump)
  show ?thesis
    unfolding send_rest_def Let_def split if_bump conn_channel_bump
    by (cases "append_Buffer (m_outputBuffer c) rest") (simp_all add: bumped_def)
qed

lemma sendInLoop_bump: "sendInLoop g data (c, bump L) = bumped (sendInLoop g data (c, L))"
proof (cases "m_tid L = g")
  case True
  obtain r s where w: "sock_write data (socket_of c) = (r, s)" by fastforce
  with True show ?thesis
    by (cases r) (auto simp: sendInLoop_def assertInLoopThread_def isInLoopThread_def send_rest_bump
        queue_callback_bump assertR_def bumped_def Let_def)
next
  case False
  then show ?thesis by (simp add: sendInLoop_def assertInLoopThread_def isInLoopThread_def bumped_def assertR_def)
qed

text \<open>
  C13. Sending from another thread is sending in the loop: when the queue is empty, a
  \<^verbatim>\<open>send\<close> by another thread followed by the loop running what is queued has exactly the
  effect on the connection, the queue and the poller of a \<^verbatim>\<open>send\<close> by the loop thread itself,
  errors included; only the wakeup descriptor has counted once more.
\<close>

theorem send_from_other_thread:
  assumes "m_pendingTasks L = []" and "m_state c = kConnected" and "g \<noteq> m_tid L"
  shows "\<exists>L1. send g data (c, L) = Inr (c, L1) \<and> m_pendingTasks L1 = [Closure (SendInLoop (self c) data)]
    \<and> run_net_task call (m_tid L) (SendInLoop (self c) data) (c, L1\<lparr>m_pendingTasks := []\<rparr>)
        = bindR (send (m_tid L) data (c, L)) (\<lambda>(c', L'). Inr (c', L'\<lparr>wakeup_count := wakeup_count L' + 1\<rparr>))"
proof -
  let ?L1 = "queueInLoop (Closure (SendInLoop (self c) data)) L"
  have "send g data (c, L) = Inr (c, ?L1)" using assms(2,3) by (simp add: send_def conn_runInLoop_def isInLoopThread_def)
  moreover have "m_pendingTasks ?L1 = [Closure (SendInLoop (self c) data)]"
    using assms(1) by (simp add: queueInLoop_def wakeup_def)
  moreover have eq: "?L1\<lparr>m_pendingTasks := []\<rparr> = bump L" using assms(1) by (simp add: queueInLoop_def wakeup_def bump_def)
  have snd: "send (m_tid L) data (c, L) = sendInLoop (m_tid L) data (c, L)"
    using assms(2) by (simp add: send_def conn_runInLoop_def isInLoopThread_def)
  have "run_net_task call (m_tid L) (SendInLoop (self c) data) (c, ?L1\<lparr>m_pendingTasks := []\<rparr>)
        = bindR (send (m_tid L) data (c, L)) (\<lambda>(c', L'). Inr (c', L'\<lparr>wakeup_count := wakeup_count L' + 1\<rparr>))"
    unfolding eq snd run_net_task.simps sendInLoop_bump by (simp add: bumped_def bump_def)
  ultimately show ?thesis by blast
qed

lemma send_from_other_thread_witness:
  "\<exists>L1. send 2 [1, 2] (waiting_conn kConnected [], idle_loop ()) = Inr (waiting_conn kConnected [], L1)
     \<and> m_pendingTasks L1 = [Closure (SendInLoop 8 [1, 2])]"
proof -
  let ?L = "idle_loop () :: (nat net_task, unit) event_loop_scheme"
  have "m_pendingTasks ?L = []" "m_state (waiting_conn kConnected []) = kConnected" "2 \<noteq> m_tid ?L" "self (waiting_conn kConnected []) = 8"
    by (simp_all add: idle_loop_def waiting_conn_def)
  with send_from_other_thread[of ?L "waiting_conn kConnected []" 2 "[1, 2]" "\<lambda>_ _. Inr"] show ?thesis by auto
qed



end
