(* ===== verification/Acceptor_Connector.thy ===== *)
theory Acceptor_Connector
  imports Tcp_Connection
begin

text \<open>
  The classes \<^verbatim>\<open>Acceptor\<close> and \<^verbatim>\<open>Connector\<close> (\<^verbatim>\<open>Acceptor.hpp\<close>, \<^verbatim>\<open>Acceptor.cpp\<close>,
  \<^verbatim>\<open>Connector.hpp\<close>, \<^verbatim>\<open>Connector.cpp\<close>): a listening and a connecting socket with a channel
  each. The results of the system calls are arguments; the callback for a new connection
  acts on the loop.
\<close>

section \<open>Acceptor\<close>

definition ECONNABORTED :: int where "ECONNABORTED = 103"
definition EMFILE :: int where "EMFILE = 24"
definition EINPROGRESS :: int where "EINPROGRESS = 115"

record acceptor =
  m_localAddress :: inet_address
  m_acceptFd :: int
  m_acceptChannel :: channel

definition createSocket :: "int \<Rightarrow> int res" where
  "createSocket ret =
     (if ret = -1 then Inl (ExitProcess ''Acceptor::socket() || Connector::socket()'') else Inr ret)"

definition new_Acceptor :: "inet_address \<Rightarrow> int \<Rightarrow> int \<Rightarrow> int \<Rightarrow> int \<Rightarrow> acceptor res" where
  "new_Acceptor localAddress socket reuseaddr reuseport bind =
     bindR (createSocket socket) (\<lambda>fd.
     if reuseaddr = -1 then Inl (ExitProcess ''Acceptor::setsockopt() SO_REUSEADDR'')
     else if reuseport = -1 then Inl (ExitProcess ''Acceptor::setsockopt() SO_REUSEPORT'')
     else if bind = -1 then Inl (ExitProcess ''Acceptor::bind()'')
     else Inr \<lparr>m_localAddress = localAddress, m_acceptFd = fd, m_acceptChannel = new_Channel fd\<rparr>)"

definition acceptor_channel ::
  "(tid \<Rightarrow> tid \<Rightarrow> epoller \<times> channel \<Rightarrow> (epoller \<times> channel) res) \<Rightarrow> tid
     \<Rightarrow> acceptor \<times> ('u, 'w) event_loop_scheme \<Rightarrow> (acceptor \<times> ('u, 'w) event_loop_scheme) res" where
  "acceptor_channel op gettid = (\<lambda>(a, L).
     bindR (on_channel op gettid (m_acceptChannel a) L) (\<lambda>(ch, L). Inr (a\<lparr>m_acceptChannel := ch\<rparr>, L)))"

definition destroy_Acceptor ::
  "tid \<Rightarrow> acceptor \<times> ('u, 'w) event_loop_scheme \<Rightarrow> (acceptor \<times> ('u, 'w) event_loop_scheme) res" where
  "destroy_Acceptor gettid = acceptor_channel disableAll gettid"

definition listen ::
  "tid \<Rightarrow> int \<Rightarrow> acceptor \<times> ('u, 'w) event_loop_scheme \<Rightarrow> (acceptor \<times> ('u, 'w) event_loop_scheme) res" where
  "listen gettid ret = (\<lambda>(a, L).
     assertInLoopThread (m_tid L) gettid (
     if ret = -1 then Inl (ExitProcess ''Acceptor::listen()'')
     else acceptor_channel enableRead gettid (a, L)))"

text \<open>
  \<^verbatim>\<open>accept4\<close> returned an \<^verbatim>\<open>errno\<close>, or a descriptor with the peer's address. An error other
  than the two named ends the process (the message is fatal). The callback is called
  without a test, so an unset one is a fault.
\<close>

definition handleRead_acceptor ::
  "(int \<Rightarrow> inet_address \<Rightarrow> inet_address \<Rightarrow> ('u, 'w) event_loop_scheme \<Rightarrow> ('u, 'w) event_loop_scheme res) option
     \<Rightarrow> acceptor \<Rightarrow> int + int \<times> inet_address \<Rightarrow> ('u, 'w) event_loop_scheme \<Rightarrow> ('u, 'w) event_loop_scheme res" where
  "handleRead_acceptor newConnectionCallback a accept4 L =
     (case accept4 of
        Inl savedErrno \<Rightarrow>
          if savedErrno = ECONNABORTED \<or> savedErrno = EMFILE then Inr L
          else Inl (ExitProcess ''unexpected accept4() error'')
      | Inr (sockfd, addr) \<Rightarrow>
          (case newConnectionCallback of
             None \<Rightarrow> Inl BadFunctionCall
           | Some cb \<Rightarrow> cb sockfd (m_localAddress a) (setAddress addr (new_InetAddress True 0 False)) L))"

section \<open>Connector\<close>

record connector =
  m_peer_connector :: inet_address
  m_sockfd_connector :: int
  m_channel_connector :: channel

definition new_Connector :: "inet_address \<Rightarrow> int \<Rightarrow> connector res" where
  "new_Connector peer socket =
     bindR (createSocket socket) (\<lambda>fd.
     Inr \<lparr>m_peer_connector = peer, m_sockfd_connector = fd, m_channel_connector = new_Channel fd\<rparr>)"

definition connector_channel ::
  "(tid \<Rightarrow> tid \<Rightarrow> epoller \<times> channel \<Rightarrow> (epoller \<times> channel) res) \<Rightarrow> tid
     \<Rightarrow> connector \<times> ('u, 'w) event_loop_scheme \<Rightarrow> (connector \<times> ('u, 'w) event_loop_scheme) res" where
  "connector_channel op gettid = (\<lambda>(k, L).
     bindR (on_channel op gettid (m_channel_connector k) L) (\<lambda>(ch, L). Inr (k\<lparr>m_channel_connector := ch\<rparr>, L)))"

text \<open>
  \<^verbatim>\<open>handleWrite\<close>: \<open>so_error\<close> is the value \<^verbatim>\<open>errno\<close> has when it is tested (the pending
  error of the socket when \<^verbatim>\<open>getsockopt\<close> succeeded), \<open>sockname\<close> the address
  \<^verbatim>\<open>getsockname\<close> filled in.
\<close>

definition handleWrite_connector ::
  "(int \<Rightarrow> inet_address \<Rightarrow> inet_address \<Rightarrow> connector \<times> ('u, 'w) event_loop_scheme
      \<Rightarrow> (connector \<times> ('u, 'w) event_loop_scheme) res) option
     \<Rightarrow> tid \<Rightarrow> int \<Rightarrow> inet_address
     \<Rightarrow> connector \<times> ('u, 'w) event_loop_scheme \<Rightarrow> (connector \<times> ('u, 'w) event_loop_scheme) res" where
  "handleWrite_connector newConnectionCallback gettid so_error sockname = (\<lambda>(k, L).
     assertInLoopThread (m_tid L) gettid (
     bindR (if \<not> isNoneEvents (m_channel_connector k) then connector_channel disableAll gettid (k, L)
            else Inr (k, L)) (\<lambda>(k, L).
     if so_error \<noteq> 0 then Inr (k, L)
     else case newConnectionCallback of
            None \<Rightarrow> Inl BadFunctionCall
          | Some cb \<Rightarrow> cb (m_sockfd_connector k) (setAddress sockname (new_InetAddress True 0 False))
                         (m_peer_connector k) (k, L))))"

text \<open>\<^verbatim>\<open>start\<close>: \<open>connect\<close> is an \<^verbatim>\<open>errno\<close> or success.\<close>

definition start_Connector ::
  "(int \<Rightarrow> inet_address \<Rightarrow> inet_address \<Rightarrow> connector \<times> ('u, 'w) event_loop_scheme
      \<Rightarrow> (connector \<times> ('u, 'w) event_loop_scheme) res) option
     \<Rightarrow> tid \<Rightarrow> int option \<Rightarrow> int \<Rightarrow> inet_address
     \<Rightarrow> connector \<times> ('u, 'w) event_loop_scheme \<Rightarrow> (connector \<times> ('u, 'w) event_loop_scheme) res" where
  "start_Connector newConnectionCallback gettid connect so_error sockname = (\<lambda>(k, L).
     assertInLoopThread (m_tid L) gettid (
     case connect of
       Some e \<Rightarrow> if e = EINPROGRESS then connector_channel enableWrite gettid (k, L) else Inr (k, L)
     | None \<Rightarrow> handleWrite_connector newConnectionCallback gettid so_error sockname (k, L)))"

section \<open>Connecting\<close>

text \<open>A connector that waits for nothing: as constructed, and after each attempt.\<close>

definition idle_connector :: "connector \<Rightarrow> bool" where
  "idle_connector k \<longleftrightarrow> \<not> polling (m_channel_connector k) \<and> m_events (m_channel_connector k) = 0"

lemma new_Connector_idle: "new_Connector peer fd = Inr k \<Longrightarrow> idle_connector k"
  by (auto simp: new_Connector_def createSocket_def idle_connector_def new_Channel_def split: if_splits)

text \<open>The end of an attempt: the interest is withdrawn, and the client is told of a success.\<close>

definition attempt_over :: "(int \<Rightarrow> inet_address \<Rightarrow> inet_address \<Rightarrow> connector \<times> ('u, 'w) event_loop_scheme
      \<Rightarrow> (connector \<times> ('u, 'w) event_loop_scheme) res) \<Rightarrow> int \<Rightarrow> inet_address
     \<Rightarrow> connector \<Rightarrow> ('u, 'w) event_loop_scheme \<Rightarrow> (connector \<times> ('u, 'w) event_loop_scheme) res \<Rightarrow> bool" where
  "attempt_over cb err name k L r \<longleftrightarrow>
     (\<exists>k' ep. idle_connector k' \<and> k' = k\<lparr>m_channel_connector := m_channel_connector k'\<rparr>
        \<and> r = (if err \<noteq> 0 then Inr (k', L\<lparr>m_poller := ep\<rparr>)
               else cb (m_sockfd_connector k) (setAddress name (new_InetAddress True 0 False)) (m_peer_connector k)
                      (k', L\<lparr>m_poller := ep\<rparr>)))"

lemma handleWrite_connector_idle:
  assumes "idle_connector k"
  shows "attempt_over cb err name k L (handleWrite_connector (Some cb) (m_tid L) err name (k, L))"
  unfolding attempt_over_def using assms
  by (intro exI[of _ k] exI[of _ "m_poller L"])
    (simp add: handleWrite_connector_def isNoneEvents_def idle_connector_def)

lemma handleWrite_connector_waiting:
  assumes "polling (m_channel_connector k)" and "m_events (m_channel_connector k) \<noteq> 0"
  shows "attempt_over cb err name k L (handleWrite_connector (Some cb) (m_tid L) err name (k, L))"
proof -
  let ?k = "k\<lparr>m_channel_connector := (m_channel_connector k)\<lparr>m_events := 0, polling := False\<rparr>\<rparr>"
  from assms obtain ep where "connector_channel disableAll (m_tid L) (k, L) = Inr (?k, L\<lparr>m_poller := ep\<rparr>)"
    by (simp add: connector_channel_def on_channel_def channel_ops_set_events set_events_ok)
  then have "handleWrite_connector (Some cb) (m_tid L) err name (k, L) = (if err \<noteq> 0 then Inr (?k, L\<lparr>m_poller := ep\<rparr>)
      else cb (m_sockfd_connector k) (setAddress name (new_InetAddress True 0 False)) (m_peer_connector k) (?k, L\<lparr>m_poller := ep\<rparr>))"
    using assms(2) by (simp add: handleWrite_connector_def isNoneEvents_def)
  moreover have "idle_connector ?k" "?k = k\<lparr>m_channel_connector := m_channel_connector ?k\<rparr>"
    by (simp_all add: idle_connector_def)
  ultimately show ?thesis unfolding attempt_over_def by blast
qed

lemma attempt_over_channel:
  "attempt_over cb err name (k\<lparr>m_channel_connector := ch\<rparr>) L r = attempt_over cb err name k L r"
  by (simp add: attempt_over_def)

lemma start_Connector_waits:
  assumes "idle_connector k"
  obtains k' ep where "start_Connector cb (m_tid L) (Some EINPROGRESS) err name (k, L) = Inr (k', L\<lparr>m_poller := ep\<rparr>)"
    "polling (m_channel_connector k')" "m_events (m_channel_connector k') = EPOLLOUT"
    "k' = k\<lparr>m_channel_connector := m_channel_connector k'\<rparr>"
proof -
  let ?k = "k\<lparr>m_channel_connector := (m_channel_connector k)\<lparr>m_events := EPOLLOUT, polling := True\<rparr>\<rparr>"
  from assms obtain ep where "start_Connector cb (m_tid L) (Some EINPROGRESS) err name (k, L) = Inr (?k, L\<lparr>m_poller := ep\<rparr>)"
    by (auto simp: start_Connector_def connector_channel_def on_channel_def channel_ops_set_events set_events_ok
        idle_connector_def)
  then show thesis by (rule that) simp_all
qed

text \<open>
  C18. One attempt to connect, from an idle connector: an error that is not \<^verbatim>\<open>EINPROGRESS\<close>
  changes nothing; an immediate success calls the client at once; \<^verbatim>\<open>EINPROGRESS\<close> registers
  the channel for \<^verbatim>\<open>EPOLLOUT\<close>, and when it becomes writable the channel is withdrawn and the
  client is called exactly if the socket has no pending error. Afterwards the connector is
  idle again, so that the next attempt can be made.
\<close>

theorem connector_attempt:
  assumes "idle_connector k"
  shows "(\<forall>e. e \<noteq> EINPROGRESS \<longrightarrow> start_Connector (Some cb) (m_tid L) (Some e) err name (k, L) = Inr (k, L))
    \<and> attempt_over cb err name k L (start_Connector (Some cb) (m_tid L) None err name (k, L))
    \<and> (\<exists>k' ep. start_Connector (Some cb) (m_tid L) (Some EINPROGRESS) err name (k, L) = Inr (k', L\<lparr>m_poller := ep\<rparr>)
        \<and> isWriting (m_channel_connector k') \<and> polling (m_channel_connector k')
        \<and> attempt_over cb err name k (L\<lparr>m_poller := ep\<rparr>)
             (handleWrite_connector (Some cb) (m_tid L) err name (k', L\<lparr>m_poller := ep\<rparr>)))"
proof (intro conjI)
  show "\<forall>e. e \<noteq> EINPROGRESS \<longrightarrow> start_Connector (Some cb) (m_tid L) (Some e) err name (k, L) = Inr (k, L)"
    by (simp add: start_Connector_def)
  show "attempt_over cb err name k L (start_Connector (Some cb) (m_tid L) None err name (k, L))"
    using handleWrite_connector_idle[OF assms] by (simp add: start_Connector_def)
  obtain k' ep where s: "start_Connector (Some cb) (m_tid L) (Some EINPROGRESS) err name (k, L) = Inr (k', L\<lparr>m_poller := ep\<rparr>)"
    and w: "polling (m_channel_connector k')" "m_events (m_channel_connector k') = EPOLLOUT"
    and k': "k' = k\<lparr>m_channel_connector := m_channel_connector k'\<rparr>"
    by (rule start_Connector_waits[OF assms])
  have "attempt_over cb err name k (L\<lparr>m_poller := ep\<rparr>)
      (handleWrite_connector (Some cb) (m_tid L) err name (k', L\<lparr>m_poller := ep\<rparr>))"
    using handleWrite_connector_waiting[OF w(1), of cb err name "L\<lparr>m_poller := ep\<rparr>"] w(2)
      attempt_over_channel[of cb err name "m_channel_connector k'" k] k' by simp
  with s w show "\<exists>k' ep. start_Connector (Some cb) (m_tid L) (Some EINPROGRESS) err name (k, L) = Inr (k', L\<lparr>m_poller := ep\<rparr>)
        \<and> isWriting (m_channel_connector k') \<and> polling (m_channel_connector k')
        \<and> attempt_over cb err name k (L\<lparr>m_poller := ep\<rparr>)
             (handleWrite_connector (Some cb) (m_tid L) err name (k', L\<lparr>m_poller := ep\<rparr>))"
    by (intro exI[of _ k'] exI[of _ ep]) (simp add: isWriting_def)
qed

lemma connector_attempt_witness:
  "\<exists>k k' ep. new_Connector any_address 7 = Inr k
     \<and> start_Connector (Some (\<lambda>_ _ _ _. Inl BadFunctionCall)) 1 (Some EINPROGRESS) 0 any_address
          (k, idle_loop () :: (nat net_task, unit) event_loop_scheme) = Inr (k', (idle_loop ())\<lparr>m_poller := ep\<rparr>)
     \<and> isWriting (m_channel_connector k')"
proof -
  let ?L = "idle_loop () :: (nat net_task, unit) event_loop_scheme"
  obtain k where k: "new_Connector any_address 7 = Inr k" by (simp add: new_Connector_def createSocket_def)
  have "m_tid ?L = 1" by (simp add: idle_loop_def)
  with connector_attempt[OF new_Connector_idle[OF k], of "\<lambda>_ _ _ _. Inl BadFunctionCall" ?L 0 any_address] k
  show ?thesis by metis
qed

end
