(* ===== verification/Shared_Connections.thy ===== *)
theory Shared_Connections
  imports Tcp_Connection
begin

text \<open>
  Connections that other threads hold. A server or a client keeps its connections on a heap;
  its loop thread handles events and runs closures, each as one step. Another thread that has
  a \<^verbatim>\<open>shared_ptr\<close> to a connection keeps it allocated and makes calls on it, part by part
  (\<open>begin_call\<close>, \<open>advance_call\<close>), and drops the pointer at last. How a heap is looked at, what
  an event does and how a reference is dropped are parameters here; the locale
  \<open>connection_heap\<close> is the contract under which what the loop thread keeps survives the calls
  of the other threads. \<open>Tcp_Server\<close> and \<open>Client_Runs\<close> interpret it.
\<close>

section \<open>Runs\<close>

text \<open>
  \<open>holders\<close> are the pointers other threads hold, each with the call its thread is making.
  \<open>race_lost\<close> remembers that some exchange has overwritten \<open>kDisconnected\<close>.
\<close>

record ('u, 'w) shared_run =
  at_loop :: "('u net_task, 'w) event_loop_scheme"
  holders :: "(addr \<times> 'u call_pc) list"
  race_lost :: bool

definition nobody_holds :: "('u net_task, 'w) event_loop_scheme \<Rightarrow> ('u, 'w) shared_run" where
  "nobody_holds L = \<lparr>at_loop = L, holders = [], race_lost = False\<rparr>"

definition held_outside :: "addr \<Rightarrow> ('u, 'w) shared_run \<Rightarrow> bool" where
  "held_outside p R \<longleftrightarrow> p \<in> fst ` set (holders R)"

text \<open>
  A step: the loop thread handles an event; another thread copies a pointer to a connection,
  begins a call on the connection its \<open>i\<close>-th pointer points to, goes on with this call, or
  drops the pointer after it.
\<close>

datatype 'e shared_step = InLoop 'e | TakePointer addr | BeginCall nat conn_act | ContinueCall nat | DropPointer nat

type_synonym ('u, 'w) heap_lookup = "addr \<Rightarrow> ('u net_task, 'w) event_loop_scheme \<Rightarrow> 'u tcp_connection option"
type_synonym ('u, 'w) heap_visit = "addr \<Rightarrow> (('u, 'w) conn_loop \<Rightarrow> ('u, 'w) conn_loop res)
    \<Rightarrow> ('u net_task, 'w) event_loop_scheme \<Rightarrow> ('u net_task, 'w) event_loop_scheme res"

fun shared_body :: "('u, 'w) heap_lookup \<Rightarrow> ('u, 'w) heap_visit
    \<Rightarrow> ('e \<Rightarrow> ('u net_task, 'w) event_loop_scheme \<Rightarrow> ('u net_task, 'w) event_loop_scheme res)
    \<Rightarrow> 'e shared_step \<Rightarrow> ('u, 'w) shared_run \<Rightarrow> ('u, 'w) shared_run res" where
  "shared_body lookup visit body (InLoop ev) R = bindR (body ev (at_loop R)) (\<lambda>L. Inr (R\<lparr>at_loop := L\<rparr>))"
| "shared_body lookup visit body (TakePointer p) R =
     Inr (if lookup p (at_loop R) = None then R else R\<lparr>holders := holders R @ [(p, CallIdle)]\<rparr>)"
| "shared_body lookup visit body (BeginCall i a) R =
     (if i < length (holders R) \<and> snd (holders R ! i) = CallIdle then
        case lookup (fst (holders R ! i)) (at_loop R) of
          None \<Rightarrow> Inl UseAfterFree
        | Some c \<Rightarrow> bindR (begin_call a c) (\<lambda>pc. Inr (R\<lparr>holders := (holders R)[i := (fst (holders R ! i), pc)]\<rparr>))
      else Inr R)"
| "shared_body lookup visit body (ContinueCall i) R =
     (if i < length (holders R) then
        case lookup (fst (holders R ! i)) (at_loop R) of
          None \<Rightarrow> Inl UseAfterFree
        | Some c \<Rightarrow>
            bindR (visit (fst (holders R ! i)) (\<lambda>s. Inr (snd (advance_call (snd (holders R ! i)) s))) (at_loop R)) (\<lambda>L.
            Inr (R\<lparr>at_loop := L,
              holders := (holders R)[i := (fst (holders R ! i), fst (advance_call (snd (holders R ! i)) (c, at_loop R)))],
              race_lost := race_lost R \<or> overwrites (snd (holders R ! i)) c\<rparr>))
      else Inr R)"
| "shared_body lookup visit body (DropPointer i) R =
     Inr (if i < length (holders R) \<and> snd (holders R ! i) = CallIdle
       then R\<lparr>holders := take i (holders R) @ drop (Suc i) (holders R)\<rparr> else R)"

text \<open>
  The loop thread lets go of the connection it has dealt with at the end of the step, another
  thread when it drops its pointer; whoever holds the last reference destroys the connection.
\<close>

fun dropped_by :: "('e \<Rightarrow> ('u net_task, 'w) event_loop_scheme \<Rightarrow> addr option) \<Rightarrow> 'e shared_step
    \<Rightarrow> ('u, 'w) shared_run \<Rightarrow> addr option" where
  "dropped_by conn_of (InLoop ev) R = conn_of ev (at_loop R)"
| "dropped_by conn_of (DropPointer i) R = (if i < length (holders R) then Some (fst (holders R ! i)) else None)"
| "dropped_by conn_of _ R = None"

definition drop_reference :: "(addr \<Rightarrow> ('u net_task, 'w) event_loop_scheme \<Rightarrow> ('u net_task, 'w) event_loop_scheme res)
    \<Rightarrow> addr option \<Rightarrow> ('u, 'w) shared_run \<Rightarrow> ('u, 'w) shared_run res" where
  "drop_reference rel p R =
     (case p of
        None \<Rightarrow> Inr R
      | Some p \<Rightarrow> if held_outside p R then Inr R else bindR (rel p (at_loop R)) (\<lambda>L. Inr (R\<lparr>at_loop := L\<rparr>)))"

definition shared_exec :: "('u, 'w) heap_lookup \<Rightarrow> ('u, 'w) heap_visit
    \<Rightarrow> ('e \<Rightarrow> ('u net_task, 'w) event_loop_scheme \<Rightarrow> ('u net_task, 'w) event_loop_scheme res)
    \<Rightarrow> ('e \<Rightarrow> ('u net_task, 'w) event_loop_scheme \<Rightarrow> addr option)
    \<Rightarrow> (addr \<Rightarrow> ('u net_task, 'w) event_loop_scheme \<Rightarrow> ('u net_task, 'w) event_loop_scheme res)
    \<Rightarrow> 'e shared_step \<Rightarrow> ('u, 'w) shared_run \<Rightarrow> ('u, 'w) shared_run res" where
  "shared_exec lookup visit body conn_of rel st R =
     bindR (shared_body lookup visit body st R) (drop_reference rel (dropped_by conn_of st R))"

fun benign_step :: "('e \<Rightarrow> bool) \<Rightarrow> 'e shared_step \<Rightarrow> bool" where
  "benign_step good (InLoop ev) = good ev"
| "benign_step good _ = True"

section \<open>The contract\<close>

text \<open>
  What the owner of the connections promises: its invariant is kept by its events and by a
  part of a call that does not overwrite \<open>kDisconnected\<close>; under the invariant a reference can
  always be dropped; and only dropping the last reference to a connection frees it.
\<close>

locale connection_heap =
  fixes lookup :: "('u, 'w) heap_lookup" and visit :: "('u, 'w) heap_visit"
    and body :: "'e \<Rightarrow> ('u net_task, 'w) event_loop_scheme \<Rightarrow> ('u net_task, 'w) event_loop_scheme res"
    and conn_of :: "'e \<Rightarrow> ('u net_task, 'w) event_loop_scheme \<Rightarrow> addr option"
    and rel :: "addr \<Rightarrow> ('u net_task, 'w) event_loop_scheme \<Rightarrow> ('u net_task, 'w) event_loop_scheme res"
    and inv :: "('u net_task, 'w) event_loop_scheme \<Rightarrow> bool" and good :: "'e \<Rightarrow> bool"
  assumes body_keeps: "inv L \<Longrightarrow> good ev \<Longrightarrow> body ev L = Inr L'
          \<Longrightarrow> inv L' \<and> (\<forall>p. lookup p L \<noteq> None \<longrightarrow> lookup p L' \<noteq> None)"
    and release_keeps: "inv L \<Longrightarrow> \<exists>L'. rel p L = Inr L' \<and> inv L' \<and> (\<forall>q. q \<noteq> p \<longrightarrow> lookup q L \<noteq> None \<longrightarrow> lookup q L' \<noteq> None)"
    and advance_keeps: "inv L \<Longrightarrow> lookup p L = Some c \<Longrightarrow> \<not> overwrites pc c
          \<Longrightarrow> visit p (\<lambda>s. Inr (snd (advance_call pc s))) L = Inr L'
          \<Longrightarrow> inv L' \<and> (\<forall>p. lookup p L \<noteq> None \<longrightarrow> lookup p L' \<noteq> None)"
begin

definition shared_inv :: "('u, 'w) shared_run \<Rightarrow> bool" where
  "shared_inv R \<longleftrightarrow> inv (at_loop R) \<and> (\<forall>p pc. (p, pc) \<in> set (holders R) \<longrightarrow> lookup p (at_loop R) \<noteq> None)"

lemma shared_invI:
  "inv (at_loop R) \<Longrightarrow> (\<And>p pc. (p, pc) \<in> set (holders R) \<Longrightarrow> lookup p (at_loop R) \<noteq> None) \<Longrightarrow> shared_inv R"
  by (auto simp: shared_inv_def)

lemma shared_invD: "shared_inv R \<Longrightarrow> (p, pc) \<in> set (holders R) \<Longrightarrow> lookup p (at_loop R) \<noteq> None"
  unfolding shared_inv_def by blast

lemma shared_body_keeps:
  assumes inv: "shared_inv R" and st: "benign_step good st" and h: "shared_body lookup visit body st R = Inr R'"
    and race: "\<not> race_lost R'"
  shows "shared_inv R'"
proof (cases st)
  case (InLoop ev)
  with h obtain L where "body ev (at_loop R) = Inr L" "R' = R\<lparr>at_loop := L\<rparr>" by (auto simp: bindR_eq_Inr)
  with body_keeps[of "at_loop R" ev L] inv st InLoop show ?thesis by (auto simp: shared_inv_def)
next
  case (TakePointer p)
  have L: "inv (at_loop R)" using inv by (simp add: shared_inv_def)
  from h TakePointer have "R' = R \<or> lookup p (at_loop R) \<noteq> None \<and> R' = R\<lparr>holders := holders R @ [(p, CallIdle)]\<rparr>"
    by (auto split: if_splits)
  then show ?thesis
  proof (elim disjE conjE)
    assume p: "lookup p (at_loop R) \<noteq> None" and R': "R' = R\<lparr>holders := holders R @ [(p, CallIdle)]\<rparr>"
    have "lookup q (at_loop R) \<noteq> None" if "(q, pc) \<in> set (holders R')" for q pc
    proof -
      from that have "(q, pc) \<in> set (holders R) \<or> q = p" by (auto simp: R')
      with shared_invD[OF inv] p show ?thesis by blast
    qed
    with L show ?thesis by (intro shared_invI) (simp_all add: R')
  qed (use inv in simp)
next
  case (BeginCall i a)
  show ?thesis
  proof (cases "R' = R")
    case False
    with h BeginCall obtain pc where i: "i < length (holders R)"
      and R': "R' = R\<lparr>holders := (holders R)[i := (fst (holders R ! i), pc)]\<rparr>"
      by (auto simp: bindR_eq_Inr split: if_splits option.splits)
    have p: "(fst (holders R ! i), snd (holders R ! i)) \<in> set (holders R)" using i by simp
    have "lookup q (at_loop R) \<noteq> None" if "(q, pc') \<in> set (holders R')" for q pc'
    proof -
      from that set_update_subset_insert[of "holders R" i] have "(q, pc') \<in> set (holders R) \<or> q = fst (holders R ! i)"
        by (auto simp: R')
      with p shared_invD[OF inv] show ?thesis by blast
    qed
    with inv show ?thesis by (intro shared_invI) (simp_all add: R' shared_inv_def)
  qed (use inv in simp)
next
  case (ContinueCall i)
  show ?thesis
  proof (cases "i < length (holders R)")
    case True
    obtain p pc where p: "holders R ! i = (p, pc)" by fastforce
    with True h ContinueCall obtain c L where c: "lookup p (at_loop R) = Some c"
      and v: "visit p (\<lambda>s. Inr (snd (advance_call pc s))) (at_loop R) = Inr L"
      and R': "R' = R\<lparr>at_loop := L, holders := (holders R)[i := (p, fst (advance_call pc (c, at_loop R)))],
          race_lost := race_lost R \<or> overwrites pc c\<rparr>"
      by (auto simp: bindR_eq_Inr split: option.splits)
    have "inv (at_loop R)" using inv by (simp add: shared_inv_def)
    with advance_keeps[OF _ c _ v] race R' have L: "inv L" "\<And>p. lookup p (at_loop R) \<noteq> None \<Longrightarrow> lookup p L \<noteq> None" by auto
    have "lookup q (at_loop R) \<noteq> None" if "(q, pc') \<in> set (holders R')" for q pc'
    proof -
      from that set_update_subset_insert[of "holders R" i] have "(q, pc') \<in> set (holders R) \<or> q = p" by (auto simp: R')
      with shared_invD[OF inv] c show ?thesis by blast
    qed
    with L show ?thesis by (intro shared_invI) (simp_all add: R')
  qed (use h ContinueCall inv in simp)
next
  case (DropPointer i)
  let ?hs = "take i (holders R) @ drop (Suc i) (holders R)"
  from h DropPointer have "R' = R \<or> R' = R\<lparr>holders := ?hs\<rparr>" by (auto split: if_splits)
  then show ?thesis
  proof
    assume R': "R' = R\<lparr>holders := ?hs\<rparr>"
    have "lookup p (at_loop R) \<noteq> None" if "(p, pc) \<in> set ?hs" for p pc
      using shared_invD[OF inv, of p pc] that by (auto dest: in_set_takeD in_set_dropD)
    with inv show ?thesis by (intro shared_invI) (simp_all add: R' shared_inv_def)
  qed (use inv in simp)
qed

lemma drop_reference_ok:
  assumes "shared_inv R"
  shows "\<exists>R'. drop_reference rel p R = Inr R' \<and> shared_inv R' \<and> race_lost R' = race_lost R"
proof (cases "\<exists>q. p = Some q \<and> \<not> held_outside q R")
  case True
  then obtain q where q: "p = Some q" "\<not> held_outside q R" by blast
  from release_keeps[of "at_loop R" q] assms obtain L where L: "rel q (at_loop R) = Inr L" "inv L"
    "\<And>r. r \<noteq> q \<Longrightarrow> lookup r (at_loop R) \<noteq> None \<Longrightarrow> lookup r L \<noteq> None"
    by (auto simp: shared_inv_def)
  have "r \<noteq> q" if "(r, pc) \<in> set (holders R)" for r pc using q(2) that by (force simp: held_outside_def)
  then have "lookup r L \<noteq> None" if "(r, pc) \<in> set (holders R)" for r pc
    using L(3) shared_invD[OF assms that] that by blast
  with L(2) have "shared_inv (R\<lparr>at_loop := L\<rparr>)" by (intro shared_invI) simp_all
  with q L(1) show ?thesis by (simp add: drop_reference_def)
next
  case False
  with assms show ?thesis by (auto simp: drop_reference_def split: option.split)
qed

text \<open>
  Every step keeps the invariant unless it loses the race, and the end of a step, where
  references are dropped, never fails.
\<close>

lemma shared_exec_total:
  assumes inv: "shared_inv R" "\<not> race_lost R" and st: "benign_step good st"
    and b: "shared_body lookup visit body st R = Inr R1"
  shows "\<exists>R2. shared_exec lookup visit body conn_of rel st R = Inr R2 \<and> (race_lost R2 \<or> shared_inv R2)"
proof (cases "race_lost R1")
  case False
  from drop_reference_ok[OF shared_body_keeps[OF inv(1) st b False], of "dropped_by conn_of st R"] b
  show ?thesis by (auto simp: shared_exec_def)
next
  case True
  from b True inv(2) have "dropped_by conn_of st R = None"
    by (cases st) (auto simp: bindR_eq_Inr split: if_splits)
  with b True show ?thesis by (simp add: shared_exec_def drop_reference_def)
qed

lemma shared_exec_keeps:
  assumes "race_lost R \<or> shared_inv R" and st: "benign_step good st"
    and h: "shared_exec lookup visit body conn_of rel st R = Inr R'"
  shows "race_lost R' \<or> shared_inv R'"
proof -
  from h obtain R1 where b: "shared_body lookup visit body st R = Inr R1"
    and d: "drop_reference rel (dropped_by conn_of st R) R1 = Inr R'"
    by (auto simp: shared_exec_def bindR_eq_Inr)
  show ?thesis
  proof (cases "race_lost R")
    case True
    from b True have "race_lost R1" by (cases st) (auto simp: bindR_eq_Inr split: if_splits option.splits)
    with d show ?thesis by (auto simp: drop_reference_def bindR_eq_Inr split: option.splits if_splits)
  next
    case False
    with assms(1) have "shared_inv R" by simp
    from shared_exec_total[OF this False st b] h show ?thesis by auto
  qed
qed

lemma shared_run_ok:
  assumes "inv L" and "\<forall>st \<in> set sts. benign_step good st"
    and "run_all (map (shared_exec lookup visit body conn_of rel) sts) (nobody_holds L) = Inr R"
    and "\<not> race_lost R"
  shows "shared_inv R"
proof -
  have "race_lost (nobody_holds L) \<or> shared_inv (nobody_holds L)"
    using assms(1) by (simp add: nobody_holds_def shared_inv_def)
  then have "race_lost R \<or> shared_inv R"
    by (rule run_all_keeps[where P = "\<lambda>R. race_lost R \<or> shared_inv R", OF _ assms(3), rotated])
      (use assms(2) shared_exec_keeps in \<open>auto simp only: set_map\<close>)
  with assms(4) show ?thesis by simp
qed

end

end
