(* ===== verification/Tcp_Server.thy ===== *)
theory Tcp_Server
  imports Acceptor_Connector Shared_Connections
begin

text \<open>
  The class \<^verbatim>\<open>TCPServerSingle\<close> (\<^verbatim>\<open>TCPServerSingle.hpp\<close>, \<^verbatim>\<open>TCPServerSingle.cpp\<close>): an
  acceptor and the set of its connections on one loop; the default callbacks of
  \<^verbatim>\<open>Callbacks.cpp\<close>; and the message callback of the echo servers under \<^verbatim>\<open>src/test\<close>.
  Connections live on a heap and are shared: by the server's set and by the closures bound
  to them that are still pending. When the last reference goes, the destructor runs.
\<close>

section \<open>State\<close>

text \<open>
  The close callback of a connection is the server's \<^verbatim>\<open>closeConnection\<close>; all others are the
  user's. The server's state is the extension of its loop.
\<close>

datatype 'u server_cb = ServerClose | UserCb 'u

record 'u server =
  m_messageCallback_srv :: "'u option"
  m_writeCompleteCallback_srv :: "'u option"
  m_connectionCallback :: "'u option"
  m_connectionSet :: "addr list"
  m_acceptor :: acceptor
  conn_heap :: "addr \<rightharpoonup> 'u server_cb tcp_connection"

type_synonym 'u server_loop = "('u server_cb net_task, 'u server) event_loop_scheme"
type_synonym 'u server_conn = "('u server_cb, 'u server) conn_loop"
type_synonym 'u user_call = "conn_event \<Rightarrow> 'u \<Rightarrow> 'u server_conn \<Rightarrow> 'u server_conn res"

definition on_server :: "('u server \<Rightarrow> 'u server) \<Rightarrow> 'u server_loop \<Rightarrow> 'u server_loop" where
  "on_server f L = L\<lparr>event_loop.more := f (event_loop.more L)\<rparr>"

definition user_conn :: "'u user_call \<Rightarrow> conn_event \<Rightarrow> 'u option \<Rightarrow> 'u server_conn \<Rightarrow> 'u server_conn res" where
  "user_conn user ev cb s = (case cb of None \<Rightarrow> Inr s | Some u \<Rightarrow> user ev u s)"

section \<open>Operations\<close>

definition new_TCPServerSingle :: "inet_address \<Rightarrow> int \<Rightarrow> int \<Rightarrow> int \<Rightarrow> int \<Rightarrow> 'u server res" where
  "new_TCPServerSingle local socket reuseaddr reuseport bind =
     bindR (new_Acceptor local socket reuseaddr reuseport bind) (\<lambda>a.
     Inr \<lparr>m_messageCallback_srv = None, m_writeCompleteCallback_srv = None, m_connectionCallback = None,
       m_connectionSet = [], m_acceptor = a, conn_heap = Map.empty\<rparr>)"

definition setConnectionCallback_srv :: "'u option \<Rightarrow> 'u server \<Rightarrow> 'u server" where
  "setConnectionCallback_srv cb s = s\<lparr>m_connectionCallback := cb\<rparr>"

definition setMessageCallback_srv :: "'u option \<Rightarrow> 'u server \<Rightarrow> 'u server" where
  "setMessageCallback_srv cb s = s\<lparr>m_messageCallback_srv := cb\<rparr>"

definition setWriteCompleteCallback_srv :: "'u option \<Rightarrow> 'u server \<Rightarrow> 'u server" where
  "setWriteCompleteCallback_srv cb s = s\<lparr>m_writeCompleteCallback_srv := cb\<rparr>"

definition start_server :: "tid \<Rightarrow> int \<Rightarrow> 'u server_loop \<Rightarrow> 'u server_loop res" where
  "start_server gettid ret L =
     bindR (listen gettid ret (m_acceptor (event_loop.more L), L)) (\<lambda>(a, L).
     Inr (on_server (\<lambda>s. s\<lparr>m_acceptor := a\<rparr>) L))"

definition closeConnection :: "'u user_call \<Rightarrow> tid \<Rightarrow> 'u server_conn \<Rightarrow> 'u server_conn res" where
  "closeConnection user gettid = (\<lambda>(c, L).
     assertInLoopThread (m_tid L) gettid (
     let L = on_server (\<lambda>s. s\<lparr>m_connectionSet := removeAll (self c) (m_connectionSet s)\<rparr>) L in
     user_conn user OnConnection (m_connectionCallback (event_loop.more L)) (c, L)))"

text \<open>
  What the callbacks the server gave to a connection do. (\<open>ServerClose\<close> is set as a close
  callback only.)
\<close>

fun server_call :: "'u user_call \<Rightarrow> tid \<Rightarrow> ('u server_cb, 'u server) conn_call" where
  "server_call user gettid ev ServerClose s = (if ev = OnClose then closeConnection user gettid s else Inr s)"
| "server_call user gettid ev (UserCb u) s = user ev u s"

text \<open>\<open>p\<close> is the address \<^verbatim>\<open>make_shared\<close> returned, \<open>sock\<close> the accepted socket.\<close>

definition newConnetction :: "'u user_call \<Rightarrow> tid \<Rightarrow> addr \<Rightarrow> socket \<Rightarrow> int \<Rightarrow> inet_address \<Rightarrow> inet_address
    \<Rightarrow> 'u server_loop \<Rightarrow> 'u server_loop res" where
  "newConnetction user gettid p sock connfd local peer L =
     assertInLoopThread (m_tid L) gettid (
     bindR (new_TCPConnection p connfd local peer sock) (\<lambda>c.
     let L = on_server (\<lambda>s. s\<lparr>m_connectionSet :=
               (if p \<in> set (m_connectionSet s) then m_connectionSet s else m_connectionSet s @ [p])\<rparr>) L;
         c = setMessageCallback (map_option UserCb (m_messageCallback_srv (event_loop.more L))) c;
         c = setWriteCompleteCallback (map_option UserCb (m_writeCompleteCallback_srv (event_loop.more L))) c;
         c = setCloseCallback (Some ServerClose) c in
     bindR (connectEstablished gettid (c, L)) (\<lambda>(c, L).
     bindR (user_conn user OnConnection (m_connectionCallback (event_loop.more L)) (c, L)) (\<lambda>(c, L).
     Inr (on_server (\<lambda>s. s\<lparr>conn_heap := (conn_heap s)(p \<mapsto> c)\<rparr>) L)))))"

text \<open>An operation on the connection at an address.\<close>

definition with_conn :: "addr \<Rightarrow> ('u server_conn \<Rightarrow> 'u server_conn res) \<Rightarrow> 'u server_loop \<Rightarrow> 'u server_loop res" where
  "with_conn p op L =
     (case conn_heap (event_loop.more L) p of
        None \<Rightarrow> Inl UseAfterFree
      | Some c \<Rightarrow> bindR (op (c, L)) (\<lambda>(c', L'). Inr (on_server (\<lambda>s. s\<lparr>conn_heap := (conn_heap s)(p \<mapsto> c')\<rparr>) L')))"

text \<open>
  A closure acts on a connection; all closures but those of \<^verbatim>\<open>stopRead\<close> and \<^verbatim>\<open>startRead\<close>,
  which capture \<^verbatim>\<open>this\<close>, hold a reference to it. When the last reference is dropped, the
  destructor runs.
\<close>

fun task_target :: "'u net_task task \<Rightarrow> addr option" where
  "task_target (Closure (SendInLoop p d)) = Some p"
| "task_target (Closure (ShutdownInLoop p)) = Some p"
| "task_target (Closure (ForceCloseInLoop p)) = Some p"
| "task_target (Closure (StopReadInLoop p)) = Some p"
| "task_target (Closure (StartReadInLoop p)) = Some p"
| "task_target (Closure (WriteCompleteTask u p)) = Some p"
| "task_target (Closure (HighWaterMarkTask u p n)) = Some p"
| "task_target _ = None"

fun holds_reference :: "'u net_task task \<Rightarrow> bool" where
  "holds_reference (Closure (StopReadInLoop p)) = False"
| "holds_reference (Closure (StartReadInLoop p)) = False"
| "holds_reference t = (task_target t \<noteq> None)"

definition referenced :: "addr \<Rightarrow> 'u server_loop \<Rightarrow> bool" where
  "referenced p L \<longleftrightarrow> p \<in> set (m_connectionSet (event_loop.more L)) \<or> (\<exists>t \<in> set (m_pendingTasks L). holds_reference t \<and> task_target t = Some p)"

definition release :: "addr \<Rightarrow> 'u server_loop \<Rightarrow> 'u server_loop res" where
  "release p L =
     (if referenced p L then Inr L
      else case conn_heap (event_loop.more L) p of
        None \<Rightarrow> Inr L
      | Some c \<Rightarrow> bindR (destroy_TCPConnection c) (\<lambda>_.
          Inr (on_server (\<lambda>s. s\<lparr>conn_heap := (conn_heap s)(p := None)\<rparr>) L)))"

text \<open>
  There is no destructor of its own: the members are destroyed in reverse order, the
  acceptor and then the set with its references.
\<close>

definition destroy_TCPServerSingle :: "tid \<Rightarrow> 'u server_loop \<Rightarrow> 'u server_loop res" where
  "destroy_TCPServerSingle gettid L =
     bindR (destroy_Acceptor gettid (m_acceptor (event_loop.more L), L)) (\<lambda>(a, L).
     let ps = m_connectionSet (event_loop.more L) in
     run_all (map release ps) (on_server (\<lambda>s. s\<lparr>m_acceptor := a, m_connectionSet := []\<rparr>) L))"

section \<open>Default callbacks and the echo server\<close>

text \<open>The first and the last only log.\<close>

definition defaultConnectionCallback :: "('u, 'w) conn_loop \<Rightarrow> ('u, 'w) conn_loop" where
  "defaultConnectionCallback s = s"

definition defaultMessageCallback :: "('u, 'w) conn_loop \<Rightarrow> ('u, 'w) conn_loop" where
  "defaultMessageCallback = (\<lambda>(c, L). (c\<lparr>m_inputBuffer := retrieveAll (m_inputBuffer c)\<rparr>, L))"

definition defaultThreadInitCallback :: "nat \<Rightarrow> 's \<Rightarrow> 's" where
  "defaultThreadInitCallback index s = s"

definition echo_onMessage :: "tid \<Rightarrow> ('u, 'w) conn_loop \<Rightarrow> ('u, 'w) conn_loop res" where
  "echo_onMessage gettid = (\<lambda>(c, L).
     bindR (retrieveAllAsString (m_inputBuffer c)) (\<lambda>(str, ib).
     send gettid str (c\<lparr>m_inputBuffer := ib\<rparr>, L)))"

section \<open>Running a server\<close>

text \<open>
  A user callback is a script of calls on its connection, as in \<open>Tcp_Connection\<close>. An event
  of a server: a connection is accepted (at a free address), a connection's channel is
  ready, a call on a connection, made in one go, or the first pending closure is run; each
  is followed by the release of the connection if nothing refers to it any more. Other
  threads that hold connections and make calls on them part by part are added in
  \<open>server_shared\<close>.
\<close>

definition scripted_user :: "(conn_event \<Rightarrow> 'u \<Rightarrow> conn_act list) \<Rightarrow> conn_event \<Rightarrow> 'u
    \<Rightarrow> ('v, 'w) conn_loop \<Rightarrow> ('v, 'w) conn_loop res" where
  "scripted_user script ev u = (\<lambda>(c, L). run_all (map (plain_act (m_tid L)) (script ev u)) (c, L))"

datatype server_event =
    Accepted "int + int \<times> inet_address" addr socket
  | ConnReady addr "32 word"
  | ConnCall tid addr conn_act
  | RunNext

fun server_body :: "(conn_event \<Rightarrow> 'u \<Rightarrow> conn_act list) \<Rightarrow> server_event \<Rightarrow> 'u server_loop \<Rightarrow> 'u server_loop res" where
  "server_body script (Accepted r p sock) L =
     (if conn_heap (event_loop.more L) p \<noteq> None \<or> referenced p L then Inr L
      else handleRead_acceptor
             (Some (newConnetction (scripted_user script) (m_tid L) p sock)) (m_acceptor (event_loop.more L)) r L)"
| "server_body script (ConnReady p ev) L =
     with_conn p (handle_conn_event (server_call (scripted_user script) (m_tid L)) (m_tid L) ev) L"
| "server_body script (ConnCall g p a) L = with_conn p (plain_act g a) L"
| "server_body script RunNext L =
     (case m_pendingTasks L of
        [] \<Rightarrow> Inr L
      | t # ts \<Rightarrow>
          (case (t, task_target t) of
             (Closure u, Some p) \<Rightarrow>
               with_conn p (run_net_task (server_call (scripted_user script) (m_tid L)) (m_tid L) u)
                 (L\<lparr>m_pendingTasks := ts\<rparr>)
           | _ \<Rightarrow> run_task (\<lambda>_. Inr) t (L\<lparr>m_pendingTasks := ts\<rparr>)))"

fun event_conn :: "server_event \<Rightarrow> 'u server_loop \<Rightarrow> addr option" where
  "event_conn (Accepted r p sock) L = Some p"
| "event_conn (ConnReady p ev) L = Some p"
| "event_conn (ConnCall g p a) L = Some p"
| "event_conn RunNext L = (case m_pendingTasks L of [] \<Rightarrow> None | t # ts \<Rightarrow> task_target t)"

definition server_step :: "(conn_event \<Rightarrow> 'u \<Rightarrow> conn_act list) \<Rightarrow> server_event \<Rightarrow> 'u server_loop \<Rightarrow> 'u server_loop res" where
  "server_step script ev L =
     bindR (server_body script ev L) (case event_conn ev L of None \<Rightarrow> Inr | Some p \<Rightarrow> release p)"

section \<open>Invariant\<close>

text \<open>
  The connections on the heap are where they say they are, are well formed, tell the server
  when they close, and are in the server's set exactly as long as they are not closed.
\<close>

definition conn_served :: "'u server \<Rightarrow> addr \<Rightarrow> 'u server_cb tcp_connection \<Rightarrow> bool" where
  "conn_served w p c \<longleftrightarrow> self c = p \<and> conn_inv c \<and> benign (socket_of c) \<and> m_closeCallback_conn c = Some ServerClose
     \<and> (p \<in> set (m_connectionSet w) \<longleftrightarrow> \<not> isDisconnected c)"

definition server_inv :: "'u server \<Rightarrow> bool" where
  "server_inv w \<longleftrightarrow> (\<forall>p c. conn_heap w p = Some c \<longrightarrow> conn_served w p c)
     \<and> set (m_connectionSet w) \<subseteq> dom (conn_heap w)"

text \<open>
  While a connection is acted on, the server's state differs from \<open>w0\<close> only in whether the
  connection is in the set.
\<close>

definition only_at :: "addr \<Rightarrow> 'u server \<Rightarrow> 'u server \<Rightarrow> bool" where
  "only_at p w0 w \<longleftrightarrow> conn_heap w = conn_heap w0
     \<and> set (m_connectionSet w) - {p} = set (m_connectionSet w0) - {p}"

definition serving :: "addr \<Rightarrow> 'u server \<Rightarrow> addr \<Rightarrow> 'u server_cb \<Rightarrow> bool \<Rightarrow> bytes \<Rightarrow> 'u server \<Rightarrow> bool" where
  "serving p0 w0 p u closed str w \<longleftrightarrow> p = p0 \<and> u = ServerClose \<and> only_at p w0 w
     \<and> (p \<in> set (m_connectionSet w) \<longleftrightarrow> \<not> closed)"

definition leaving :: "addr \<Rightarrow> 'u server \<Rightarrow> addr \<Rightarrow> 'u server_cb \<Rightarrow> bool \<Rightarrow> bytes \<Rightarrow> 'u server \<Rightarrow> bool" where
  "leaving p0 w0 p u closed str w \<longleftrightarrow> p = p0 \<and> u = ServerClose \<and> only_at p w0 w \<and> closed"

definition ignores_stream :: "(addr \<Rightarrow> 'v \<Rightarrow> bool \<Rightarrow> bytes \<Rightarrow> 'w \<Rightarrow> bool) \<Rightarrow> bool" where
  "ignores_stream K \<longleftrightarrow> (\<forall>p u d str w. K p u d str w \<longrightarrow> (\<forall>str'. K p u d str' w))"

lemma sendInLoop_keeps:
  assumes K: "ignores_stream K" and ok: "conn_ok K (c, L)" and h: "sendInLoop g d (c, L) = Inr (c', L')"
  shows "conn_ok K (c', L')"
proof -
  have inv: "conn_inv c" "benign (socket_of c)" using ok by (simp_all add: conn_ok_def)
  from sendInLoop_Inr[OF inv h] ok have
    "conn_inv c' \<and> benign (socket_of c') \<and> m_closeCallback_conn c' \<noteq> None"
    "K (self c') (the (m_closeCallback_conn c')) (m_state c' = kDisconnected) (stream c) (event_loop.more L')"
    by (simp_all add: conn_ok_def)
  with K show ?thesis by (simp add: conn_ok_def ignores_stream_def)
qed

lemma plain_act_keeps:
  assumes K: "ignores_stream K"
    and ok: "conn_ok K s" and h: "plain_act g a s = Inr s'"
  shows "conn_ok K s'"
proof -
  obtain c L c' L' where s: "s = (c, L)" and s': "s' = (c', L')" by fastforce
  have inv: "conn_inv c" "benign (socket_of c)" using ok by (simp_all add: s conn_ok_def)
  show ?thesis
  proof (cases a)
    case (ActSend d)
    have "send g d (c, L) = Inr s' \<Longrightarrow> s' = (c, L) \<or> conn_runInLoop g (SendInLoop (self c) d) (sendInLoop g d) (c, L) = Inr s'"
      by (simp add: send_def split: if_splits)
    with h ActSend consider "s' = (c, L)" | "s' = (c, queueInLoop (Closure (SendInLoop (self c) d)) L)"
      | "sendInLoop g d (c, L) = Inr (c', L')"
      using conn_runInLoop_cases[of g "SendInLoop (self c) d" "sendInLoop g d" c L s'] by (auto simp: s s')
    then show ?thesis
    proof cases
      case 1
      with ok show ?thesis by (simp add: s)
    next
      case 2
      with ok show ?thesis by (simp add: s queueInLoop_ok)
    next
      case 3
      from sendInLoop_keeps[OF K _ this] ok show ?thesis by (simp add: s s')
    qed
  next
    case ActShutdown
    with h shutdown_unchanged[OF inv, of g L c' L'] ok show ?thesis by (simp add: s s' unchanged_ok)
  next
    case ActForceClose
    with h forceClose_unchanged[OF inv, of L] ok show ?thesis by (auto simp: s intro: unchanged_ok)
  next
    case ActStopRead
    with h have "conn_runInLoop g (StopReadInLoop (self c)) (stopReadInLoop g) (c, L) = Inr s'"
      by (simp add: s stopRead_def)
    from conn_runInLoop_cases[OF this] stopReadInLoop_unchanged[OF inv, of g L c' L'] ok show ?thesis
      by (auto simp: s s' queueInLoop_ok intro: unchanged_ok)
  next
    case ActStartRead
    with h have "conn_runInLoop g (StartReadInLoop (self c)) (startReadInLoop g) (c, L) = Inr s'"
      by (simp add: s startRead_def)
    from conn_runInLoop_cases[OF this] startReadInLoop_unchanged[OF inv, of g L c' L'] ok show ?thesis
      by (auto simp: s s' queueInLoop_ok intro: unchanged_ok)
  qed
qed

lemma scripted_user_keeps:
  assumes K: "ignores_stream K"
    and ok: "conn_ok K s" and h: "scripted_user script ev u s = Inr s'"
  shows "conn_ok K s'"
proof -
  obtain c L where s: "s = (c, L)" by fastforce
  show ?thesis
  proof (rule run_all_keeps[where P = "conn_ok K"])
    show "run_all (map (plain_act (m_tid L)) (script ev u)) s = Inr s'"
      using h by (simp add: scripted_user_def s)
    show "conn_ok K s" by (rule ok)
    show "conn_ok K t'" if "f \<in> set (map (plain_act (m_tid L)) (script ev u))" "conn_ok K t" "f t = Inr t'" for f t t'
      using that by (auto intro: plain_act_keeps[OF K])
  qed
qed

lemma serving_stream: "ignores_stream (serving p0 w0)"
  by (simp add: serving_def ignores_stream_def)

lemma user_conn_keeps:
  "conn_ok (serving p w0) s \<Longrightarrow> user_conn (scripted_user script) ev cb s = Inr s' \<Longrightarrow> conn_ok (serving p w0) s'"
  by (auto simp: user_conn_def intro: scripted_user_keeps[OF serving_stream] split: option.splits)

lemma on_server_simps [simp]:
  "event_loop.more (on_server f L) = f (event_loop.more L)" "m_tid (on_server f L) = m_tid L"
  "m_pendingTasks (on_server f L) = m_pendingTasks L"
  by (simp_all add: on_server_def)

lemma closeConnection_keeps:
  assumes ok: "conn_ok (leaving p w0) s" and h: "closeConnection (scripted_user script) g s = Inr s'"
  shows "conn_ok (serving p w0) s'"
proof -
  obtain c L where s: "s = (c, L)" by fastforce
  let ?L = "on_server (\<lambda>s. s\<lparr>m_connectionSet := removeAll (self c) (m_connectionSet s)\<rparr>) L"
  have "user_conn (scripted_user script) OnConnection (m_connectionCallback (event_loop.more ?L)) (c, ?L) = Inr s'"
    using h by (simp add: closeConnection_def s assertInLoopThread_eq_Inr Let_def)
  moreover have "conn_ok (serving p w0) (c, ?L)"
    using ok by (auto simp: s conn_ok_def leaving_def serving_def only_at_def)
  ultimately show ?thesis using user_conn_keeps by blast
qed

interpretation served: conn_client "server_call (scripted_user script) g" "serving p w0" "leaving p w0"
proof
  fix ev u and s s' :: "('a server_cb, 'a server) conn_loop"
  show "conn_ok (serving p w0) s'"
    if "ev \<noteq> OnClose" "conn_ok (serving p w0) s" "server_call (scripted_user script) g ev u s = Inr s'"
    using that by (cases u) (auto intro: scripted_user_keeps[OF serving_stream])
  show "conn_ok (serving p w0) s'" if "conn_ok (leaving p w0) s" "m_closeCallback_conn (fst s) = Some u"
    "server_call (scripted_user script) g OnClose u s = Inr s'"
  proof -
    from that(1,2) have "u = ServerClose" by (auto simp: conn_ok_def leaving_def)
    with that closeConnection_keeps show ?thesis by simp
  qed
qed (simp add: serving_def leaving_def)

text \<open>Storing a connection after an operation on it, and the operation itself.\<close>

lemma served_store:
  assumes inv: "server_inv w0" and ok: "conn_ok (serving p w0) (c, L)"
  shows "server_inv (event_loop.more (on_server (\<lambda>s. s\<lparr>conn_heap := (conn_heap s)(p \<mapsto> c)\<rparr>) L))"
proof -
  let ?w = "event_loop.more L"
  have c: "self c = p" "conn_inv c" "benign (socket_of c)" "m_closeCallback_conn c = Some ServerClose"
    "p \<in> set (m_connectionSet ?w) \<longleftrightarrow> \<not> isDisconnected c" and at: "only_at p w0 ?w"
    using ok by (auto simp: conn_ok_def serving_def isDisconnected_def)
  have others: "q \<in> set (m_connectionSet ?w) \<longleftrightarrow> q \<in> set (m_connectionSet w0)" if "q \<noteq> p" for q
    using at that by (auto simp: only_at_def)
  show ?thesis
    using inv c others at unfolding server_inv_def conn_served_def only_at_def
    by (auto split: if_splits)
qed

lemma with_conn_keeps:
  assumes inv: "server_inv (event_loop.more L)" and h: "with_conn p op L = Inr L'"
    and op: "\<And>c s'. conn_ok (serving p (event_loop.more L)) (c, L) \<Longrightarrow> op (c, L) = Inr s'
      \<Longrightarrow> conn_ok (serving p (event_loop.more L)) s'"
  shows "server_inv (event_loop.more L')"
proof -
  from h obtain c c' L1 where c: "conn_heap (event_loop.more L) p = Some c" and o: "op (c, L) = Inr (c', L1)"
    and L': "L' = on_server (\<lambda>s. s\<lparr>conn_heap := (conn_heap s)(p \<mapsto> c')\<rparr>) L1"
    by (auto simp: with_conn_def res_iffs split: option.splits)
  have "conn_served (event_loop.more L) p c" using inv c by (simp add: server_inv_def)
  then have "conn_ok (serving p (event_loop.more L)) (c, L)"
    by (simp add: conn_ok_def conn_served_def serving_def only_at_def isDisconnected_def)
  from op[OF this o] served_store[OF inv] show ?thesis by (simp add: L')
qed

text \<open>What happens to the other connections: nothing.\<close>

lemma with_conn_elsewhere:
  assumes inv: "server_inv (event_loop.more L)" and h: "with_conn p op L = Inr L'"
    and op: "\<And>c s'. conn_ok (serving p (event_loop.more L)) (c, L) \<Longrightarrow> op (c, L) = Inr s'
      \<Longrightarrow> conn_ok (serving p (event_loop.more L)) s'"
  shows "dom (conn_heap (event_loop.more L')) = dom (conn_heap (event_loop.more L))"
    "set (m_connectionSet (event_loop.more L')) - {p} = set (m_connectionSet (event_loop.more L)) - {p}"
proof -
  from h obtain c c' L1 where c: "conn_heap (event_loop.more L) p = Some c" and o: "op (c, L) = Inr (c', L1)"
    and L': "L' = on_server (\<lambda>s. s\<lparr>conn_heap := (conn_heap s)(p \<mapsto> c')\<rparr>) L1"
    by (auto simp: with_conn_def res_iffs split: option.splits)
  have "conn_served (event_loop.more L) p c" using inv c by (simp add: server_inv_def)
  then have "conn_ok (serving p (event_loop.more L)) (c, L)"
    by (simp add: conn_ok_def conn_served_def serving_def only_at_def isDisconnected_def)
  from op[OF this o] have "only_at p (event_loop.more L) (event_loop.more L1)" by (auto simp: conn_ok_def serving_def)
  then show "dom (conn_heap (event_loop.more L')) = dom (conn_heap (event_loop.more L))"
    "set (m_connectionSet (event_loop.more L')) - {p} = set (m_connectionSet (event_loop.more L)) - {p}"
    using c by (auto simp: L' only_at_def)
qed

lemma served_task_keeps:
  assumes ok: "conn_ok (serving p w0) (c, L)"
    and h: "run_net_task (server_call (scripted_user script) g) g t (c, L) = Inr s'"
  shows "conn_ok (serving p w0) s'"
proof (cases "\<exists>q d. t = SendInLoop q d")
  case True
  with h ok show ?thesis
    by (metis run_net_task.simps(1) sendInLoop_keeps[OF serving_stream] surj_pair)
next
  case False
  with served.run_net_task_keeps[OF ok h] show ?thesis by blast
qed

text \<open>A new connection is established, and in the set.\<close>

lemma establish_setters:
  "bindR (new_TCPConnection p fd local peer sock) (\<lambda>c. connectEstablished (m_tid L)
      (setCloseCallback (Some k) (setWriteCompleteCallback w (setMessageCallback m c)), L))
     = establish p fd local peer sock m w None 0 k L"
  by (simp add: establish_def new_TCPConnection_ok setMessageCallback_def setWriteCompleteCallback_def
      setCloseCallback_def setHighWaterMarkCallback_def)

definition enlist :: "addr \<Rightarrow> 'u server \<Rightarrow> 'u server" where
  "enlist p s = s\<lparr>m_connectionSet := (if p \<in> set (m_connectionSet s) then m_connectionSet s else m_connectionSet s @ [p])\<rparr>"

lemma enlist_simps [simp]:
  "m_messageCallback_srv (enlist p s) = m_messageCallback_srv s"
  "m_writeCompleteCallback_srv (enlist p s) = m_writeCompleteCallback_srv s"
  "m_connectionCallback (enlist p s) = m_connectionCallback s"
  "conn_heap (enlist p s) = conn_heap s" "set (m_connectionSet (enlist p s)) = insert p (set (m_connectionSet s))"
  by (auto simp: enlist_def)

lemma newConnetction_eq:
  "newConnetction user (m_tid L) p sock fd local peer L =
     bindR (establish p fd local peer sock (map_option UserCb (m_messageCallback_srv (event_loop.more L)))
        (map_option UserCb (m_writeCompleteCallback_srv (event_loop.more L))) None 0 ServerClose (on_server (enlist p) L))
       (\<lambda>(c, L). bindR (user_conn user OnConnection (m_connectionCallback (event_loop.more L)) (c, L)) (\<lambda>(c, L).
        Inr (on_server (\<lambda>s. s\<lparr>conn_heap := (conn_heap s)(p \<mapsto> c)\<rparr>) L)))"
  unfolding newConnetction_def Let_def enlist_def[symmetric] establish_setters[symmetric] bindR_assoc
  by (simp add: assertInLoopThread_def isInLoopThread_def)

lemma newConnetction_keeps:
  assumes inv: "server_inv (event_loop.more L)" and free: "conn_heap (event_loop.more L) p = None"
    and sock: "benign sock"
    and h: "newConnetction (scripted_user script) g p sock fd local peer L = Inr L'"
  shows "server_inv (event_loop.more L') \<and> dom (conn_heap (event_loop.more L')) = insert p (dom (conn_heap (event_loop.more L)))
    \<and> set (m_connectionSet (event_loop.more L')) - {p} = set (m_connectionSet (event_loop.more L)) - {p}"
proof -
  let ?w = "event_loop.more L"
  let ?L = "on_server (enlist p) L"
  let ?m = "map_option UserCb (m_messageCallback_srv ?w)" and ?wc = "map_option UserCb (m_writeCompleteCallback_srv ?w)"
  have "g = m_tid L" using h by (simp add: newConnetction_def assertInLoopThread_eq_Inr)
  obtain c ep where e: "establish p fd local peer sock ?m ?wc None 0 ServerClose ?L = Inr (c, ?L\<lparr>m_poller := ep\<rparr>)"
    "conn_inv c" "socket_of c = sock" "m_closeCallback_conn c = Some ServerClose" "m_state c = kConnected" "self c = p"
    using establish_ok[of p fd local peer sock ?m ?wc None 0 ServerClose ?L] by metis
  from h e(1) \<open>g = m_tid L\<close> obtain s' where
    u: "user_conn (scripted_user script) OnConnection (m_connectionCallback ?w) (c, ?L\<lparr>m_poller := ep\<rparr>) = Inr s'"
    and L': "L' = on_server (\<lambda>s. s\<lparr>conn_heap := (conn_heap s)(p \<mapsto> fst s')\<rparr>) (snd s')"
    by (auto simp: newConnetction_eq res_iffs)
  have "conn_ok (serving p ?w) (c, ?L\<lparr>m_poller := ep\<rparr>)"
    using e sock by (simp add: conn_ok_def serving_def only_at_def)
  from user_conn_keeps[OF this u] have ok: "conn_ok (serving p ?w) (fst s', snd s')" by simp
  then have "only_at p ?w (event_loop.more (snd s'))" by (auto simp: conn_ok_def serving_def)
  with served_store[OF inv ok] show ?thesis by (simp add: L' only_at_def)
qed

lemma release_ok:
  assumes inv: "server_inv (event_loop.more L)"
  shows "\<exists>L'. release p L = Inr L' \<and> server_inv (event_loop.more L')"
proof (cases "referenced p L \<or> conn_heap (event_loop.more L) p = None")
  case True
  with inv show ?thesis by (auto simp: release_def)
next
  case False
  then obtain c where c: "conn_heap (event_loop.more L) p = Some c" "p \<notin> set (m_connectionSet (event_loop.more L))"
    by (auto simp: referenced_def)
  with inv have "m_state c = kDisconnected" by (auto simp: server_inv_def conn_served_def isDisconnected_def)
  then have r: "release p L = Inr (on_server (\<lambda>s. s\<lparr>conn_heap := (conn_heap s)(p := None)\<rparr>) L)"
    using False c by (simp add: release_def destroy_TCPConnection_def)
  have "server_inv (event_loop.more (on_server (\<lambda>s. s\<lparr>conn_heap := (conn_heap s)(p := None)\<rparr>) L))"
    using inv c(2) unfolding server_inv_def conn_served_def by (auto split: if_splits)
  with r show ?thesis by blast
qed

section \<open>Properties\<close>

text \<open>An accepted socket behaves as documented (no write error that loses data).\<close>

fun benign_event :: "server_event \<Rightarrow> bool" where
  "benign_event (Accepted r p sock) = benign sock"
| "benign_event _ = True"

lemma timerfdSet_server: "timerfdSet t L = Inr L' \<Longrightarrow> event_loop.more L' = event_loop.more L"
  by (auto simp: timerfdSet_def res_iffs)

lemma timer_task_server:
  assumes h: "run_task (\<lambda>_. Inr) t L = Inr L'"
  shows "event_loop.more L' = event_loop.more L"
proof (cases t)
  case (TimerInsert e)
  with h timerfdSet_server[of "fst e" "L\<lparr>m_timers := set_insert e (m_timers L)\<rparr>" L'] show ?thesis
    by (simp add: insertTimer_def assertR_eq_Inr Let_def split: if_splits) auto
next
  case (TimerErase p)
  with h have "eraseTimer p L = Inr L'" by simp
  then obtain x y where "deref p L = Inr x" "cancel x = Inr y"
    and L': "L' = delete_timer p (L\<lparr>timer_heap := (timer_heap L)(p \<mapsto> y), m_timers := remove1 (m_when y, p) (m_timers L)\<rparr>)"
    unfolding eraseTimer_def bindR_eq_Inr Let_def by auto
  then show ?thesis by (simp add: delete_timer_def)
qed (use h in simp)

lemma accepted_cases:
  assumes "handleRead_acceptor (Some cb) a r L = Inr L'"
  obtains "L' = L" | fd peer where "cb fd (m_localAddress a) peer L = Inr L'"
proof (cases r)
  case (Inl e)
  with assms have "L' = L" by (simp add: handleRead_acceptor_def split: if_splits)
  then show thesis by (rule that(1))
next
  case (Inr x)
  obtain fd addr where "x = (fd, addr)" by fastforce
  with assms Inr show thesis by (intro that(2)) (simp add: handleRead_acceptor_def)
qed

lemma server_body_keeps:
  assumes inv: "server_inv (event_loop.more L)" and ev: "benign_event ev"
    and h: "server_body script ev L = Inr L'"
  shows "server_inv (event_loop.more L')"
proof (cases ev)
  case (Accepted r p sock)
  show ?thesis
  proof (cases "conn_heap (event_loop.more L) p \<noteq> None \<or> referenced p L")
    case True
    with h Accepted inv show ?thesis by auto
  next
    case False
    with h Accepted have "handleRead_acceptor (Some (newConnetction (scripted_user script) (m_tid L) p sock))
        (m_acceptor (event_loop.more L)) r L = Inr L'" by simp
    then consider "L' = L" | fd peer where
      "newConnetction (scripted_user script) (m_tid L) p sock fd (m_localAddress (m_acceptor (event_loop.more L))) peer L = Inr L'"
      by (rule accepted_cases)
    then show ?thesis
      using inv False ev Accepted by cases (auto dest: newConnetction_keeps)
  qed
next
  case (ConnReady p e)
  with h with_conn_keeps[OF inv] served.handle_conn_event_keeps show ?thesis by (metis server_body.simps(2))
next
  case (ConnCall g p a)
  with h with_conn_keeps[OF inv] plain_act_keeps[OF serving_stream] show ?thesis by (metis server_body.simps(3))
next
  case RunNext
  show ?thesis
  proof (cases "m_pendingTasks L")
    case Nil
    with h RunNext inv show ?thesis by simp
  next
    case (Cons t ts)
    let ?L = "L\<lparr>m_pendingTasks := ts\<rparr>"
    from h RunNext Cons consider "run_task (\<lambda>_. Inr) t ?L = Inr L'" | u p where
      "with_conn p (run_net_task (server_call (scripted_user script) (m_tid L)) (m_tid L) u) ?L = Inr L'"
      by (auto split: task.splits option.splits)
    then show ?thesis
    proof cases
      case 1
      with timer_task_server inv show ?thesis by fastforce
    next
      case 2
      have "server_inv (event_loop.more ?L)" using inv by simp
      from with_conn_keeps[OF this 2] served_task_keeps show ?thesis by blast
    qed
  qed
qed

lemma server_step_total:
  assumes "server_inv (event_loop.more L)" and "benign_event ev" and "server_body script ev L = Inr L1"
  shows "\<exists>L'. server_step script ev L = Inr L' \<and> server_inv (event_loop.more L')"
  using release_ok[OF server_body_keeps[OF assms]] assms(3) server_body_keeps[OF assms]
  by (auto simp: server_step_def split: option.split)

lemma server_step_keeps:
  assumes "server_inv (event_loop.more L)" and "benign_event ev" and "server_step script ev L = Inr L'"
  shows "server_inv (event_loop.more L')"
proof -
  from assms(3) obtain L1 where "server_body script ev L = Inr L1" by (auto simp: server_step_def res_iffs)
  from server_step_total[OF assms(1,2) this] assms(3) show ?thesis by auto
qed

text \<open>
  No event takes a connection off the heap; that is left to the release at its end.
\<close>

lemma server_body_lives:
  assumes inv: "server_inv (event_loop.more L)" and ev: "benign_event ev"
    and h: "server_body script ev L = Inr L'" and p: "conn_heap (event_loop.more L) q \<noteq> None"
  shows "conn_heap (event_loop.more L') q \<noteq> None"
proof -
  have dom: "conn_heap (event_loop.more L') q \<noteq> None"
    if "dom (conn_heap (event_loop.more L')) = insert r (dom (conn_heap (event_loop.more L)))
      \<or> dom (conn_heap (event_loop.more L')) = dom (conn_heap (event_loop.more L))" for r
    using that p by blast
  have conn: "conn_heap (event_loop.more L') q \<noteq> None" if "with_conn r op M = Inr L'" "event_loop.more M = event_loop.more L"
    "\<And>c s'. conn_ok (serving r (event_loop.more M)) (c, M) \<Longrightarrow> op (c, M) = Inr s' \<Longrightarrow> conn_ok (serving r (event_loop.more M)) s'"
    for r op M
    using with_conn_elsewhere(1)[of M r op L'] that inv p by auto
  show ?thesis
  proof (cases ev)
    case (Accepted r p sock)
    show ?thesis
    proof (cases "conn_heap (event_loop.more L) p \<noteq> None \<or> referenced p L")
      case False
      with h Accepted have "handleRead_acceptor (Some (newConnetction (scripted_user script) (m_tid L) p sock))
          (m_acceptor (event_loop.more L)) r L = Inr L'" by simp
      then consider "L' = L" | fd peer where
        "newConnetction (scripted_user script) (m_tid L) p sock fd (m_localAddress (m_acceptor (event_loop.more L))) peer L = Inr L'"
        by (rule accepted_cases)
      then show ?thesis
      proof cases
        case 2
        have "conn_heap (event_loop.more L) p = None" "benign sock" using False ev Accepted by simp_all
        from newConnetction_keeps[OF inv this 2] dom[of p] show ?thesis by simp
      qed (use assms(4) in simp)
    qed (use h Accepted assms(4) in auto)
  next
    case (ConnReady p e)
    with h have w: "with_conn p (handle_conn_event (server_call (scripted_user script) (m_tid L)) (m_tid L) e) L = Inr L'" by simp
    show ?thesis by (rule conn[OF w refl], rule served.handle_conn_event_keeps)
  next
    case (ConnCall g p a)
    with h have w: "with_conn p (plain_act g a) L = Inr L'" by simp
    show ?thesis by (rule conn[OF w refl], rule plain_act_keeps[OF serving_stream])
  next
    case RunNext
    show ?thesis
    proof (cases "m_pendingTasks L")
      case Nil
      with h RunNext p show ?thesis by simp
    next
      case (Cons t ts)
      let ?L = "L\<lparr>m_pendingTasks := ts\<rparr>"
      from h RunNext Cons consider "run_task (\<lambda>_. Inr) t ?L = Inr L'" | u p where
        "with_conn p (run_net_task (server_call (scripted_user script) (m_tid L)) (m_tid L) u) ?L = Inr L'"
        by (auto split: task.splits option.splits)
      then show ?thesis
      proof cases
        case 1
        with timer_task_server p show ?thesis by fastforce
      next
        case 2
        have "event_loop.more ?L = event_loop.more L" by simp
        from conn[OF 2 this served_task_keeps] show ?thesis .
      qed
    qed
  qed
qed

lemma release_elsewhere:
  assumes "release p L = Inr L'" and "q \<noteq> p"
  shows "conn_heap (event_loop.more L') q = conn_heap (event_loop.more L) q"
  using assms by (auto simp: release_def res_iffs split: if_splits option.splits)

section \<open>Other threads\<close>

text \<open>
  A server whose connections are also held by other threads: the steps of
  \<open>Shared_Connections\<close> over the events of the server.
\<close>

definition server_lookup :: "addr \<Rightarrow> 'u server_loop \<Rightarrow> 'u server_cb tcp_connection option" where
  "server_lookup p L = conn_heap (event_loop.more L) p"

definition server_shared_body :: "(conn_event \<Rightarrow> 'u \<Rightarrow> conn_act list) \<Rightarrow> server_event shared_step
    \<Rightarrow> ('u server_cb, 'u server) shared_run \<Rightarrow> ('u server_cb, 'u server) shared_run res" where
  "server_shared_body script = shared_body server_lookup with_conn (server_body script)"

definition server_shared :: "(conn_event \<Rightarrow> 'u \<Rightarrow> conn_act list) \<Rightarrow> server_event shared_step
    \<Rightarrow> ('u server_cb, 'u server) shared_run \<Rightarrow> ('u server_cb, 'u server) shared_run res" where
  "server_shared script = shared_exec server_lookup with_conn (server_body script) event_conn release"

lemma server_advance_keeps:
  assumes inv: "server_inv (event_loop.more L)" and c: "conn_heap (event_loop.more L) p = Some c"
    and ow: "\<not> overwrites pc c" and h: "with_conn p (\<lambda>s. Inr (snd (advance_call pc s))) L = Inr L'"
  shows "server_inv (event_loop.more L') \<and> dom (conn_heap (event_loop.more L')) = dom (conn_heap (event_loop.more L))"
proof -
  let ?op = "\<lambda>s. if fst s = c then Inr (snd (advance_call pc s)) else Inl UseAfterFree"
  have w: "with_conn p ?op L = Inr L'" using h c by (simp add: with_conn_def)
  have op: "conn_ok (serving p (event_loop.more L)) s'"
    if "conn_ok (serving p (event_loop.more L)) (c0, L)" "?op (c0, L) = Inr s'" for c0 s'
  proof -
    from that(2) have c0: "c0 = c" and s': "s' = snd (advance_call pc (c, L))" by (auto split: if_splits)
    have "conn_inv c" "benign (socket_of c)" using that(1) by (simp_all add: c0 conn_ok_def)
    from advance_call_unchanged[OF this ow] s' have "unchanged (c, L) s'" by (metis prod.collapse)
    with that(1) show ?thesis unfolding c0 by (rule unchanged_ok)
  qed
  show ?thesis
  proof
    show "server_inv (event_loop.more L')" by (rule with_conn_keeps[OF inv w], rule op)
    show "dom (conn_heap (event_loop.more L')) = dom (conn_heap (event_loop.more L))"
      by (rule with_conn_elsewhere(1)[OF inv w], rule op)
  qed
qed

interpretation shared_server: connection_heap server_lookup with_conn "server_body script" event_conn release
  "\<lambda>L. server_inv (event_loop.more L)" benign_event
proof
  fix L L' :: "'a server_loop" and ev p c pc
  assume inv: "server_inv (event_loop.more L)"
  show "server_inv (event_loop.more L') \<and> (\<forall>p. server_lookup p L \<noteq> None \<longrightarrow> server_lookup p L' \<noteq> None)"
    if "benign_event ev" "server_body script ev L = Inr L'"
    using server_body_keeps[OF inv that] server_body_lives[OF inv that] by (simp add: server_lookup_def)
  show "\<exists>L'. release p L = Inr L' \<and> server_inv (event_loop.more L')
      \<and> (\<forall>q. q \<noteq> p \<longrightarrow> server_lookup q L \<noteq> None \<longrightarrow> server_lookup q L' \<noteq> None)"
    using release_ok[OF inv, of p] release_elsewhere unfolding server_lookup_def by metis
  show "server_inv (event_loop.more L') \<and> (\<forall>p. server_lookup p L \<noteq> None \<longrightarrow> server_lookup p L' \<noteq> None)"
    if "server_lookup p L = Some c" "\<not> overwrites pc c" "with_conn p (\<lambda>s. Inr (snd (advance_call pc s))) L = Inr L'"
    using server_advance_keeps[OF inv that(1)[unfolded server_lookup_def] that(2,3)] unfolding server_lookup_def by blast
qed

lemma started_server_inv:
  assumes w: "m_connectionSet w = []" "conn_heap w = Map.empty"
    and start: "start_server (m_tid L) ret (L\<lparr>event_loop.more := w\<rparr>) = Inr L0"
  shows "server_inv (event_loop.more L0)"
proof -
  from start obtain a L1 where
    l: "listen (m_tid L) ret (m_acceptor w, L\<lparr>event_loop.more := w\<rparr>) = Inr (a, L1)"
    and L0: "L0 = on_server (\<lambda>s. s\<lparr>m_acceptor := a\<rparr>) L1"
    by (auto simp: start_server_def res_iffs)
  from l have "event_loop.more L1 = w"
    by (auto simp: listen_def acceptor_channel_def on_channel_def res_iffs assertInLoopThread_eq_Inr split: if_splits)
  with w L0 show ?thesis by (simp add: server_inv_def)
qed


text \<open>Destroying a server.\<close>

lemma release_unreferenced:
  assumes c: "conn_heap (event_loop.more L) p = Some c" and r: "\<not> referenced p L"
  shows "release p L = (if isDisconnected c then Inr (on_server (\<lambda>s. s\<lparr>conn_heap := (conn_heap s)(p := None)\<rparr>) L)
    else Inl (AssertFailed ''m_state == kDisconnected''))"
  using assms by (simp add: release_def destroy_TCPConnection_def isDisconnected_def)

lemma release_other:
  assumes "release q L = Inr L'" and "q \<noteq> p"
  shows "conn_heap (event_loop.more L') p = conn_heap (event_loop.more L) p"
    "m_connectionSet (event_loop.more L') = m_connectionSet (event_loop.more L)" "m_pendingTasks L' = m_pendingTasks L"
  using assms by (auto simp: release_def res_iffs split: if_splits option.splits)

lemma release_result: "(\<exists>L'. release q L = Inr L') \<or> release q L = Inl (AssertFailed ''m_state == kDisconnected'')"
  by (auto simp: release_def destroy_TCPConnection_def assertR_def split: option.splits)

lemma release_all_aborts:
  assumes "p \<in> set ps" and "conn_heap (event_loop.more L) p = Some c" and "\<not> isDisconnected c"
    and "m_connectionSet (event_loop.more L) = []"
    and "\<forall>t \<in> set (m_pendingTasks L). \<not> (holds_reference t \<and> task_target t = Some p)"
  shows "run_all (map release ps) L = Inl (AssertFailed ''m_state == kDisconnected'')"
  using assms
proof (induction ps arbitrary: L)
  case (Cons q ps)
  show ?case
  proof (cases "q = p")
    case True
    with Cons.prems have "\<not> referenced p L" by (auto simp: referenced_def)
    with True release_unreferenced[OF Cons.prems(2)] Cons.prems(3) show ?thesis by simp
  next
    case False
    from release_result[of q L] show ?thesis
    proof
      assume "\<exists>L'. release q L = Inr L'"
      then obtain L1 where L1: "release q L = Inr L1" by blast
      note fr = release_other[OF this False]
      have "run_all (map release ps) L1 = Inl (AssertFailed ''m_state == kDisconnected'')"
        using Cons.prems False by (intro Cons.IH) (simp_all add: fr)
      with L1 show ?thesis by simp
    qed simp
  qed
qed simp

text \<open>
  A server that is destroyed while it has an open connection takes the process down: no
  destructor closes the connections, and unless a closure for it is still pending, the last
  reference goes with the set and the destructor of the connection aborts.
\<close>

lemma destroy_server_aborts:
  assumes "server_inv (event_loop.more L)" and "polling (m_acceptChannel (m_acceptor (event_loop.more L)))"
    and "p \<in> set (m_connectionSet (event_loop.more L))"
    and "\<forall>t \<in> set (m_pendingTasks L). \<not> (holds_reference t \<and> task_target t = Some p)"
  shows "destroy_TCPServerSingle (m_tid L) L = Inl (AssertFailed ''m_state == kDisconnected'')"
proof -
  let ?w = "event_loop.more L"
  from assms(1,3) obtain c where c: "conn_heap ?w p = Some c" "\<not> isDisconnected c"
    by (auto simp: server_inv_def conn_served_def)
  from assms(2) obtain a ep where "destroy_Acceptor (m_tid L) (m_acceptor ?w, L) = Inr (a, L\<lparr>m_poller := ep\<rparr>)"
    by (auto simp: destroy_Acceptor_def acceptor_channel_def on_channel_def channel_ops_set_events set_events_ok)
  moreover have "run_all (map release (m_connectionSet ?w))
      (on_server (\<lambda>s. s\<lparr>m_acceptor := a, m_connectionSet := []\<rparr>) (L\<lparr>m_poller := ep\<rparr>))
    = Inl (AssertFailed ''m_state == kDisconnected'')"
    by (rule release_all_aborts[OF assms(3), of _ c]) (use c assms(4) in \<open>simp_all add: on_server_def\<close>)
  ultimately show ?thesis by (simp add: destroy_TCPServerSingle_def Let_def)
qed

text \<open>
  A server that is destroyed before it was started takes the process down: the
  destructor of its acceptor disables a channel that was never registered.
\<close>

theorem destroy_unstarted_server_aborts:
  assumes "new_TCPServerSingle local fd ra rp bd = Inr w"
  shows "destroy_TCPServerSingle (m_tid L) (L\<lparr>event_loop.more := w\<rparr>) = Inl (AssertFailed ''!channel->isNoneEvents()'')"
proof -
  from assms have "m_acceptChannel (m_acceptor w) = new_Channel fd"
    by (auto simp: new_TCPServerSingle_def new_Acceptor_def createSocket_def res_iffs split: if_splits)
  then show ?thesis
    by (simp add: destroy_TCPServerSingle_def destroy_Acceptor_def acceptor_channel_def on_channel_def
        channel_ops_set_events set_events_ok new_Channel_def)
qed

lemma hangup_closes:
  assumes c: "conn_served w p c" "\<not> isDisconnected c" and w: "event_loop.more L = w" "m_connectionCallback w = None"
  obtains c' ep where "handle_conn_event (server_call user (m_tid L)) (m_tid L) EPOLLHUP (c, L)
      = Inr (c', on_server (\<lambda>s. s\<lparr>m_connectionSet := removeAll p (m_connectionSet s)\<rparr>) (L\<lparr>m_poller := ep\<rparr>))"
    "m_state c' = kDisconnected"
proof -
  let ?c = "c\<lparr>m_channel := setRevents EPOLLHUP (m_channel c), m_state := kDisconnected\<rparr>"
  have st: "m_state c = kConnected \<or> m_state c = kDisconnecting" and pol: "polling (m_channel c)"
    and se: "self c = p" "m_closeCallback_conn c = Some ServerClose"
    using c by (cases "m_state c"; simp add: conn_served_def conn_inv_def isDisconnected_def)+
  have "polling (m_channel ?c) \<or> (\<lambda>_. 0) (m_events (m_channel ?c)) \<noteq> (0 :: 32 word)" using pol by (simp add: setRevents_def)
  from conn_channel_update[of disableAll "\<lambda>_. 0", OF channel_ops_set_events(5) this, of L] obtain ep ch where
    ch: "conn_channel disableAll (m_tid L) (?c, L) = Inr (?c\<lparr>m_channel := ch\<rparr>, L\<lparr>m_poller := ep\<rparr>)"
    "m_revents ch = EPOLLHUP"
    by (auto simp: setRevents_def)
  have "handleClose (server_call user (m_tid L)) (m_tid L) (c\<lparr>m_channel := setRevents EPOLLHUP (m_channel c)\<rparr>, L)
      = Inr (?c\<lparr>m_channel := ch\<rparr>, on_server (\<lambda>s. s\<lparr>m_connectionSet := removeAll p (m_connectionSet s)\<rparr>) (L\<lparr>m_poller := ep\<rparr>))"
    using st ch se w by (auto simp: handleClose_def call_conn_def closeConnection_def user_conn_def on_server_def)
  with ch(2) show thesis
    by (intro that[of "?c\<lparr>m_channel := ch\<rparr>" ep]) (simp_all add: handle_conn_event_def handleEvents_def
        handleEventsWithGuard_def call_if_def conn_callbacks_def setRevents_def epoll_bits)
qed

text \<open>
  C35. \<^verbatim>\<open>stopRead\<close> and \<^verbatim>\<open>startRead\<close> called from another thread queue a closure with a plain
  pointer. When the peer hangs up first, the connection is freed and the closure uses it.
\<close>

theorem stopRead_use_after_free:
  assumes "server_inv (event_loop.more L)" and "p \<in> set (m_connectionSet (event_loop.more L))"
    and "m_connectionCallback (event_loop.more L) = None" and "m_pendingTasks L = []" and "g \<noteq> m_tid L"
  shows "run_all (map (server_step script) [ConnCall g p ActStopRead, ConnReady p EPOLLHUP, RunNext]) L = Inl UseAfterFree"
proof -
  let ?w = "event_loop.more L"
  from assms(1,2) obtain c where c: "conn_heap ?w p = Some c" "conn_served ?w p c" "\<not> isDisconnected c"
    by (auto simp: server_inv_def conn_served_def)
  then have se: "self c = p" by (simp add: conn_served_def)
  define L1 where "L1 = on_server (\<lambda>s. s\<lparr>conn_heap := (conn_heap s)(p \<mapsto> c)\<rparr>) (queueInLoop (Closure (StopReadInLoop p)) L)"
  have L1: "event_loop.more L1 = ?w" "m_tid L1 = m_tid L" "m_pendingTasks L1 = [Closure (StopReadInLoop p)]"
    using c(1) assms(4) by (simp_all add: L1_def queueInLoop_def wakeup_def fun_upd_idem)
  have 1: "server_step script (ConnCall g p ActStopRead) L = Inr L1"
    using c(1) assms(2,5) se by (simp add: server_step_def with_conn_def stopRead_def conn_runInLoop_def
        isInLoopThread_def release_def referenced_def L1_def[symmetric] L1(1))
  obtain c' ep where hup: "handle_conn_event (server_call (scripted_user script) (m_tid L1)) (m_tid L1) EPOLLHUP (c, L1)
      = Inr (c', on_server (\<lambda>s. s\<lparr>m_connectionSet := removeAll p (m_connectionSet s)\<rparr>) (L1\<lparr>m_poller := ep\<rparr>))"
    "m_state c' = kDisconnected"
    by (rule hangup_closes[OF c(2,3) L1(1) assms(3), of "scripted_user script"])
  define L2 where "L2 = on_server (\<lambda>s. s\<lparr>conn_heap := (conn_heap s)(p := None)\<rparr>) (on_server (\<lambda>s. s\<lparr>conn_heap := (conn_heap s)(p \<mapsto> c')\<rparr>)
    (on_server (\<lambda>s. s\<lparr>m_connectionSet := removeAll p (m_connectionSet s)\<rparr>) (L1\<lparr>m_poller := ep\<rparr>)))"
  have 2: "server_step script (ConnReady p EPOLLHUP) L1 = Inr L2"
    using hup c(1) by (simp add: server_step_def with_conn_def L1 release_def referenced_def
        destroy_TCPConnection_def L2_def)
  have "conn_heap (event_loop.more L2) p = None" "m_pendingTasks L2 = [Closure (StopReadInLoop p)]"
    using L1(3) by (simp_all add: L2_def)
  then have 3: "server_step script RunNext L2 = Inl UseAfterFree"
    by (simp add: server_step_def with_conn_def)
  from 1 2 3 show ?thesis by simp
qed

text \<open>
  C16. The echo server echoes: one readable event on an open connection whose message
  callback is the echo servers' consumes everything received, before and now, and adds
  exactly these bytes, in order, to the outgoing stream.
\<close>

theorem echo_echoes:
  assumes "conn_inv c" and "benign (socket_of c)" and "m_state c = kConnected"
    and "m_messageCallback c = Some u" and "call OnMessage u = echo_onMessage (m_tid L)"
    and "read_script (socket_of c) = rv # rvs"
    and "rv (writeableBytes (m_inputBuffer c)) (iov_capacity (writeableBytes (m_inputBuffer c))) = Inr ds" and "ds \<noteq> []"
    and "length (m_buffer (m_inputBuffer c)) + extrabufSize \<le> vec_max_size"
    and "append_fits (m_outputBuffer c) (length (contents (m_inputBuffer c) @ ds))"
  shows "\<exists>c' L'. handleRead_conn call (m_tid L) (c, L) = Inr (c', L')
    \<and> contents (m_inputBuffer c') = [] \<and> m_state c' = kConnected
    \<and> sent (socket_of c') @ contents (m_outputBuffer c')
        = sent (socket_of c) @ contents (m_outputBuffer c) @ contents (m_inputBuffer c) @ ds"
proof -
  let ?ib = "m_inputBuffer c" and ?s = "(socket_of c)\<lparr>read_script := rvs\<rparr>"
  have bi: "buf_inv ?ib" using assms(1) by (simp add: conn_inv_def)
  have rv: "sock_readv (socket_of c) = (rv, ?s)" using assms(6) by (simp add: sock_readv_def)
  note fr = sock_readv_frame[OF rv assms(2)]
  obtain ib where ib: "readFd rv ?ib = Inr ((int (length ds), None), ib)" "buf_inv ib" "contents ib = contents ?ib @ ds"
    using readFd_ok[of ?ib rv ds, OF bi _ assms(7,9)] fr by blast
  obtain ib' where ib': "retrieveAllAsString ib = Inr (contents ib, ib')" "buf_inv ib'" "contents ib' = []"
    using retrieveAllAsString_ok[OF ib(2)] by blast
  let ?c = "c\<lparr>socket_of := ?s, m_inputBuffer := ib'\<rparr>"
  have inv: "conn_inv ?c" using assms(1) ib'(2) by (simp add: conn_inv_def)
  have "length (contents ib) \<le> vec_max_size"
    using length_contents[OF ib(2)] buf_invD[OF ib(2)] readable_eq[OF ib(2)] by (simp add: vec_max_size_def)
  then obtain c' L' where s: "sendInLoop (m_tid L) (contents ib) (?c, L) = Inr (c', L')"
    and spec: "send_spec ?c (contents ib) L c' L'"
    using sendInLoop_spec[OF inv, of "contents ib" L] assms(3,10) ib(3) by auto
  have "stream c' = stream ?c @ contents ib"
    using sendInLoop_Inr[OF inv _ s] fr assms(3) by simp
  moreover have "handleRead_conn call (m_tid L) (c, L) = Inr (c', L')"
    using assms(3-5,8) rv ib(1) ib'(1) s
    by (simp add: handleRead_conn_def call_conn_def echo_onMessage_def send_def conn_runInLoop_def isInLoopThread_def)
  ultimately show ?thesis
    using spec assms(3) ib(3) ib'(3) by (simp add: send_spec_def stream_def)
qed

section \<open>Witnesses\<close>

text \<open>Accepting a connection when there is no connection callback.\<close>

lemma referenced_member: "p \<in> set (m_connectionSet (event_loop.more L)) \<Longrightarrow> referenced p L"
  by (simp add: referenced_def)

lemma accept_step:
  assumes "m_connectionCallback (event_loop.more L) = None" and "conn_heap (event_loop.more L) p = None"
    and "\<not> referenced p L"
  obtains c ep where "server_step script (Accepted (Inr (fd, addr)) p sock) L
      = Inr (on_server (\<lambda>s. s\<lparr>conn_heap := (conn_heap s)(p \<mapsto> c)\<rparr>) ((on_server (enlist p) L)\<lparr>m_poller := ep\<rparr>))"
    "m_state c = kConnected"
proof -
  let ?peer = "setAddress addr (new_InetAddress True 0 False)"
  obtain c ep where e: "establish p fd (m_localAddress (m_acceptor (event_loop.more L))) ?peer sock
      (map_option UserCb (m_messageCallback_srv (event_loop.more L)))
      (map_option UserCb (m_writeCompleteCallback_srv (event_loop.more L))) None 0 ServerClose (on_server (enlist p) L)
      = Inr (c, (on_server (enlist p) L)\<lparr>m_poller := ep\<rparr>)" "m_state c = kConnected"
    using establish_ok[of p fd "m_localAddress (m_acceptor (event_loop.more L))" ?peer sock
        "map_option UserCb (m_messageCallback_srv (event_loop.more L))"
        "map_option UserCb (m_writeCompleteCallback_srv (event_loop.more L))" None 0 ServerClose "on_server (enlist p) L"]
    by metis
  with assms have "server_step script (Accepted (Inr (fd, addr)) p sock) L
      = Inr (on_server (\<lambda>s. s\<lparr>conn_heap := (conn_heap s)(p \<mapsto> c)\<rparr>) ((on_server (enlist p) L)\<lparr>m_poller := ep\<rparr>))"
    by (simp add: server_step_def handleRead_acceptor_def newConnetction_eq user_conn_def release_def referenced_member)
  with e(2) show thesis by (rule that[rotated])
qed

definition sample_server :: "nat server" where
  "sample_server = \<lparr>m_messageCallback_srv = Some 4, m_writeCompleteCallback_srv = None, m_connectionCallback = None,
     m_connectionSet = [], m_acceptor = \<lparr>m_localAddress = any_address, m_acceptFd = 3, m_acceptChannel = new_Channel 3\<rparr>,
     conn_heap = Map.empty\<rparr>"

lemma sample_server_started:
  obtains w L0 where "new_TCPServerSingle any_address 3 0 0 0 = Inr w"
    "start_server 1 0 (idle_loop (setConnectionCallback_srv None (setMessageCallback_srv (Some 4)
       (setWriteCompleteCallback_srv None w)))) = Inr L0"
    "m_connectionCallback (event_loop.more L0) = (None :: nat option)" "conn_heap (event_loop.more L0) = Map.empty"
    "m_connectionSet (event_loop.more L0) = []" "polling (m_acceptChannel (m_acceptor (event_loop.more L0)))"
    "m_pendingTasks L0 = []" "m_tid L0 = 1" "server_inv (event_loop.more L0)"
    "\<not> m_tied (m_acceptChannel (m_acceptor (event_loop.more L0)))" "\<not> m_quit L0" "m_poller L0 = \<lparr>ep_size = 128, ep_calls = ep_calls (m_poller L0)\<rparr>"
proof -
  have w: "new_TCPServerSingle any_address 3 0 0 0 = Inr (sample_server\<lparr>m_messageCallback_srv := None\<rparr>)"
    by (simp add: new_TCPServerSingle_def new_Acceptor_def createSocket_def sample_server_def)
  have eq: "setConnectionCallback_srv None (setMessageCallback_srv (Some 4)
       (setWriteCompleteCallback_srv None (sample_server\<lparr>m_messageCallback_srv := None\<rparr>))) = sample_server"
    by (simp add: setConnectionCallback_srv_def setMessageCallback_srv_def setWriteCompleteCallback_srv_def sample_server_def)
  have "\<exists>L0. start_server 1 0 (idle_loop sample_server) = Inr L0 \<and> m_connectionCallback (event_loop.more L0) = None
      \<and> conn_heap (event_loop.more L0) = Map.empty \<and> m_connectionSet (event_loop.more L0) = []
      \<and> polling (m_acceptChannel (m_acceptor (event_loop.more L0))) \<and> m_pendingTasks L0 = [] \<and> m_tid L0 = 1
      \<and> server_inv (event_loop.more L0) \<and> \<not> m_tied (m_acceptChannel (m_acceptor (event_loop.more L0))) \<and> \<not> m_quit L0
      \<and> m_poller L0 = \<lparr>ep_size = 128, ep_calls = ep_calls (m_poller L0)\<rparr>"
    by (simp add: start_server_def listen_def acceptor_channel_def on_channel_def channel_ops_set_events set_events_ok
        idle_loop_def sample_server_def new_Channel_def on_server_def server_inv_def epoll_bits epoll_ctl_def)
  then show thesis by (elim exE conjE) (rule that[OF w], simp_all only: eq not_False_eq_True)
qed

lemma sample_server_run:
  obtains w L0 L' where "new_TCPServerSingle any_address 3 0 0 0 = Inr w"
    "start_server 1 0 (idle_loop (setConnectionCallback_srv None (setMessageCallback_srv (Some 4)
       (setWriteCompleteCallback_srv None w)))) = Inr L0"
    "server_step script (Accepted (Inr (9, any_address)) 8 (sample_socket [])) L0 = Inr L'"
    "set (m_connectionSet (event_loop.more L')) = {8 :: nat}" "m_connectionCallback (event_loop.more L') = (None :: nat option)"
    "polling (m_acceptChannel (m_acceptor (event_loop.more L')))" "m_pendingTasks L' = []" "m_tid L' = 1"
    "server_inv (event_loop.more L')"
proof -
  obtain w L0 where w: "new_TCPServerSingle any_address 3 0 0 0 = Inr w"
    and start: "start_server 1 0 (idle_loop (setConnectionCallback_srv None (setMessageCallback_srv (Some 4)
       (setWriteCompleteCallback_srv None w)))) = Inr L0"
    and L0: "m_connectionCallback (event_loop.more L0) = (None :: nat option)" "conn_heap (event_loop.more L0) = Map.empty"
    "m_connectionSet (event_loop.more L0) = []" "polling (m_acceptChannel (m_acceptor (event_loop.more L0)))"
    "m_pendingTasks L0 = []" "m_tid L0 = 1" "server_inv (event_loop.more L0)"
    by (rule sample_server_started)
  have "conn_heap (event_loop.more L0) 8 = None" "\<not> referenced 8 L0" using L0 by (simp_all add: referenced_def)
  from accept_step[OF L0(1) this, of script 9 any_address "sample_socket []"] obtain c ep where
    s: "server_step script (Accepted (Inr (9, any_address)) 8 (sample_socket [])) L0
      = Inr (on_server (\<lambda>s. s\<lparr>conn_heap := (conn_heap s)(8 \<mapsto> c)\<rparr>) ((on_server (enlist 8) L0)\<lparr>m_poller := ep\<rparr>))"
    by blast
  have "benign_event (Accepted (Inr (9, any_address)) 8 (sample_socket []))"
    by (simp add: benign_def sample_socket_def)
  note inv = server_step_keeps[OF L0(7) this s]
  show thesis
    by (rule that[OF w start s _ _ _ _ _ inv]) (use L0 in \<open>simp_all add: enlist_def\<close>)
qed


lemma destroy_server_aborts_witness:
  "\<exists>L :: nat server_loop. m_connectionSet (event_loop.more L) \<noteq> []
     \<and> destroy_TCPServerSingle 1 L = Inl (AssertFailed ''m_state == kDisconnected'')"
proof -
  obtain L :: "nat server_loop" where r: "set (m_connectionSet (event_loop.more L)) = {8}"
    "polling (m_acceptChannel (m_acceptor (event_loop.more L)))" "m_pendingTasks L = []" "m_tid L = 1" "server_inv (event_loop.more L)"
    by (rule sample_server_run[of "\<lambda>_ _. []"])
  have "destroy_TCPServerSingle (m_tid L) L = Inl (AssertFailed ''m_state == kDisconnected'')"
    by (rule destroy_server_aborts[OF r(5,2), of 8]) (simp_all add: r)
  with r show ?thesis by (metis empty_iff insertI1 list.set(1))
qed

lemma destroy_unstarted_server_aborts_witness:
  "\<exists>w :: nat server. new_TCPServerSingle any_address 3 0 0 0 = Inr w
     \<and> destroy_TCPServerSingle 1 ((idle_loop w)\<lparr>event_loop.more := w\<rparr>) = Inl (AssertFailed ''!channel->isNoneEvents()'')"
proof -
  have w: "new_TCPServerSingle any_address 3 0 0 0 = Inr (sample_server\<lparr>m_messageCallback_srv := None\<rparr>)"
    by (simp add: new_TCPServerSingle_def new_Acceptor_def createSocket_def sample_server_def)
  have "m_tid (idle_loop (sample_server\<lparr>m_messageCallback_srv := None\<rparr>) :: nat server_loop) = 1" by (simp add: idle_loop_def)
  with w destroy_unstarted_server_aborts[OF w] show ?thesis by metis
qed

lemma stopRead_use_after_free_witness:
  "\<exists>L :: nat server_loop. run_all (map (server_step (\<lambda>_ _. [])) [ConnCall 2 8 ActStopRead, ConnReady 8 EPOLLHUP, RunNext]) L
     = Inl UseAfterFree"
proof -
  obtain L :: "nat server_loop" where r: "set (m_connectionSet (event_loop.more L)) = {8}"
    "m_connectionCallback (event_loop.more L) = None" "m_pendingTasks L = []" "m_tid L = 1" "server_inv (event_loop.more L)"
    by (rule sample_server_run[of "\<lambda>_ _. []"])
  have "8 \<in> set (m_connectionSet (event_loop.more L))" "2 \<noteq> m_tid L" by (simp_all add: r)
  from stopRead_use_after_free[OF r(5) this(1) r(2,3) this(2)] show ?thesis by blast
qed

definition echo_sample :: "nat tcp_connection" where
  "echo_sample = (waiting_conn kConnected [])\<lparr>m_messageCallback := Some 5,
     socket_of := (sample_socket [])\<lparr>read_script := [\<lambda>c1 c2. Inr (take (c1 + c2) [1, 2, 3])]\<rparr>\<rparr>"

lemma echo_echoes_witness:
  "\<exists>c' L'. handleRead_conn (\<lambda>_ _. echo_onMessage 1) 1 (echo_sample, idle_loop ()) = Inr (c', L')
     \<and> sent (socket_of c') @ contents (m_outputBuffer c') = [21, 22, 1, 2, 3]"
proof -
  let ?c = echo_sample and ?L = "idle_loop () :: (nat net_task, unit) event_loop_scheme"
    and ?rv = "\<lambda>c1 c2. Inr (take (c1 + c2) [1, 2, 3]) :: int + bytes"
  have t: "m_tid ?L = 1" by (simp add: idle_loop_def)
  have "conn_inv ?c" using waiting_conn_inv[of kConnected "[]"] by (simp add: echo_sample_def conn_inv_def)
  moreover have "benign (socket_of ?c)" by (simp add: echo_sample_def benign_def sample_socket_def readv_ok_def)
  moreover have "m_state ?c = kConnected" "m_messageCallback ?c = Some 5" "read_script (socket_of ?c) = ?rv # []"
    by (simp_all add: echo_sample_def waiting_conn_def)
  moreover have w: "writeableBytes (m_inputBuffer ?c) = 4"
    by (simp add: echo_sample_def waiting_conn_def writeableBytes_def size_sub_def)
  then have "?rv (writeableBytes (m_inputBuffer ?c)) (iov_capacity (writeableBytes (m_inputBuffer ?c))) = Inr [1, 2, 3]"
    by (simp add: iov_capacity_def extrabufSize_def)
  moreover have "length (m_buffer (m_inputBuffer ?c)) + extrabufSize \<le> vec_max_size"
    "append_fits (m_outputBuffer ?c) (length (contents (m_inputBuffer ?c) @ [1, 2, 3]))"
    by (simp_all add: echo_sample_def waiting_conn_def extrabufSize_def vec_max_size_def append_fits_def contents_def)
  ultimately have "\<exists>c' L'. handleRead_conn (\<lambda>_ _. echo_onMessage (m_tid ?L)) (m_tid ?L) (?c, ?L) = Inr (c', L')
    \<and> contents (m_inputBuffer c') = [] \<and> m_state c' = kConnected
    \<and> sent (socket_of c') @ contents (m_outputBuffer c')
        = sent (socket_of ?c) @ contents (m_outputBuffer ?c) @ contents (m_inputBuffer ?c) @ [1, 2, 3]"
    by (intro echo_echoes[where rv = ?rv and rvs = "[]" and u = 5]) simp_all
  then show ?thesis by (auto simp: t echo_sample_def waiting_conn_def sample_socket_def contents_def)
qed

end
