(* ===== verification/Tcp_Client.thy ===== *)
theory Tcp_Client
  imports Tcp_Server
begin

text \<open>
  The class \<^verbatim>\<open>TCPClient\<close> (\<^verbatim>\<open>TCPClient.hpp\<close>, \<^verbatim>\<open>TCPClient.cpp\<close>): a connector, a timer that
  retries, and one connection. The closure of the timer is the task \<open>UserTask Retry\<close>. The
  answers of the system calls of an attempt to connect are an argument.
\<close>

section \<open>State\<close>

datatype 'u client_cb = ClientClose | Retry | ClientUser 'u

text \<open>\<open>m_connection\<close> and \<open>m_retryTimer\<close> are pointers, 0 is the null pointer.\<close>

record 'u client =
  m_connected :: bool
  m_retryTimer :: addr
  m_messageCallback_cl :: "'u option"
  m_writeCompleteCallback_cl :: "'u option"
  m_connectionCallback_cl :: "'u option"
  m_connection :: addr
  m_connector :: connector
  client_conns :: "addr \<rightharpoonup> 'u client_cb tcp_connection"

type_synonym 'u client_loop = "('u client_cb net_task, 'u client) event_loop_scheme"
type_synonym 'u client_conn = "('u client_cb, 'u client) conn_loop"
type_synonym 'u client_user = "conn_event \<Rightarrow> 'u \<Rightarrow> 'u client_conn \<Rightarrow> 'u client_conn res"

text \<open>
  What the system answers to an attempt: \<^verbatim>\<open>connect\<close> (an \<^verbatim>\<open>errno\<close> or success), the pending
  error of the socket, its own address, and what a new connection is made from.
\<close>

record attempt =
  connect_result :: "int option"
  so_error :: int
  sock_name :: inet_address
  new_conn :: addr
  new_sock :: socket

definition on_client :: "('u client \<Rightarrow> 'u client) \<Rightarrow> 'u client_loop \<Rightarrow> 'u client_loop" where
  "on_client f L = L\<lparr>event_loop.more := f (event_loop.more L)\<rparr>"

section \<open>Operations\<close>

definition new_TCPClient :: "inet_address \<Rightarrow> int \<Rightarrow> 'u option \<Rightarrow> 'u option \<Rightarrow> 'u client res" where
  "new_TCPClient peer socket default_message default_connection =
     bindR (new_Connector peer socket) (\<lambda>k.
     Inr \<lparr>m_connected = False, m_retryTimer = 0, m_messageCallback_cl = default_message,
       m_writeCompleteCallback_cl = None, m_connectionCallback_cl = default_connection, m_connection = 0,
       m_connector = k, client_conns = Map.empty\<rparr>)"

definition setConnectionCallback_cl :: "'u option \<Rightarrow> 'u client \<Rightarrow> 'u client" where
  "setConnectionCallback_cl cb s = s\<lparr>m_connectionCallback_cl := cb\<rparr>"

definition setMessageCallback_cl :: "'u option \<Rightarrow> 'u client \<Rightarrow> 'u client" where
  "setMessageCallback_cl cb s = s\<lparr>m_messageCallback_cl := cb\<rparr>"

definition setWriteCompleteCallback_cl :: "'u option \<Rightarrow> 'u client \<Rightarrow> 'u client" where
  "setWriteCompleteCallback_cl cb s = s\<lparr>m_writeCompleteCallback_cl := cb\<rparr>"

text \<open>Dropping a reference to a connection: the last one runs its destructor.\<close>

definition release_conn :: "addr \<Rightarrow> 'u client_loop \<Rightarrow> 'u client_loop res" where
  "release_conn p L =
     (if p = 0 \<or> m_connection (event_loop.more L) = p
         \<or> (\<exists>t \<in> set (m_pendingTasks L). holds_reference t \<and> task_target t = Some p) then Inr L
      else case client_conns (event_loop.more L) p of
        None \<Rightarrow> Inr L
      | Some c \<Rightarrow> bindR (destroy_TCPConnection c) (\<lambda>_.
          Inr (on_client (\<lambda>s. s\<lparr>client_conns := (client_conns s)(p := None)\<rparr>) L)))"

definition call_connection :: "'u client_user \<Rightarrow> 'u client_conn \<Rightarrow> 'u client_conn res" where
  "call_connection user = (\<lambda>(c, L).
     case m_connectionCallback_cl (event_loop.more L) of None \<Rightarrow> Inr (c, L) | Some u \<Rightarrow> user OnConnection u (c, L))"

definition newConnection :: "'u client_user \<Rightarrow> tid \<Rightarrow> addr \<Rightarrow> socket \<Rightarrow> int \<Rightarrow> inet_address \<Rightarrow> inet_address
    \<Rightarrow> 'u client_loop \<Rightarrow> 'u client_loop res" where
  "newConnection user gettid p sock connfd local peer L =
     assertInLoopThread (m_tid L) gettid (
     bindR (cancelTimer (\<lambda>_. Inr) gettid (m_retryTimer (event_loop.more L)) L) (\<lambda>L.
     let L = on_client (\<lambda>s. s\<lparr>m_retryTimer := 0, m_connected := True\<rparr>) L; old = m_connection (event_loop.more L) in
     bindR (new_TCPConnection p connfd local peer sock) (\<lambda>c.
     bindR (release_conn old (on_client (\<lambda>s. s\<lparr>m_connection := p\<rparr>) L)) (\<lambda>L.
     let c = setMessageCallback (map_option ClientUser (m_messageCallback_cl (event_loop.more L))) c;
         c = setWriteCompleteCallback (map_option ClientUser (m_writeCompleteCallback_cl (event_loop.more L))) c;
         c = setCloseCallback (Some ClientClose) c in
     bindR (connectEstablished gettid (c, L)) (\<lambda>s.
     bindR (call_connection user s) (\<lambda>(c, L).
     Inr (on_client (\<lambda>s. s\<lparr>client_conns := (client_conns s)(p \<mapsto> c)\<rparr>) L)))))))"

definition closeConnection_cl :: "'u client_user \<Rightarrow> tid \<Rightarrow> 'u client_conn \<Rightarrow> 'u client_conn res" where
  "closeConnection_cl user gettid = (\<lambda>(c, L).
     assertInLoopThread (m_tid L) gettid (
     assertR (m_connection (event_loop.more L) \<noteq> 0) ''m_connection != nullptr'' (
     call_connection user (c, on_client (\<lambda>s. s\<lparr>m_connection := 0\<rparr>) L))))"

fun client_call :: "'u client_user \<Rightarrow> tid \<Rightarrow> ('u client_cb, 'u client) conn_call" where
  "client_call user gettid ev ClientClose s = (if ev = OnClose then closeConnection_cl user gettid s else Inr s)"
| "client_call user gettid ev Retry s = Inr s"
| "client_call user gettid ev (ClientUser u) s = user ev u s"

text \<open>An operation of the connector, whose callback is \<open>newConnection\<close>.\<close>

definition with_connector ::
  "((int \<Rightarrow> inet_address \<Rightarrow> inet_address \<Rightarrow> connector \<times> 'u client_loop \<Rightarrow> (connector \<times> 'u client_loop) res) option
      \<Rightarrow> connector \<times> 'u client_loop \<Rightarrow> (connector \<times> 'u client_loop) res)
     \<Rightarrow> 'u client_user \<Rightarrow> tid \<Rightarrow> attempt \<Rightarrow> 'u client_loop \<Rightarrow> 'u client_loop res" where
  "with_connector op user gettid a L =
     bindR (op (Some (\<lambda>fd local peer (k, L). bindR (newConnection user gettid (new_conn a) (new_sock a) fd local peer L)
                       (\<lambda>L. Inr (k, L)))) (m_connector (event_loop.more L), L))
       (\<lambda>(k, L). Inr (on_client (\<lambda>s. s\<lparr>m_connector := k\<rparr>) L))"

definition start_connector :: "'u client_user \<Rightarrow> tid \<Rightarrow> attempt \<Rightarrow> 'u client_loop \<Rightarrow> 'u client_loop res" where
  "start_connector user gettid a L =
     with_connector (\<lambda>cb. start_Connector cb gettid (connect_result a) (so_error a) (sock_name a)) user gettid a L"

definition connector_writable :: "'u client_user \<Rightarrow> tid \<Rightarrow> attempt \<Rightarrow> 'u client_loop \<Rightarrow> 'u client_loop res" where
  "connector_writable user gettid a L =
     with_connector (\<lambda>cb. handleWrite_connector cb gettid (so_error a) (sock_name a)) user gettid a L"

definition retry :: "'u client_user \<Rightarrow> tid \<Rightarrow> attempt \<Rightarrow> 'u client_loop \<Rightarrow> 'u client_loop res" where
  "retry user gettid a L =
     assertInLoopThread (m_tid L) gettid (
     if m_connected (event_loop.more L) then Inr L else start_connector user gettid a L)"

text \<open>What running a closure of a timer does: the client's own retries.\<close>

fun client_exec :: "'u client_user \<Rightarrow> tid \<Rightarrow> attempt \<Rightarrow> 'u client_cb net_task \<Rightarrow> 'u client_loop \<Rightarrow> 'u client_loop res" where
  "client_exec user gettid a (UserTask Retry) L = retry user gettid a L"
| "client_exec user gettid a _ L = Inr L"

text \<open>\<open>t\<close> is the address of the new timer.\<close>

definition start_client :: "'u client_user \<Rightarrow> tid \<Rightarrow> addr \<Rightarrow> attempt \<Rightarrow> 'u client_loop \<Rightarrow> 'u client_loop res" where
  "start_client user gettid t a L =
     assertInLoopThread (m_tid L) gettid (
     bindR (runEvery (client_exec user gettid a) gettid t 3000000000 (Some (UserTask Retry)) L) (\<lambda>(t, L).
     start_connector user gettid a (on_client (\<lambda>s. s\<lparr>m_retryTimer := t\<rparr>) L)))"

text \<open>
  The destructor, then the members: the connection's reference is dropped. (The connector
  only closes its descriptor.)
\<close>

definition destroy_TCPClient :: "tid \<Rightarrow> 'u client_loop \<Rightarrow> 'u client_loop res" where
  "destroy_TCPClient gettid L =
     (let w = event_loop.more L; p = m_connection w in
      bindR (if p \<noteq> 0 then
          (case client_conns w p of
             None \<Rightarrow> Inl UseAfterFree
           | Some c \<Rightarrow> if \<not> isDisconnected c
               then (let (c, L) = forceClose (c, L) in
                     Inr (on_client (\<lambda>s. s\<lparr>client_conns := (client_conns s)(p \<mapsto> c)\<rparr>) L))
               else Inr L)
        else Inr L) (\<lambda>L.
      bindR (if m_retryTimer w \<noteq> 0 then cancelTimer (\<lambda>_. Inr) gettid (m_retryTimer w) L else Inr L) (\<lambda>L.
      release_conn p (on_client (\<lambda>s. s\<lparr>m_connection := 0\<rparr>) L))))"

section \<open>A new connection\<close>

lemma on_client_simps [simp]:
  "event_loop.more (on_client f L) = f (event_loop.more L)" "m_tid (on_client f L) = m_tid L"
  "m_pendingTasks (on_client f L) = m_pendingTasks L" "m_timers (on_client f L) = m_timers L"
  "timer_heap (on_client f L) = timer_heap L"
  by (simp_all add: on_client_def)

lemma tq_inv_more: "m_timers L' = m_timers L \<Longrightarrow> timer_heap L' = timer_heap L \<Longrightarrow> tq_inv L' = tq_inv L"
  by (simp add: tq_inv_def entry_ok_def)

lemma eraseTimer_live:
  assumes "timer_heap L t = Some x" and "t \<noteq> 0" and "\<not> m_canceled x"
  obtains L' where "eraseTimer t L = Inr L'" "timer_heap L' = (timer_heap L)(t := None)"
    "event_loop.more L' = event_loop.more L" "m_tid L' = m_tid L" "m_pendingTasks L' = m_pendingTasks L"
proof (rule that)
  let ?L = "delete_timer t (L\<lparr>timer_heap := (timer_heap L)(t \<mapsto> x\<lparr>m_canceled := True\<rparr>), m_timers := remove1 (m_when x, t) (m_timers L)\<rparr>)"
  show "eraseTimer t L = Inr ?L"
    using assms by (simp add: eraseTimer_def deref_def cancel_def)
qed (simp_all add: delete_timer_def)

lemma newConnection_eq:
  assumes t: "timer_heap L (m_retryTimer (event_loop.more L)) = Some x" "m_retryTimer (event_loop.more L) \<noteq> 0" "\<not> m_canceled x"
    and w: "m_connection (event_loop.more L) = 0"
  obtains L1 where "eraseTimer (m_retryTimer (event_loop.more L)) L = Inr L1"
    "event_loop.more L1 = event_loop.more L" "m_tid L1 = m_tid L" "m_pendingTasks L1 = m_pendingTasks L"
    "newConnection user (m_tid L) p sock fd local peer L =
       bindR (establish p fd local peer sock (map_option ClientUser (m_messageCallback_cl (event_loop.more L)))
           (map_option ClientUser (m_writeCompleteCallback_cl (event_loop.more L))) None 0 ClientClose
           (on_client (\<lambda>s. s\<lparr>m_retryTimer := 0, m_connected := True, m_connection := p\<rparr>) L1))
         (\<lambda>s. bindR (call_connection user s) (\<lambda>(c, L).
          Inr (on_client (\<lambda>s. s\<lparr>client_conns := (client_conns s)(p \<mapsto> c)\<rparr>) L)))"
proof -
  obtain L1 where L1: "eraseTimer (m_retryTimer (event_loop.more L)) L = Inr L1"
    "event_loop.more L1 = event_loop.more L" "m_tid L1 = m_tid L" "m_pendingTasks L1 = m_pendingTasks L"
    by (rule eraseTimer_live[OF t]) blast
  let ?L = "on_client (\<lambda>s. s\<lparr>m_connection := p\<rparr>) (on_client (\<lambda>s. s\<lparr>m_retryTimer := 0, m_connected := True\<rparr>) L1)"
  let ?m = "map_option ClientUser (m_messageCallback_cl (event_loop.more L))"
    and ?wc = "map_option ClientUser (m_writeCompleteCallback_cl (event_loop.more L))"
  have rel: "release_conn 0 L' = Inr L'" for L' :: "'a client_loop" by (simp add: release_conn_def)
  have ct: "cancelTimer (\<lambda>_. Inr) (m_tid L) (m_retryTimer (event_loop.more L)) L = Inr L1"
    using L1(1) by (simp add: cancelTimer_def runInLoop_def isInLoopThread_def)
  have "newConnection user (m_tid L) p sock fd local peer L = bindR (bindR (new_TCPConnection p fd local peer sock)
      (\<lambda>c. connectEstablished (m_tid ?L) (setCloseCallback (Some ClientClose) (setWriteCompleteCallback ?wc (setMessageCallback ?m c)), ?L)))
      (\<lambda>s. bindR (call_connection user s) (\<lambda>(c, L). Inr (on_client (\<lambda>s. s\<lparr>client_conns := (client_conns s)(p \<mapsto> c)\<rparr>) L)))"
    by (simp add: newConnection_def ct rel L1 w assertInLoopThread_def isInLoopThread_def)
  moreover have "?L = on_client (\<lambda>s. s\<lparr>m_retryTimer := 0, m_connected := True, m_connection := p\<rparr>) L1"
    by (simp add: on_client_def)
  ultimately show thesis using that L1 unfolding establish_setters by simp
qed

lemma newConnection_ok:
  assumes t: "timer_heap L (m_retryTimer (event_loop.more L)) = Some x" "m_retryTimer (event_loop.more L) \<noteq> 0" "\<not> m_canceled x"
    and w: "m_connection (event_loop.more L) = 0"
    and user: "user OnConnection = (\<lambda>u s. Inr (defaultConnectionCallback s))"
  obtains c L1 ep where "eraseTimer (m_retryTimer (event_loop.more L)) L = Inr L1"
    "newConnection user (m_tid L) p sock fd local peer L =
       Inr (on_client (\<lambda>s. s\<lparr>client_conns := (client_conns s)(p \<mapsto> c)\<rparr>)
         ((on_client (\<lambda>s. s\<lparr>m_retryTimer := 0, m_connected := True, m_connection := p\<rparr>) L1)\<lparr>m_poller := ep\<rparr>))"
    "event_loop.more L1 = event_loop.more L"
    "conn_inv c" "m_state c = kConnected" "m_closeCallback_conn c = Some ClientClose" "self c = p" "socket_of c = sock"
proof -
  let ?m = "map_option ClientUser (m_messageCallback_cl (event_loop.more L))"
    and ?wc = "map_option ClientUser (m_writeCompleteCallback_cl (event_loop.more L))"
  obtain L1 where L1: "eraseTimer (m_retryTimer (event_loop.more L)) L = Inr L1" "event_loop.more L1 = event_loop.more L"
    and eq: "newConnection user (m_tid L) p sock fd local peer L =
       bindR (establish p fd local peer sock ?m ?wc None 0 ClientClose
           (on_client (\<lambda>s. s\<lparr>m_retryTimer := 0, m_connected := True, m_connection := p\<rparr>) L1))
         (\<lambda>s. bindR (call_connection user s) (\<lambda>(c, L). Inr (on_client (\<lambda>s. s\<lparr>client_conns := (client_conns s)(p \<mapsto> c)\<rparr>) L)))"
    by (rule newConnection_eq[OF t w, of user p sock fd local peer])
  let ?L = "on_client (\<lambda>s. s\<lparr>m_retryTimer := 0, m_connected := True, m_connection := p\<rparr>) L1"
  obtain c ep where e: "establish p fd local peer sock ?m ?wc None 0 ClientClose ?L = Inr (c, ?L\<lparr>m_poller := ep\<rparr>)"
    "conn_inv c" "socket_of c = sock" "m_closeCallback_conn c = Some ClientClose" "m_state c = kConnected" "self c = p"
    using establish_ok[of p fd local peer sock ?m ?wc None 0 ClientClose ?L] by metis
  have "call_connection user s = Inr s" for s
    using user by (cases s) (auto simp: call_connection_def defaultConnectionCallback_def split: option.split)
  with eq e(1) have "newConnection user (m_tid L) p sock fd local peer L =
      Inr (on_client (\<lambda>s. s\<lparr>client_conns := (client_conns s)(p \<mapsto> c)\<rparr>) (?L\<lparr>m_poller := ep\<rparr>))" by simp
  with L1 e(2-6) show thesis by (intro that)
qed

text \<open>Starting: the retry timer waits, and the connector waits for the socket.\<close>

lemma insertTimer_frame:
  assumes "insertTimer e L = Inr L'"
  shows "m_tid L' = m_tid L" "event_loop.more L' = event_loop.more L"
proof -
  from assms have "L' = L\<lparr>m_timers := set_insert e (m_timers L)\<rparr> \<or> timerfdSet (fst e) (L\<lparr>m_timers := set_insert e (m_timers L)\<rparr>) = Inr L'"
    by (simp add: insertTimer_def assertR_eq_Inr Let_def split: if_splits)
  then show "m_tid L' = m_tid L" "event_loop.more L' = event_loop.more L"
    using timerfdSet_frame[of "fst e" "L\<lparr>m_timers := set_insert e (m_timers L)\<rparr>" L'] by auto
qed

lemma start_client_timer:
  assumes tq: "tq_inv L" and t: "t \<noteq> 0" "timer_heap L t = None" and ok: "start_client user (m_tid L) t a L = Inr L1"
  obtains L0 where "start_connector user (m_tid L) a (on_client (\<lambda>s. s\<lparr>m_retryTimer := t\<rparr>) L0) = Inr L1"
    "tq_inv L0" "armed L \<Longrightarrow> armed L0" "m_tid L0 = m_tid L" "event_loop.more L0 = event_loop.more L"
    "set (m_timers L0) = insert (clock_now L + 3000000000, t) (set (m_timers L))"
    "timer_heap L0 = (timer_heap L)(t \<mapsto> new_Timer (Some (UserTask Retry)) (clock_now L + 3000000000) 3000000000)"
proof -
  let ?when = "clock_now L + 3000000000"
  let ?L = "L\<lparr>timer_heap := (timer_heap L)(t \<mapsto> new_Timer (Some (UserTask Retry)) ?when 3000000000)\<rparr>"
  from ok obtain L0 where ins: "insertTimer (?when, t) ?L = Inr L0"
    and conn: "start_connector user (m_tid L) a (on_client (\<lambda>s. s\<lparr>m_retryTimer := t\<rparr>) L0) = Inr L1"
    by (auto simp: start_client_def runEvery_def addTimer_def runInLoop_def isInLoopThread_def Let_def res_iffs
        nowAfter_def int64_eq_Inr assertInLoopThread_eq_Inr)
  have np: "snd e \<noteq> t" if "entry_ok L e" for e using that t by (auto simp: entry_ok_def)
  have frame: "entry_ok ?L e" if "entry_ok L e" for e using entry_ok_frame[of ?L e L] np[OF that] that by simp
  have tq': "tq_inv ?L" using tq frame by (simp add: tq_inv_def)
  have e: "entry_ok ?L (?when, t)" using t by (simp add: entry_ok_def new_Timer_def)
  have "t \<notin> snd ` set (m_timers L)" using tq_inv_entry[OF tq] np by fastforce
  then have L0: "tq_inv L0" "set (m_timers L0) = insert (?when, t) (set (m_timers L))" "timer_heap L0 = timer_heap ?L"
    "armed ?L \<longrightarrow> armed L0"
    using insertTimer_ok[OF tq' e _ ins] by simp_all
  have "armed ?L = armed L" by (simp add: armed_def last_deadline_def last_clock_def)
  with L0 conn insertTimer_frame[OF ins] show thesis by (intro that) simp_all
qed

lemma start_client_ok:
  assumes w: "idle_connector (m_connector (event_loop.more L))" and tq: "tq_inv L"
    and t: "t \<noteq> 0" "timer_heap L t = None"
    and a: "connect_result a = Some EINPROGRESS" and ok: "start_client user (m_tid L) t a L = Inr L1"
  obtains k where "event_loop.more L1 = (event_loop.more L)\<lparr>m_retryTimer := t, m_connector := k\<rparr>"
    "polling (m_channel_connector k)" "m_events (m_channel_connector k) = EPOLLOUT" "tq_inv L1" "m_tid L1 = m_tid L"
    "set (m_timers L1) = insert (clock_now L + 3000000000, t) (set (m_timers L))"
    "timer_heap L1 = (timer_heap L)(t \<mapsto> new_Timer (Some (UserTask Retry)) (clock_now L + 3000000000) 3000000000)"
proof -
  obtain L0 where conn: "start_connector user (m_tid L) a (on_client (\<lambda>s. s\<lparr>m_retryTimer := t\<rparr>) L0) = Inr L1"
    and L0: "tq_inv L0" "m_tid L0 = m_tid L" "event_loop.more L0 = event_loop.more L"
      "set (m_timers L0) = insert (clock_now L + 3000000000, t) (set (m_timers L))"
      "timer_heap L0 = (timer_heap L)(t \<mapsto> new_Timer (Some (UserTask Retry)) (clock_now L + 3000000000) 3000000000)"
    by (rule start_client_timer[OF tq t ok]) blast
  let ?L0 = "on_client (\<lambda>s. s\<lparr>m_retryTimer := t\<rparr>) L0"
  have idle: "idle_connector (m_connector (event_loop.more ?L0))" using w by (simp add: L0)
  obtain k ep where k: "\<And>cb. start_Connector cb (m_tid ?L0) (Some EINPROGRESS) (so_error a) (sock_name a)
      (m_connector (event_loop.more ?L0), ?L0) = Inr (k, ?L0\<lparr>m_poller := ep\<rparr>)"
    "polling (m_channel_connector k)" "m_events (m_channel_connector k) = EPOLLOUT"
  proof -
    obtain k ep where "start_Connector None (m_tid ?L0) (Some EINPROGRESS) (so_error a) (sock_name a)
      (m_connector (event_loop.more ?L0), ?L0) = Inr (k, ?L0\<lparr>m_poller := ep\<rparr>)"
      "polling (m_channel_connector k)" "m_events (m_channel_connector k) = EPOLLOUT"
      by (rule start_Connector_waits[OF idle]) blast
    then show thesis by (intro that[of k ep]) (simp_all add: start_Connector_def)
  qed
  have "L1 = on_client (\<lambda>s. s\<lparr>m_connector := k\<rparr>) (?L0\<lparr>m_poller := ep\<rparr>)"
    using conn k(1) a L0(2) by (simp add: start_connector_def with_connector_def)
  then show thesis
    using k(2,3) L0 by (intro that[of k]) (simp_all add: on_client_def tq_inv_def entry_ok_def)
qed

section \<open>Properties\<close>

text \<open>
  C12. A client connects: it starts an attempt and the timer that retries; when the socket
  becomes writable without an error, the connection is established and kept, the timer is
  cancelled and freed, the other timers are untouched, and the connector is idle.
\<close>

theorem client_connects:
  assumes "new_TCPClient peer fd m d = Inr (event_loop.more L)" and "tq_inv L" and "t \<noteq> 0" and "timer_heap L t = None"
    and "connect_result a = Some EINPROGRESS" and "start_client user (m_tid L) t a L = Inr L1"
    and "so_error b = 0" and "user OnConnection = (\<lambda>u s. Inr (defaultConnectionCallback s))"
  shows "m_retryTimer (event_loop.more L1) = t \<and> t \<in> snd ` set (m_timers L1)
    \<and> isWriting (m_channel_connector (m_connector (event_loop.more L1)))
    \<and> (\<exists>L2 c. connector_writable user (m_tid L1) b L1 = Inr L2
        \<and> m_connected (event_loop.more L2) \<and> m_retryTimer (event_loop.more L2) = 0
        \<and> set (m_timers L2) = set (m_timers L) \<and> timer_heap L2 = timer_heap L
        \<and> m_connection (event_loop.more L2) = new_conn b \<and> client_conns (event_loop.more L2) (new_conn b) = Some c
        \<and> conn_inv c \<and> isConnected c \<and> m_closeCallback_conn c = Some ClientClose
        \<and> idle_connector (m_connector (event_loop.more L2)))"
proof -
  let ?w = "event_loop.more L"
  from assms(1) obtain x where "new_Connector peer fd = Inr x" and eq: "?w = \<lparr>m_connected = False, m_retryTimer = 0,
      m_messageCallback_cl = m, m_writeCompleteCallback_cl = None, m_connectionCallback_cl = d, m_connection = 0,
      m_connector = x, client_conns = Map.empty\<rparr>"
    by (auto simp: new_TCPClient_def res_iffs)
  then have w: "idle_connector (m_connector ?w)" "m_connection ?w = 0" by (simp_all add: new_Connector_idle)
  obtain k where k: "event_loop.more L1 = ?w\<lparr>m_retryTimer := t, m_connector := k\<rparr>"
    "polling (m_channel_connector k)" "m_events (m_channel_connector k) = EPOLLOUT" "tq_inv L1" "m_tid L1 = m_tid L"
    "set (m_timers L1) = insert (clock_now L + 3000000000, t) (set (m_timers L))"
    "timer_heap L1 = (timer_heap L)(t \<mapsto> new_Timer (Some (UserTask Retry)) (clock_now L + 3000000000) 3000000000)"
    by (rule start_client_ok[OF w(1) assms(2-6)])
  let ?cb = "\<lambda>fd local peer (k, L). bindR (newConnection user (m_tid L1) (new_conn b) (new_sock b) fd local peer L) (\<lambda>L. Inr (k, L))"
  have k0: "m_events (m_channel_connector k) \<noteq> 0" using k(3) by simp
  from handleWrite_connector_waiting[OF k(2) k0, of ?cb "so_error b" "sock_name b" L1] assms(7)
  obtain k' ep where k': "idle_connector k'" and h:
    "handleWrite_connector (Some ?cb) (m_tid L1) (so_error b) (sock_name b) (k, L1)
      = bindR (newConnection user (m_tid L1) (new_conn b) (new_sock b) (m_sockfd_connector k)
          (setAddress (sock_name b) (new_InetAddress True 0 False)) (m_peer_connector k) (L1\<lparr>m_poller := ep\<rparr>)) (\<lambda>L. Inr (k', L))"
    by (auto simp: attempt_over_def)
  let ?L = "L1\<lparr>m_poller := ep\<rparr>"
  have t: "timer_heap ?L (m_retryTimer (event_loop.more ?L)) = Some (new_Timer (Some (UserTask Retry)) (clock_now L + 3000000000) 3000000000)"
    "m_retryTimer (event_loop.more ?L) \<noteq> 0" "\<not> m_canceled (new_Timer (Some (UserTask Retry)) (clock_now L + 3000000000) 3000000000)"
    "m_connection (event_loop.more ?L) = 0"
    using k(1,7) assms(3) w(2) by (simp_all add: new_Timer_def)
  have rt: "m_retryTimer (event_loop.more ?L) = t" using k(1) by simp
  obtain c L' ep' where e: "eraseTimer t ?L = Inr L'"
    and n: "newConnection user (m_tid ?L) (new_conn b) (new_sock b) (m_sockfd_connector k)
       (setAddress (sock_name b) (new_InetAddress True 0 False)) (m_peer_connector k) ?L =
       Inr (on_client (\<lambda>s. s\<lparr>client_conns := (client_conns s)(new_conn b \<mapsto> c)\<rparr>)
         ((on_client (\<lambda>s. s\<lparr>m_retryTimer := 0, m_connected := True, m_connection := new_conn b\<rparr>) L')\<lparr>m_poller := ep'\<rparr>))"
    and c: "event_loop.more L' = event_loop.more ?L" "conn_inv c" "m_state c = kConnected" "m_closeCallback_conn c = Some ClientClose"
    by (rule newConnection_ok[where L = ?L and user = user and p = "new_conn b" and sock = "new_sock b"
        and fd = "m_sockfd_connector k" and local = "setAddress (sock_name b) (new_InetAddress True 0 False)"
        and peer = "m_peer_connector k", OF t assms(8), unfolded rt]) blast
  let ?L2 = "on_client (\<lambda>s. s\<lparr>m_connector := k'\<rparr>) (on_client (\<lambda>s. s\<lparr>client_conns := (client_conns s)(new_conn b \<mapsto> c)\<rparr>)
         ((on_client (\<lambda>s. s\<lparr>m_retryTimer := 0, m_connected := True, m_connection := new_conn b\<rparr>) L')\<lparr>m_poller := ep'\<rparr>))"
  have "connector_writable user (m_tid L1) b L1 = Inr ?L2"
    using h n k(1) by (simp add: connector_writable_def with_connector_def)
  moreover have "tq_inv ?L" using k(4) tq_inv_more[of ?L L1] by simp
  from eraseTimer_ok[OF this e] have er: "m_timers L' = filter (\<lambda>e. snd e \<noteq> t) (m_timers L1)"
    "timer_heap L' = (timer_heap L1)(t := None)" by simp_all
  have np: "snd e \<noteq> t" if "e \<in> set (m_timers L)" for e
    using tq_inv_entry[OF assms(2) that] assms(4) by (auto simp: entry_ok_def)
  have "set (m_timers L') = set (m_timers L)" using np by (auto simp: er(1) k(6))
  moreover have "timer_heap L' = timer_heap L" using assms(4) by (simp add: er(2) k(7) fun_upd_idem_iff)
  moreover have "t \<in> snd ` set (m_timers L1)" by (simp add: k(6))
  ultimately show ?thesis
    using k(1,3) k' c by (intro conjI exI[of _ ?L2] exI[of _ c]) (simp_all add: isWriting_def isConnected_def)
qed

lemma client_connects_witness:
  "\<exists>w L1 L2. new_TCPClient any_address 7 None None = Inr w
     \<and> start_client (\<lambda>_ _. Inr) 1 8 \<lparr>connect_result = Some EINPROGRESS, so_error = 0, sock_name = any_address,
          new_conn = 16, new_sock = sample_socket []\<rparr> (idle_loop w) = Inr L1
     \<and> connector_writable (\<lambda>_ _. Inr) 1 \<lparr>connect_result = None, so_error = 0, sock_name = any_address,
          new_conn = 16, new_sock = sample_socket []\<rparr> L1 = Inr L2
     \<and> m_connection (event_loop.more (L2 :: nat client_loop)) = 16"
proof -
  let ?a = "\<lparr>connect_result = Some EINPROGRESS, so_error = 0, sock_name = any_address, new_conn = 16, new_sock = sample_socket []\<rparr>"
    and ?b = "\<lparr>connect_result = None, so_error = 0, sock_name = any_address, new_conn = 16, new_sock = sample_socket []\<rparr>"
    and ?user = "\<lambda>_ _. Inr :: nat client_conn \<Rightarrow> nat client_conn res"
  obtain w :: "nat client" where w: "new_TCPClient any_address 7 None None = Inr w"
    and k: "idle_connector (m_connector w)"
    by (simp add: new_TCPClient_def new_Connector_def createSocket_def idle_connector_def new_Channel_def)
  let ?L = "idle_loop w :: nat client_loop"
  have L: "event_loop.more ?L = w" "tq_inv ?L" "timer_heap ?L 8 = None" "m_tid ?L = 1" "clock_now ?L = 0"
    by (simp_all add: idle_loop_def tq_inv_def)
  have "\<exists>L1. start_client ?user 1 8 ?a ?L = Inr L1 \<and> m_tid L1 = 1"
    using k by (simp add: start_client_def runEvery_def nowAfter_def int64_def int64_ok_def addTimer_def runInLoop_def
        isInLoopThread_def insertTimer_def set_insert_def timerfdSet_def durationFromNow_def idle_loop_def
        start_connector_def with_connector_def start_Connector_def connector_channel_def on_channel_def
        channel_ops_set_events set_events_ok on_client_def idle_connector_def)
  then obtain L1 where L1: "start_client ?user 1 8 ?a ?L = Inr L1" "m_tid L1 = 1" by blast
  have u: "?user OnConnection = (\<lambda>u s. Inr (defaultConnectionCallback s))"
    by (simp add: defaultConnectionCallback_def fun_eq_iff)
  have w': "new_TCPClient any_address 7 None None = Inr (event_loop.more ?L)" using w L(1) by simp
  have s': "start_client ?user (m_tid ?L) 8 ?a ?L = Inr L1" using L1(1) L(4) by simp
  have "connect_result ?a = Some EINPROGRESS" "so_error ?b = 0" "(8 :: nat) \<noteq> 0" by simp_all
  note C = client_connects[OF w' L(2) this(3) L(3) this(1) s' this(2) u]
  obtain L2 where "connector_writable ?user (m_tid L1) ?b L1 = Inr L2" "m_connection (event_loop.more L2) = new_conn ?b"
    using C by blast
  with w L1 show ?thesis by auto
qed

text \<open>
  C36. When the attempt that the retry timer starts succeeds at once, \<^verbatim>\<open>newConnection\<close> cancels
  the timer that is running it: the timer is deleted, and \<^verbatim>\<open>TimerQueue::handleRead\<close> goes on to
  use it.
\<close>

theorem retry_connects_use_after_free:
  assumes "m_timers L = [(w, t)]" and "entry_ok L (w, t)" and "w \<le> clock_now L" and "int64_ok (clock_now L + 1)"
    and "m_callback (the (timer_heap L t)) = Some (UserTask Retry)" and "m_retryTimer (event_loop.more L) = t"
    and "\<not> m_connected (event_loop.more L)" and "m_connection (event_loop.more L) = 0"
    and "idle_connector (m_connector (event_loop.more L))"
    and "connect_result a = None" and "so_error a = 0" and "user OnConnection = (\<lambda>u s. Inr (defaultConnectionCallback s))"
  shows "handleRead_timer (client_exec user (m_tid L) a) (m_tid L) L = Inl UseAfterFree"
proof -
  let ?k = "m_connector (event_loop.more L)" and ?L0 = "L\<lparr>m_timers := []\<rparr>"
  let ?cb = "\<lambda>fd local peer (k, M). bindR (newConnection user (m_tid L) (new_conn a) (new_sock a) fd local peer M) (\<lambda>M. Inr (k, M))"
  from entry_ok_deref[OF assms(2)] assms(2) obtain x where x: "timer_heap L t = Some x" "t \<noteq> 0" "\<not> m_canceled x"
    by (auto simp: entry_ok_def)
  have inv: "tq_inv L" using assms(1,2) by (simp add: tq_inv_def)
  have e0: "entry_ok ?L0 (w, t)" using assms(2) by (simp add: entry_ok_def)
  from handleWrite_connector_idle[OF assms(9), of ?cb "so_error a" "sock_name a" ?L0] assms(11) obtain k' ep where
    h: "handleWrite_connector (Some ?cb) (m_tid ?L0) (so_error a) (sock_name a) (?k, ?L0)
      = bindR (newConnection user (m_tid L) (new_conn a) (new_sock a) (m_sockfd_connector ?k)
          (setAddress (sock_name a) (new_InetAddress True 0 False)) (m_peer_connector ?k) (?L0\<lparr>m_poller := ep\<rparr>)) (\<lambda>M. Inr (k', M))"
    by (auto simp: attempt_over_def)
  let ?L1 = "?L0\<lparr>m_poller := ep\<rparr>"
  have t1: "timer_heap ?L1 (m_retryTimer (event_loop.more ?L1)) = Some x" "m_retryTimer (event_loop.more ?L1) \<noteq> 0"
    "\<not> m_canceled x" "m_connection (event_loop.more ?L1) = 0" "m_retryTimer (event_loop.more ?L1) = t"
    using x assms(6,8) by simp_all
  obtain c L' ep' where er: "eraseTimer t ?L1 = Inr L'"
    and n: "newConnection user (m_tid ?L1) (new_conn a) (new_sock a) (m_sockfd_connector ?k)
       (setAddress (sock_name a) (new_InetAddress True 0 False)) (m_peer_connector ?k) ?L1 =
       Inr (on_client (\<lambda>s. s\<lparr>client_conns := (client_conns s)(new_conn a \<mapsto> c)\<rparr>)
         ((on_client (\<lambda>s. s\<lparr>m_retryTimer := 0, m_connected := True, m_connection := new_conn a\<rparr>) L')\<lparr>m_poller := ep'\<rparr>))"
    by (rule newConnection_ok[where L = ?L1 and user = user and p = "new_conn a" and sock = "new_sock a"
        and fd = "m_sockfd_connector ?k" and local = "setAddress (sock_name a) (new_InetAddress True 0 False)"
        and peer = "m_peer_connector ?k", OF t1(1-4) assms(12), unfolded t1(5)]) blast
  have "timer_heap L' = (timer_heap ?L1)(t := None)"
    using eraseTimer_live[of ?L1 t x] x er by (auto simp: eraseTimer_def res_iffs delete_timer_def deref_eq_Inr cancel_def Let_def)
  moreover obtain M where "run_timer (client_exec user (m_tid L) a) x ?L0 = Inr M" "timer_heap M = timer_heap L'"
    using h n x(1) assms(5,7,10)
    by (simp add: run_timer_def retry_def start_connector_def with_connector_def start_Connector_def
        assertInLoopThread_def isInLoopThread_def)
  ultimately have "bindR (run_timer (client_exec user (m_tid L) a) x ?L0) (settle (w, t)) = Inl UseAfterFree"
    using x(2) by (simp add: settle_def deref_def)
  with x e0 assms(1,3,4) show ?thesis
    by (simp add: handleRead_timer_def getExpired_ok[OF inv] handleEntry_settle[OF e0])
qed

lemma retry_connects_use_after_free_witness:
  "\<exists>L :: nat client_loop. handleRead_timer (client_exec (\<lambda>_ _. Inr) 1 \<lparr>connect_result = None, so_error = 0, sock_name = any_address,
     new_conn = 16, new_sock = sample_socket []\<rparr>) 1 L = Inl UseAfterFree"
proof -
  let ?a = "\<lparr>connect_result = None, so_error = 0, sock_name = any_address, new_conn = 16, new_sock = sample_socket []\<rparr>"
    and ?user = "\<lambda>_ _. Inr :: nat client_conn \<Rightarrow> nat client_conn res"
  obtain w :: "nat client" where w: "new_TCPClient any_address 7 None None = Inr w" "idle_connector (m_connector w)"
    "m_connection w = 0" "\<not> m_connected w"
    by (simp add: new_TCPClient_def new_Connector_def createSocket_def idle_connector_def new_Channel_def)
  let ?L = "(idle_loop (w\<lparr>m_retryTimer := 8\<rparr>))\<lparr>m_timers := [(3000000000, 8)], clock_now := 3000000000,
    timer_heap := [8 \<mapsto> new_Timer (Some (UserTask Retry)) 3000000000 3000000000]\<rparr> :: nat client_loop"
  have u: "?user OnConnection = (\<lambda>u s. Inr (defaultConnectionCallback s))"
    by (simp add: defaultConnectionCallback_def fun_eq_iff)
  have "handleRead_timer (client_exec ?user (m_tid ?L) ?a) (m_tid ?L) ?L = Inl UseAfterFree"
    by (rule retry_connects_use_after_free[where w = 3000000000 and t = 8, OF _ _ _ _ _ _ _ _ _ _ _ u])
      (use w in \<open>simp_all add: idle_loop_def entry_ok_def new_Timer_def int64_ok_def\<close>)
  moreover have "m_tid ?L = 1" by (simp add: idle_loop_def)
  ultimately show ?thesis by metis
qed

end
