(* ===== verification/Client_Runs.thy ===== *)
theory Client_Runs
  imports Tcp_Client
begin

text \<open>
  A \<^verbatim>\<open>TCPClient\<close> over whole runs: expiries of timers, with its retries among them, a
  connecting socket that becomes writable, events and calls on its connection, and pending
  closures, in any order. The definitions of the class are in the theory \<open>Tcp_Client\<close>.
\<close>

section \<open>Runs\<close>

text \<open>
  As for a server, user callbacks are scripts of calls on the connection. A timer task that
  another thread queued is dropped: the client's timer is its own. The connecting socket
  reports an event only while it is registered; a new connection gets a free address.
\<close>

datatype client_event =
    TimersDue time_point attempt
  | ConnectorReady attempt
  | ClientConnReady addr "32 word"
  | ClientConnCall tid addr conn_act
  | ClientRunNext

definition with_client_conn :: "addr \<Rightarrow> ('u client_conn \<Rightarrow> 'u client_conn res) \<Rightarrow> 'u client_loop \<Rightarrow> 'u client_loop res" where
  "with_client_conn p op L =
     (case client_conns (event_loop.more L) p of
        None \<Rightarrow> Inl UseAfterFree
      | Some c \<Rightarrow> bindR (op (c, L)) (\<lambda>(c', L'). Inr (on_client (\<lambda>s. s\<lparr>client_conns := (client_conns s)(p \<mapsto> c')\<rparr>) L')))"

fun client_body :: "(conn_event \<Rightarrow> 'u \<Rightarrow> conn_act list) \<Rightarrow> client_event \<Rightarrow> 'u client_loop \<Rightarrow> 'u client_loop res" where
  "client_body script (TimersDue now a) L =
     handleRead_timer (client_exec (scripted_user script) (m_tid L) a) (m_tid L) (L\<lparr>clock_now := now\<rparr>)"
| "client_body script (ConnectorReady a) L =
     (if polling (m_channel_connector (m_connector (event_loop.more L)))
      then connector_writable (scripted_user script) (m_tid L) a L else Inr L)"
| "client_body script (ClientConnReady p ev) L =
     with_client_conn p (handle_conn_event (client_call (scripted_user script) (m_tid L)) (m_tid L) ev) L"
| "client_body script (ClientConnCall g p a) L = with_client_conn p (plain_act g a) L"
| "client_body script ClientRunNext L =
     (case m_pendingTasks L of
        [] \<Rightarrow> Inr L
      | t # ts \<Rightarrow>
          (case (t, task_target t) of
             (Closure u, Some p) \<Rightarrow>
               with_client_conn p (run_net_task (client_call (scripted_user script) (m_tid L)) (m_tid L) u)
                 (L\<lparr>m_pendingTasks := ts\<rparr>)
           | _ \<Rightarrow> Inr (L\<lparr>m_pendingTasks := ts\<rparr>)))"

fun client_event_conn :: "client_event \<Rightarrow> 'u client_loop \<Rightarrow> addr option" where
  "client_event_conn (ClientConnReady p ev) L = Some p"
| "client_event_conn (ClientConnCall g p a) L = Some p"
| "client_event_conn ClientRunNext L = (case m_pendingTasks L of [] \<Rightarrow> None | t # ts \<Rightarrow> task_target t)"
| "client_event_conn _ L = None"

text \<open>
  The system behaves: new sockets lose no data, new connections are not at the null pointer,
  and a retry does not connect at once (\<open>retry_connects_use_after_free\<close> is what happens then).
\<close>

definition benign_attempt :: "attempt \<Rightarrow> bool" where
  "benign_attempt a \<longleftrightarrow> new_conn a \<noteq> 0 \<and> benign (new_sock a)"

fun benign_client_event :: "client_event \<Rightarrow> bool" where
  "benign_client_event (TimersDue now a) \<longleftrightarrow> connect_result a \<noteq> None"
| "benign_client_event (ConnectorReady a) \<longleftrightarrow> benign_attempt a"
| "benign_client_event _ \<longleftrightarrow> True"

section \<open>Invariant\<close>

text \<open>A connector waits for its socket exactly while it is registered.\<close>

definition connector_ok :: "connector \<Rightarrow> bool" where
  "connector_ok k \<longleftrightarrow> (polling (m_channel_connector k) \<longleftrightarrow> m_events (m_channel_connector k) \<noteq> 0)"

text \<open>
  Until it is connected, the client has its retry timer and no connection; afterwards it has
  at most one connection, which \<open>m_connection\<close> points to exactly while it is not closed.
\<close>

definition conn_kept :: "'u client \<Rightarrow> addr \<Rightarrow> 'u client_cb tcp_connection \<Rightarrow> bool" where
  "conn_kept w p c \<longleftrightarrow> p \<noteq> 0 \<and> self c = p \<and> conn_inv c \<and> benign (socket_of c) \<and> m_closeCallback_conn c = Some ClientClose
     \<and> m_connection w = (if isDisconnected c then 0 else p)"

definition client_rest :: "'u client \<Rightarrow> bool" where
  "client_rest w \<longleftrightarrow> connector_ok (m_connector w)
     \<and> (if m_connected w then m_retryTimer w = 0 \<and> idle_connector (m_connector w)
            \<and> (client_conns w = Map.empty \<and> m_connection w = 0 \<or> (\<exists>p c. client_conns w = [p \<mapsto> c] \<and> conn_kept w p c))
        else m_retryTimer w \<noteq> 0 \<and> m_connection w = 0 \<and> client_conns w = Map.empty)"

definition retrying :: "'u client_loop \<Rightarrow> bool" where
  "retrying L \<longleftrightarrow> tq_inv L \<and> armed L \<and> ticking (m_retryTimer (event_loop.more L)) (Some (UserTask Retry)) 3000000000 [] L"

definition client_inv :: "'u client_loop \<Rightarrow> bool" where
  "client_inv L \<longleftrightarrow> client_rest (event_loop.more L) \<and> (m_connected (event_loop.more L) \<or> retrying L)"

lemma client_inv_cong:
  assumes "event_loop.more L' = event_loop.more L" "m_timers L' = m_timers L" "timer_heap L' = timer_heap L"
    "timerfd_sets L' = timerfd_sets L"
  shows "client_inv L' = client_inv L"
  using assms by (simp add: client_inv_def retrying_def tq_inv_def entry_ok_def armed_def last_deadline_def
      last_clock_def ticking_def)

lemma conn_kept_connector: "conn_kept (w\<lparr>m_connector := k\<rparr>) = conn_kept w"
  by (simp add: conn_kept_def fun_eq_iff)

text \<open>Replacing the connector does not matter as long as it is in order.\<close>

lemma client_rest_connector:
  "client_rest w \<Longrightarrow> idle_connector k \<or> \<not> m_connected w \<and> connector_ok k \<Longrightarrow> client_rest (w\<lparr>m_connector := k\<rparr>)"
  by (auto simp: client_rest_def connector_ok_def idle_connector_def conn_kept_connector)

section \<open>The connector\<close>

lemma handleWrite_connector_over:
  "connector_ok k \<Longrightarrow> attempt_over cb err name k L (handleWrite_connector (Some cb) (m_tid L) err name (k, L))"
  using handleWrite_connector_idle[of k cb err name L] handleWrite_connector_waiting[of k cb err name L]
  unfolding connector_ok_def idle_connector_def by blast

lemma connector_channel_enable:
  assumes "connector_channel enableWrite g (k, L) = Inr (k', L')"
  shows "connector_ok k' \<and> (\<exists>ep. L' = L\<lparr>m_poller := ep\<rparr>)"
proof -
  from assms obtain ep ch where s: "set_events (m_tid L) g (\<lambda>e. e OR EPOLLOUT) (m_poller L, m_channel_connector k) = Inr (ep, ch)"
    and eq: "k' = k\<lparr>m_channel_connector := ch\<rparr>" "L' = L\<lparr>m_poller := ep\<rparr>"
    by (auto simp: connector_channel_def on_channel_eq_Inr channel_ops_set_events(2) bindR_eq_Inr)
  from set_events_frame(1,5)[OF s] eq show ?thesis by (auto simp: connector_ok_def)
qed

text \<open>An attempt that does not succeed at once.\<close>

lemma start_connector_pending:
  assumes "connect_result a = Some e" and "start_connector user g a L = Inr L'"
  obtains k ep where "L' = on_client (\<lambda>s. s\<lparr>m_connector := k\<rparr>) (L\<lparr>m_poller := ep\<rparr>)"
    "connector_ok (m_connector (event_loop.more L)) \<Longrightarrow> connector_ok k"
proof -
  let ?k = "m_connector (event_loop.more L)"
  from assms(1,2) obtain k L1 where
    "(if e = EINPROGRESS then connector_channel enableWrite g (?k, L) else Inr (?k, L)) = Inr (k, L1)"
    and L': "L' = on_client (\<lambda>s. s\<lparr>m_connector := k\<rparr>) L1"
    by (auto simp: start_connector_def with_connector_def start_Connector_def bindR_eq_Inr assertInLoopThread_eq_Inr)
  then have "(connector_ok ?k \<longrightarrow> connector_ok k) \<and> (\<exists>ep. L1 = L\<lparr>m_poller := ep\<rparr>)"
    using connector_channel_enable[of g ?k L k L1] by (auto split: if_splits intro: exI[of _ "m_poller L"])
  with L' that show thesis by blast
qed

section \<open>The connection\<close>

text \<open>
  While the connection is acted on, the client differs from \<open>w0\<close> only in whether
  \<open>m_connection\<close> still points to it.
\<close>

definition holding :: "addr \<Rightarrow> 'u client \<Rightarrow> addr \<Rightarrow> 'u client_cb \<Rightarrow> bool \<Rightarrow> bytes \<Rightarrow> 'u client \<Rightarrow> bool" where
  "holding p0 w0 p u closed str w \<longleftrightarrow> p = p0 \<and> p \<noteq> 0 \<and> u = ClientClose
     \<and> w = w0\<lparr>m_connection := (if closed then 0 else p)\<rparr>"

definition letting_go :: "addr \<Rightarrow> 'u client \<Rightarrow> addr \<Rightarrow> 'u client_cb \<Rightarrow> bool \<Rightarrow> bytes \<Rightarrow> 'u client \<Rightarrow> bool" where
  "letting_go p0 w0 p u closed str w \<longleftrightarrow> p = p0 \<and> p \<noteq> 0 \<and> u = ClientClose \<and> closed \<and> w = w0\<lparr>m_connection := p\<rparr>"

lemma holding_stream: "ignores_stream (holding p0 w0)"
  by (simp add: holding_def ignores_stream_def)

lemma call_connection_keeps:
  "conn_ok (holding p w0) s \<Longrightarrow> call_connection (scripted_user script) s = Inr s' \<Longrightarrow> conn_ok (holding p w0) s'"
  by (cases s) (auto simp: call_connection_def intro: scripted_user_keeps[OF holding_stream] split: option.splits)

lemma closeConnection_cl_keeps:
  assumes ok: "conn_ok (letting_go p w0) s" and h: "closeConnection_cl (scripted_user script) g s = Inr s'"
  shows "conn_ok (holding p w0) s'"
proof -
  obtain c L where s: "s = (c, L)" by fastforce
  let ?L = "on_client (\<lambda>s. s\<lparr>m_connection := 0\<rparr>) L"
  have "call_connection (scripted_user script) (c, ?L) = Inr s'"
    using h by (simp add: closeConnection_cl_def s assertInLoopThread_eq_Inr assertR_eq_Inr)
  moreover have "conn_ok (holding p w0) (c, ?L)"
    using ok by (auto simp: s conn_ok_def letting_go_def holding_def)
  ultimately show ?thesis using call_connection_keeps by blast
qed

interpretation held: conn_client "client_call (scripted_user script) g" "holding p w0" "letting_go p w0"
proof
  fix ev u and s s' :: "('a client_cb, 'a client) conn_loop"
  show "conn_ok (holding p w0) s'"
    if "ev \<noteq> OnClose" "conn_ok (holding p w0) s" "client_call (scripted_user script) g ev u s = Inr s'"
    using that by (cases u) (auto intro: scripted_user_keeps[OF holding_stream])
  show "conn_ok (holding p w0) s'" if "conn_ok (letting_go p w0) s" "m_closeCallback_conn (fst s) = Some u"
    "client_call (scripted_user script) g OnClose u s = Inr s'"
  proof -
    from that(1,2) have "u = ClientClose" by (auto simp: conn_ok_def letting_go_def)
    with that closeConnection_cl_keeps show ?thesis by simp
  qed
qed (simp add: holding_def letting_go_def)

lemma held_task_keeps:
  assumes ok: "conn_ok (holding p w0) (c, L)"
    and h: "run_net_task (client_call (scripted_user script) g) g t (c, L) = Inr s'"
  shows "conn_ok (holding p w0) s'"
proof (cases "\<exists>q d. t = SendInLoop q d")
  case True
  with h ok show ?thesis by (metis run_net_task.simps(1) sendInLoop_keeps[OF holding_stream] surj_pair)
next
  case False
  with held.run_net_task_keeps[OF ok h] show ?thesis by blast
qed

text \<open>Storing the connection after an operation.\<close>

lemma held_store:
  assumes w0: "connector_ok (m_connector w0)" "m_connected w0" "m_retryTimer w0 = 0" "idle_connector (m_connector w0)"
    "(client_conns w0)(p := None) = Map.empty"
    and ok: "conn_ok (holding p w0) (c, L)"
  shows "client_rest (event_loop.more (on_client (\<lambda>s. s\<lparr>client_conns := (client_conns s)(p \<mapsto> c)\<rparr>) L))"
proof -
  have w: "event_loop.more L = w0\<lparr>m_connection := (if isDisconnected c then 0 else p)\<rparr>" "p \<noteq> 0" "self c = p"
    "conn_inv c" "benign (socket_of c)" "m_closeCallback_conn c = Some ClientClose"
    using ok by (auto simp: conn_ok_def holding_def isDisconnected_def)
  have "(client_conns w0)(p \<mapsto> c) = ((client_conns w0)(p := None))(p \<mapsto> c)" by simp
  then have "(client_conns w0)(p \<mapsto> c) = [p \<mapsto> c]" using w0(5) by simp
  with w w0 show ?thesis
    unfolding client_rest_def by (intro conjI) (auto simp: conn_kept_def)
qed

lemma client_rest_conn:
  assumes "client_rest w" and "client_conns w p = Some c"
  shows "m_connected w" "m_retryTimer w = 0" "idle_connector (m_connector w)" "client_conns w = [p \<mapsto> c]" "conn_kept w p c"
    "connector_ok (m_connector w)"
  using assms by (auto simp: client_rest_def split: if_splits)

lemma with_client_conn_keeps:
  assumes inv: "client_rest (event_loop.more L)" and h: "with_client_conn p op L = Inr L'"
    and op: "\<And>c s'. conn_ok (holding p (event_loop.more L)) (c, L) \<Longrightarrow> op (c, L) = Inr s'
      \<Longrightarrow> conn_ok (holding p (event_loop.more L)) s'"
  shows "client_rest (event_loop.more L') \<and> m_connected (event_loop.more L')"
proof -
  let ?w = "event_loop.more L"
  from h obtain c c' L1 where c: "client_conns ?w p = Some c" and o: "op (c, L) = Inr (c', L1)"
    and L': "L' = on_client (\<lambda>s. s\<lparr>client_conns := (client_conns s)(p \<mapsto> c')\<rparr>) L1"
    by (auto simp: with_client_conn_def res_iffs split: option.splits)
  note r = client_rest_conn[OF inv c]
  have "?w = ?w\<lparr>m_connection := m_connection ?w\<rparr>" by simp
  with r(5) have "conn_ok (holding p ?w) (c, L)"
    by (simp add: conn_ok_def conn_kept_def holding_def isDisconnected_def)
  from op[OF this o] have ok: "conn_ok (holding p ?w) (c', L1)" .
  have "(client_conns ?w)(p := None) = Map.empty" using r(4) by simp
  from held_store[OF r(6,1,2,3) this ok] have "client_rest (event_loop.more L')" by (simp add: L')
  moreover have "client_conns (event_loop.more L') p = Some c'" by (simp add: L')
  ultimately show ?thesis using client_rest_conn(1) by blast
qed

text \<open>Dropping a reference either leaves all as it is, or frees a closed connection.\<close>

lemma release_conn_cases:
  assumes rest: "client_rest (event_loop.more L)"
  obtains (kept) "release_conn p L = Inr L" "p \<in> dom (client_conns (event_loop.more L)) \<Longrightarrow> m_connection (event_loop.more L) = p
      \<or> (\<exists>t \<in> set (m_pendingTasks L). holds_reference t \<and> task_target t = Some p)"
  | (freed) "release_conn p L = Inr (on_client (\<lambda>s. s\<lparr>client_conns := (client_conns s)(p := None)\<rparr>) L)"
      "client_rest (event_loop.more (on_client (\<lambda>s. s\<lparr>client_conns := (client_conns s)(p := None)\<rparr>) L))"
      "m_connected (event_loop.more L)"
proof (cases "p = 0 \<or> m_connection (event_loop.more L) = p \<or> (\<exists>t \<in> set (m_pendingTasks L). holds_reference t \<and> task_target t = Some p)
    \<or> client_conns (event_loop.more L) p = None")
  case True
  have "p \<noteq> 0" if "client_conns (event_loop.more L) p = Some c" for c
    using client_rest_conn(5)[OF rest that] by (simp add: conn_kept_def)
  with True show thesis by (intro kept) (auto simp: release_conn_def)
next
  case False
  then obtain c where c: "client_conns (event_loop.more L) p = Some c" "m_connection (event_loop.more L) \<noteq> p" by auto
  note r = client_rest_conn[OF rest c(1)]
  from r(5) c(2) have d: "m_state c = kDisconnected" "m_connection (event_loop.more L) = 0"
    by (auto simp: conn_kept_def isDisconnected_def split: if_splits)
  have "\<not> (p = 0 \<or> m_connection (event_loop.more L) = p \<or> (\<exists>t \<in> set (m_pendingTasks L). holds_reference t \<and> task_target t = Some p))"
    using False by blast
  then have "release_conn p L = Inr (on_client (\<lambda>s. s\<lparr>client_conns := (client_conns s)(p := None)\<rparr>) L)"
    using c d unfolding release_conn_def by (simp only: if_False) (simp add: destroy_TCPConnection_def)
  then show thesis by (rule freed) (use r d in \<open>simp_all add: client_rest_def\<close>)
qed

lemma release_conn_ok:
  assumes inv: "client_inv L"
  shows "\<exists>L'. release_conn p L = Inr L' \<and> client_inv L'"
proof -
  have "client_rest (event_loop.more L)" using inv by (simp add: client_inv_def)
  then show ?thesis
    by (cases rule: release_conn_cases[of L p]) (use inv in \<open>simp_all add: client_inv_def\<close>)
qed

section \<open>Connecting\<close>

lemma retrying_timer:
  assumes "retrying L"
  obtains x where "timer_heap L (m_retryTimer (event_loop.more L)) = Some x" "\<not> m_canceled x"
proof -
  from assms obtain e where e: "e \<in> set (m_timers L)" "snd e = m_retryTimer (event_loop.more L)" and "tq_inv L"
    by (auto simp: retrying_def ticking_def)
  from entry_ok_deref[OF tq_inv_entry[OF this(3) e(1)]] e(2) that show thesis by auto
qed

text \<open>
  The parts of a successful \<^verbatim>\<open>newConnection\<close>: the timer is erased, the connection established
  and the user told.
\<close>

lemma newConnection_parts:
  assumes h: "newConnection user g p sock fd local peer L = Inr L'" and w: "m_connection (event_loop.more L) = 0"
  obtains L1 c ep c' L2 where "event_loop.more L1 = event_loop.more L" "m_pendingTasks L1 = m_pendingTasks L"
    "m_tid L1 = m_tid L" "wakeup_count L1 = wakeup_count L"
    "conn_inv c" "socket_of c = sock" "m_closeCallback_conn c = Some ClientClose" "m_state c = kConnected" "self c = p"
    "call_connection user (c, (on_client (\<lambda>s. s\<lparr>m_retryTimer := 0, m_connected := True, m_connection := p\<rparr>) L1)\<lparr>m_poller := ep\<rparr>)
       = Inr (c', L2)"
    "L' = on_client (\<lambda>s. s\<lparr>client_conns := (client_conns s)(p \<mapsto> c')\<rparr>) L2" "g = m_tid L"
proof -
  let ?w = "event_loop.more L"
  have g: "g = m_tid L" using h by (simp add: newConnection_def assertInLoopThread_eq_Inr)
  with h obtain L1 where e: "eraseTimer (m_retryTimer ?w) L = Inr L1"
    by (auto simp: newConnection_def assertInLoopThread_eq_Inr bindR_eq_Inr cancelTimer_def runInLoop_def isInLoopThread_def)
  from e obtain x where x: "timer_heap L (m_retryTimer ?w) = Some x" "m_retryTimer ?w \<noteq> 0" "\<not> m_canceled x"
    by (auto simp: eraseTimer_def bindR_eq_Inr deref_eq_Inr cancel_def assertR_eq_Inr)
  have L1: "event_loop.more L1 = ?w" "m_pendingTasks L1 = m_pendingTasks L" "m_tid L1 = m_tid L" "wakeup_count L1 = wakeup_count L"
    using e by (auto simp: eraseTimer_def bindR_eq_Inr Let_def delete_timer_def)
  let ?m = "map_option ClientUser (m_messageCallback_cl ?w)" and ?wc = "map_option ClientUser (m_writeCompleteCallback_cl ?w)"
  let ?L = "on_client (\<lambda>s. s\<lparr>m_retryTimer := 0, m_connected := True, m_connection := p\<rparr>) L1"
  have eq: "newConnection user (m_tid L) p sock fd local peer L = bindR (establish p fd local peer sock ?m ?wc None 0 ClientClose ?L)
         (\<lambda>s. bindR (call_connection user s) (\<lambda>(c, L). Inr (on_client (\<lambda>s. s\<lparr>client_conns := (client_conns s)(p \<mapsto> c)\<rparr>) L)))"
    by (rule newConnection_eq[OF x w, of user p sock fd local peer]) (use e in simp)
  obtain c ep where c: "establish p fd local peer sock ?m ?wc None 0 ClientClose ?L = Inr (c, ?L\<lparr>m_poller := ep\<rparr>)"
    "conn_inv c" "socket_of c = sock" "m_closeCallback_conn c = Some ClientClose" "m_state c = kConnected" "self c = p"
    using establish_ok[of p fd local peer sock ?m ?wc None 0 ClientClose ?L] by metis
  from h eq c(1) g obtain c' L2 where "call_connection user (c, ?L\<lparr>m_poller := ep\<rparr>) = Inr (c', L2)"
    "L' = on_client (\<lambda>s. s\<lparr>client_conns := (client_conns s)(p \<mapsto> c')\<rparr>) L2"
    by (auto simp: bindR_eq_Inr)
  with L1 c g show thesis by (intro that)
qed

text \<open>The callbacks close nothing, so the client holds an open connection at the end.\<close>

definition fresh_conn :: "addr \<Rightarrow> 'u client \<Rightarrow> addr \<Rightarrow> 'u client_cb \<Rightarrow> bool \<Rightarrow> bytes \<Rightarrow> 'u client \<Rightarrow> bool" where
  "fresh_conn p0 w0 p u closed str w \<longleftrightarrow> holding p0 w0 p u closed str w \<and> \<not> closed"

lemma newConnection_rest:
  assumes w: "client_rest (event_loop.more L)" "\<not> m_connected (event_loop.more L)" and p: "p \<noteq> 0" "benign sock"
    and h: "newConnection (scripted_user script) g p sock fd local peer L = Inr L'" and k: "idle_connector k"
  shows "let w = event_loop.more (on_client (\<lambda>s. s\<lparr>m_connector := k\<rparr>) L') in
    client_rest w \<and> m_connected w \<and> m_connection w = p \<and> dom (client_conns w) = {p}"
proof -
  let ?w = "event_loop.more L"
  have w': "m_connection ?w = 0" "client_conns ?w = Map.empty" using w by (simp_all add: client_rest_def)
  obtain L1 c ep c' L2 where L1: "event_loop.more L1 = ?w"
    and e: "conn_inv c" "socket_of c = sock" "m_closeCallback_conn c = Some ClientClose" "m_state c = kConnected" "self c = p"
    and u: "call_connection (scripted_user script)
       (c, (on_client (\<lambda>s. s\<lparr>m_retryTimer := 0, m_connected := True, m_connection := p\<rparr>) L1)\<lparr>m_poller := ep\<rparr>) = Inr (c', L2)"
    and L': "L' = on_client (\<lambda>s. s\<lparr>client_conns := (client_conns s)(p \<mapsto> c')\<rparr>) L2"
    by (rule newConnection_parts[OF h w'(1)]) (rule that)
  let ?w1 = "?w\<lparr>m_retryTimer := 0, m_connected := True, m_connection := p\<rparr>"
  let ?L = "(on_client (\<lambda>s. s\<lparr>m_retryTimer := 0, m_connected := True, m_connection := p\<rparr>) L1)\<lparr>m_poller := ep\<rparr>"
  have "conn_ok (fresh_conn p ?w1) (c, ?L)"
    using e p by (simp add: conn_ok_def fresh_conn_def holding_def L1)
  moreover have "ignores_stream (fresh_conn p ?w1)" by (simp add: fresh_conn_def holding_def ignores_stream_def)
  ultimately have "conn_ok (fresh_conn p ?w1) (c', L2)"
    using u scripted_user_keeps[of "fresh_conn p ?w1"] by (auto simp: call_connection_def split: option.splits)
  then have open': "\<not> isDisconnected c'" and ok: "conn_ok (holding p (?w1\<lparr>m_connector := k\<rparr>)) (c', on_client (\<lambda>s. s\<lparr>m_connector := k\<rparr>) L2)"
    by (simp_all add: conn_ok_def fresh_conn_def holding_def isDisconnected_def)
  let ?w2 = "?w1\<lparr>m_connector := k\<rparr>"
  have w2: "connector_ok (m_connector ?w2)" "m_connected ?w2" "m_retryTimer ?w2 = 0" "idle_connector (m_connector ?w2)"
    "(client_conns ?w2)(p := None) = Map.empty" using k w'(2) by (simp_all add: connector_ok_def idle_connector_def)
  have eq: "event_loop.more (on_client (\<lambda>s. s\<lparr>m_connector := k\<rparr>) L')
      = event_loop.more (on_client (\<lambda>s. s\<lparr>client_conns := (client_conns s)(p \<mapsto> c')\<rparr>) (on_client (\<lambda>s. s\<lparr>m_connector := k\<rparr>) L2))"
    by (simp add: L')
  have rest: "client_rest (event_loop.more (on_client (\<lambda>s. s\<lparr>m_connector := k\<rparr>) L'))"
    unfolding eq by (rule held_store[OF w2 ok])
  have "client_conns (event_loop.more (on_client (\<lambda>s. s\<lparr>m_connector := k\<rparr>) L')) p = Some c'" by (simp add: L')
  from client_rest_conn[OF rest this] open' rest show ?thesis by (simp add: conn_kept_def)
qed

text \<open>What an attempt, from the call of \<^verbatim>\<open>connect\<close> or from the event of the socket, comes to.\<close>

lemma attempt_over_cases:
  assumes over: "attempt_over (\<lambda>fd local peer (k, L). bindR (newConnection user g (new_conn a) (new_sock a) fd local peer L)
        (\<lambda>L. Inr (k, L))) err name k0 L r"
    and h: "bindR r (\<lambda>(k, L). Inr (on_client (\<lambda>s. s\<lparr>m_connector := k\<rparr>) L)) = Inr L'"
  obtains (unconnected) k ep where "connector_ok k" "L' = on_client (\<lambda>s. s\<lparr>m_connector := k\<rparr>) (L\<lparr>m_poller := ep\<rparr>)"
  | (made) k ep fd local peer L1 where "idle_connector k" "L' = on_client (\<lambda>s. s\<lparr>m_connector := k\<rparr>) L1"
      "newConnection user g (new_conn a) (new_sock a) fd local peer (L\<lparr>m_poller := ep\<rparr>) = Inr L1"
proof -
  from over obtain k' ep where k': "idle_connector k'" and r: "r = (if err \<noteq> 0 then Inr (k', L\<lparr>m_poller := ep\<rparr>)
      else bindR (newConnection user g (new_conn a) (new_sock a) (m_sockfd_connector k0)
        (setAddress name (new_InetAddress True 0 False)) (m_peer_connector k0) (L\<lparr>m_poller := ep\<rparr>)) (\<lambda>L. Inr (k', L)))"
    by (auto simp: attempt_over_def)
  show thesis
  proof (cases "err = 0")
    case True
    with r h made[OF k'] show thesis by (auto simp: bindR_eq_Inr)
  next
    case False
    with r h unconnected[of k' ep] k' show thesis by (simp add: connector_ok_def idle_connector_def)
  qed
qed

lemma start_connector_cases:
  assumes ok: "connector_ok (m_connector (event_loop.more L))" and h: "start_connector user g a L = Inr L'"
  obtains (unconnected) k ep where "connector_ok k" "L' = on_client (\<lambda>s. s\<lparr>m_connector := k\<rparr>) (L\<lparr>m_poller := ep\<rparr>)"
  | (made) k ep fd local peer L1 where "idle_connector k" "L' = on_client (\<lambda>s. s\<lparr>m_connector := k\<rparr>) L1"
      "newConnection user g (new_conn a) (new_sock a) fd local peer (L\<lparr>m_poller := ep\<rparr>) = Inr L1"
proof (cases "connect_result a")
  case (Some e)
  from start_connector_pending[OF Some h] ok unconnected show thesis by metis
next
  case None
  let ?cb = "\<lambda>fd local peer (k, L). bindR (newConnection user g (new_conn a) (new_sock a) fd local peer L) (\<lambda>L. Inr (k, L))"
  from None h have g: "g = m_tid L" and r: "bindR (handleWrite_connector (Some ?cb) g (so_error a) (sock_name a)
      (m_connector (event_loop.more L), L)) (\<lambda>(k, L). Inr (on_client (\<lambda>s. s\<lparr>m_connector := k\<rparr>) L)) = Inr L'"
    by (auto simp: start_connector_def with_connector_def start_Connector_def bindR_eq_Inr assertInLoopThread_eq_Inr)
  note over = handleWrite_connector_over[OF ok, of ?cb "so_error a" "sock_name a" L]
  have "bindR (handleWrite_connector (Some ?cb) (m_tid L) (so_error a) (sock_name a) (m_connector (event_loop.more L), L))
      (\<lambda>(k, L). Inr (on_client (\<lambda>s. s\<lparr>m_connector := k\<rparr>) L)) = Inr L'"
    using r unfolding g .
  from over this unconnected made show thesis by (rule attempt_over_cases)
qed

lemma connector_writable_start:
  assumes "connector_writable user g a L = Inr L'"
  shows "start_connector user g (a\<lparr>connect_result := None\<rparr>) L = Inr L'"
proof -
  have "g = m_tid L"
    using assms by (auto simp: connector_writable_def with_connector_def handleWrite_connector_def bindR_eq_Inr assertInLoopThread_eq_Inr)
  then show ?thesis
    using assms by (simp add: connector_writable_def start_connector_def with_connector_def start_Connector_def
        assertInLoopThread_def isInLoopThread_def)
qed

lemma client_inv_connector:
  assumes "client_inv L" and "\<not> m_connected (event_loop.more L)" and "connector_ok k"
  shows "client_inv (on_client (\<lambda>s. s\<lparr>m_connector := k\<rparr>) (L\<lparr>m_poller := ep\<rparr>))"
  using assms client_rest_connector[of "event_loop.more L" k]
  by (auto simp: client_inv_def retrying_def tq_inv_def entry_ok_def armed_def last_deadline_def last_clock_def
      ticking_def on_client_def)

text \<open>However an attempt ends, the client points to what it allocated.\<close>

lemma start_connector_rest:
  assumes rest: "client_rest (event_loop.more L)" "\<not> m_connected (event_loop.more L)" and a: "benign_attempt a"
    and h: "start_connector (scripted_user script) g a L = Inr L'"
  shows "client_rest (event_loop.more L') \<and> dom (client_conns (event_loop.more L')) \<subseteq> {m_connection (event_loop.more L')}"
proof -
  have "connector_ok (m_connector (event_loop.more L))" using rest(1) by (simp add: client_rest_def)
  from this h show ?thesis
  proof (cases rule: start_connector_cases)
    case (unconnected k ep)
    have "client_conns (event_loop.more L) = Map.empty" using rest by (simp add: client_rest_def)
    with unconnected client_rest_connector[OF rest(1), of k] rest(2) show ?thesis by simp
  next
    case (made k ep fd local peer L1)
    have "client_rest (event_loop.more (L\<lparr>m_poller := ep\<rparr>))" "\<not> m_connected (event_loop.more (L\<lparr>m_poller := ep\<rparr>))"
      using rest by simp_all
    from newConnection_rest[OF this _ _ made(3,1)] a made(2) show ?thesis by (simp add: benign_attempt_def Let_def)
  qed
qed

lemma start_connector_inv:
  assumes inv: "client_inv L" "\<not> m_connected (event_loop.more L)" and a: "benign_attempt a"
    and h: "start_connector (scripted_user script) g a L = Inr L'"
  shows "client_inv L'"
proof -
  have rest: "client_rest (event_loop.more L)" using inv(1) by (simp add: client_inv_def)
  then have "connector_ok (m_connector (event_loop.more L))" by (simp add: client_rest_def)
  from this h show ?thesis
  proof (cases rule: start_connector_cases)
    case (unconnected k ep)
    with client_inv_connector[OF inv] show ?thesis by simp
  next
    case (made k ep fd local peer L1)
    have "client_rest (event_loop.more (L\<lparr>m_poller := ep\<rparr>))" "\<not> m_connected (event_loop.more (L\<lparr>m_poller := ep\<rparr>))"
      using rest inv(2) by simp_all
    from newConnection_rest[OF this _ _ made(3,1)] a made(2) show ?thesis
      by (simp add: client_inv_def benign_attempt_def Let_def)
  qed
qed

lemma connector_writable_inv:
  assumes inv: "client_inv L" "\<not> m_connected (event_loop.more L)" and a: "benign_attempt a"
    and h: "connector_writable (scripted_user script) g a L = Inr L'"
  shows "client_inv L'"
  using start_connector_inv[OF inv _ connector_writable_start[OF h]] a by (simp add: benign_attempt_def)

section \<open>The retry timer\<close>

lemma client_exec_other: "u \<noteq> UserTask Retry \<Longrightarrow> client_exec user g a u L = Inr L"
  by (cases "(user, g, a, u, L)" rule: client_exec.cases) auto

lemma client_exec_pending:
  assumes h: "client_exec user g (a\<lparr>connect_result := Some e\<rparr>) u M = Inr M'"
  obtains "M' = M" | k ep where "M' = on_client (\<lambda>s. s\<lparr>m_connector := k\<rparr>) (M\<lparr>m_poller := ep\<rparr>)"
    "connector_ok (m_connector (event_loop.more M)) \<Longrightarrow> connector_ok k" "\<not> m_connected (event_loop.more M)"
proof (cases "u = UserTask Retry \<and> \<not> m_connected (event_loop.more M)")
  case True
  with h have "start_connector user g (a\<lparr>connect_result := Some e\<rparr>) M = Inr M'"
    by (simp add: retry_def assertInLoopThread_eq_Inr)
  from start_connector_pending[OF _ this, of e] True that(2) show thesis by auto
next
  case False
  with h client_exec_other[of u user g "a\<lparr>connect_result := Some e\<rparr>" M] have "M' = M"
    by (cases "u = UserTask Retry") (auto simp: retry_def assertInLoopThread_eq_Inr)
  then show thesis by (rule that(1))
qed

interpretation retries: quiet_client "client_exec user g (a\<lparr>connect_result := Some e\<rparr>)"
  "\<lambda>M. client_rest (event_loop.more M) \<and> m_connected (event_loop.more M) = b \<and> m_retryTimer (event_loop.more M) = t
    \<and> client_conns (event_loop.more M) = m"
proof
  fix u and M M' :: "'a client_loop"
  assume h: "client_exec user g (a\<lparr>connect_result := Some e\<rparr>) u M = Inr M'"
  then show "m_timers M' = m_timers M \<and> timer_heap M' = timer_heap M" by (cases rule: client_exec_pending) auto
  assume inv: "client_rest (event_loop.more M) \<and> m_connected (event_loop.more M) = b \<and> m_retryTimer (event_loop.more M) = t
    \<and> client_conns (event_loop.more M) = m"
  from h show "client_rest (event_loop.more M') \<and> m_connected (event_loop.more M') = b \<and> m_retryTimer (event_loop.more M') = t
    \<and> client_conns (event_loop.more M') = m"
  proof (cases rule: client_exec_pending)
    case (2 k ep)
    have "connector_ok k" using 2(2) inv by (simp add: client_rest_def)
    with 2 inv client_rest_connector[of "event_loop.more M" k] show ?thesis by simp
  qed (use inv in simp)
qed simp

lemma timers_due_inv:
  assumes inv: "client_inv L" and a: "connect_result a \<noteq> None"
    and h: "handleRead_timer (client_exec user (m_tid L) a) (m_tid L) (L\<lparr>clock_now := now\<rparr>) = Inr L'"
  shows "client_inv L' \<and> client_conns (event_loop.more L') = client_conns (event_loop.more L)"
proof -
  let ?L = "L\<lparr>clock_now := now\<rparr>" and ?t = "m_retryTimer (event_loop.more L)"
  from a obtain e where "a = a\<lparr>connect_result := Some e\<rparr>" by (metis attempt.surjective attempt.update_convs(1) not_Some_eq)
  then obtain e where e: "handleRead_timer (client_exec user (m_tid L) (a\<lparr>connect_result := Some e\<rparr>)) (m_tid L) ?L = Inr L'"
    using h by metis
  from retries.handleRead_timer_Q[OF this, of "m_connected (event_loop.more L)" ?t "client_conns (event_loop.more L)"] inv
  have 1: "client_rest (event_loop.more L')" "m_connected (event_loop.more L') = m_connected (event_loop.more L)"
    "m_retryTimer (event_loop.more L') = ?t" "client_conns (event_loop.more L') = client_conns (event_loop.more L)"
    by (simp_all add: client_inv_def)
  have "retrying L'" if "retrying L"
  proof -
    have tq: "tq_inv ?L" and tick: "ticking ?t (Some (UserTask Retry)) 3000000000 [] ?L"
      using that by (simp_all add: retrying_def tq_inv_def entry_ok_def ticking_def)
    have e': "handleRead_timer (client_exec user (m_tid L) (a\<lparr>connect_result := Some e\<rparr>)) (m_tid ?L) ?L = Inr L'"
      using e by simp
    from retries.handleRead_timer_ticking[OF tq e' tick] 1(3) show ?thesis by (simp add: retrying_def)
  qed
  with 1 inv show ?thesis by (auto simp: client_inv_def)
qed

section \<open>Steps\<close>

lemma client_next_cases:
  assumes h: "client_body script ClientRunNext L = Inr L'" and q: "m_pendingTasks L = t # ts"
  obtains "L' = L\<lparr>m_pendingTasks := ts\<rparr>" | u p where
    "with_client_conn p (run_net_task (client_call (scripted_user script) (m_tid L)) (m_tid L) u) (L\<lparr>m_pendingTasks := ts\<rparr>) = Inr L'"
proof (cases t)
  case (Closure u)
  show thesis
  proof (cases "task_target t")
    case None
    with h q Closure show thesis by (intro that(1)) simp
  next
    case (Some p)
    with h q Closure show thesis by (intro that(2)[of p u]) simp
  qed
qed (use h q in \<open>intro that(1), simp\<close>)+

lemma client_body_inv:
  assumes inv: "client_inv L" and ev: "benign_client_event ev" and h: "client_body script ev L = Inr L'"
  shows "client_inv L'"
proof -
  have rest: "client_rest (event_loop.more L)" using inv by (simp add: client_inv_def)
  have conn: "client_inv M'" if "with_client_conn p op M = Inr M'" "event_loop.more M = event_loop.more L"
    "\<And>c s'. conn_ok (holding p (event_loop.more L)) (c, M) \<Longrightarrow> op (c, M) = Inr s' \<Longrightarrow> conn_ok (holding p (event_loop.more L)) s'"
    for p op M M'
    using with_client_conn_keeps[of M p op M'] that rest by (simp add: client_inv_def)
  show ?thesis
  proof (cases ev)
    case (TimersDue now a)
    with h ev timers_due_inv[OF inv] show ?thesis by simp
  next
    case (ConnectorReady a)
    show ?thesis
    proof (cases "polling (m_channel_connector (m_connector (event_loop.more L)))")
      case True
      with rest have "\<not> m_connected (event_loop.more L)" by (auto simp: client_rest_def idle_connector_def)
      with True h ev ConnectorReady connector_writable_inv[OF inv] show ?thesis by simp
    qed (use h ConnectorReady inv in simp)
  next
    case (ClientConnReady p e)
    with h have "with_client_conn p (handle_conn_event (client_call (scripted_user script) (m_tid L)) (m_tid L) e) L = Inr L'"
      by simp
    from conn[OF this refl held.handle_conn_event_keeps] show ?thesis .
  next
    case (ClientConnCall g p a)
    with h have "with_client_conn p (plain_act g a) L = Inr L'" by simp
    from conn[OF this refl plain_act_keeps[OF holding_stream]] show ?thesis .
  next
    case ClientRunNext
    show ?thesis
    proof (cases "m_pendingTasks L")
      case Nil
      with h ClientRunNext inv show ?thesis by simp
    next
      case (Cons t ts)
      let ?L = "L\<lparr>m_pendingTasks := ts\<rparr>"
      from client_next_cases[OF h[unfolded ClientRunNext] Cons] consider "L' = ?L" | u p where
        "with_client_conn p (run_net_task (client_call (scripted_user script) (m_tid L)) (m_tid L) u) ?L = Inr L'" by metis
      then show ?thesis
      proof cases
        case 1
        with inv client_inv_cong[of ?L L] show ?thesis by simp
      next
        case (2 u p)
        have "event_loop.more ?L = event_loop.more L" by simp
        from conn[OF 2 this held_task_keeps] show ?thesis .
      qed
    qed
  qed
qed

section \<open>Other threads\<close>

text \<open>
  The client's connection may be held by other threads, too, which make calls on it part by
  part: the steps of \<open>Shared_Connections\<close> over the events of the client.
\<close>

definition client_lookup :: "addr \<Rightarrow> 'u client_loop \<Rightarrow> 'u client_cb tcp_connection option" where
  "client_lookup p L = client_conns (event_loop.more L) p"

definition client_shared_body :: "(conn_event \<Rightarrow> 'u \<Rightarrow> conn_act list) \<Rightarrow> client_event shared_step
    \<Rightarrow> ('u client_cb, 'u client) shared_run \<Rightarrow> ('u client_cb, 'u client) shared_run res" where
  "client_shared_body script = shared_body client_lookup with_client_conn (client_body script)"

definition client_shared :: "(conn_event \<Rightarrow> 'u \<Rightarrow> conn_act list) \<Rightarrow> client_event shared_step
    \<Rightarrow> ('u client_cb, 'u client) shared_run \<Rightarrow> ('u client_cb, 'u client) shared_run res" where
  "client_shared script = shared_exec client_lookup with_client_conn (client_body script) client_event_conn release_conn"

lemma with_client_conn_lives:
  assumes "client_rest (event_loop.more L)" and "with_client_conn p op L = Inr L'"
    and "client_conns (event_loop.more L) q \<noteq> None"
  shows "client_conns (event_loop.more L') q \<noteq> None"
proof -
  from assms(2) obtain c c' L1 where c: "client_conns (event_loop.more L) p = Some c"
    and L': "L' = on_client (\<lambda>s. s\<lparr>client_conns := (client_conns s)(p \<mapsto> c')\<rparr>) L1"
    by (auto simp: with_client_conn_def res_iffs split: option.splits)
  from client_rest_conn(4)[OF assms(1) c] assms(3) have "q = p" by (auto split: if_splits)
  then show ?thesis by (simp add: L')
qed

lemma client_body_lives:
  assumes inv: "client_inv L" and ev: "benign_client_event ev" and h: "client_body script ev L = Inr L'"
    and q: "client_conns (event_loop.more L) q \<noteq> None"
  shows "client_conns (event_loop.more L') q \<noteq> None"
proof -
  have rest: "client_rest (event_loop.more L)" using inv by (simp add: client_inv_def)
  obtain c where c: "client_conns (event_loop.more L) q = Some c" using q by blast
  show ?thesis
  proof (cases ev)
    case (TimersDue now a)
    with h have "handleRead_timer (client_exec (scripted_user script) (m_tid L) a) (m_tid L) (L\<lparr>clock_now := now\<rparr>) = Inr L'" by simp
    from timers_due_inv[OF inv _ this] ev TimersDue q show ?thesis by simp
  next
    case (ConnectorReady a)
    have "\<not> polling (m_channel_connector (m_connector (event_loop.more L)))"
      using client_rest_conn(3)[OF rest c] by (simp add: idle_connector_def)
    with h ConnectorReady q show ?thesis by simp
  next
    case (ClientConnReady p e)
    with h have "with_client_conn p (handle_conn_event (client_call (scripted_user script) (m_tid L)) (m_tid L) e) L = Inr L'"
      by simp
    from with_client_conn_lives[OF rest this q] show ?thesis .
  next
    case (ClientConnCall g p a)
    with h have "with_client_conn p (plain_act g a) L = Inr L'" by simp
    from with_client_conn_lives[OF rest this q] show ?thesis .
  next
    case ClientRunNext
    show ?thesis
    proof (cases "m_pendingTasks L")
      case Nil
      with h ClientRunNext q show ?thesis by simp
    next
      case (Cons t ts)
      let ?L = "L\<lparr>m_pendingTasks := ts\<rparr>"
      have M: "client_rest (event_loop.more ?L)" "client_conns (event_loop.more ?L) q \<noteq> None" using rest q by simp_all
      from client_next_cases[OF h[unfolded ClientRunNext] Cons] consider "L' = ?L" | u p where
        "with_client_conn p (run_net_task (client_call (scripted_user script) (m_tid L)) (m_tid L) u) ?L = Inr L'" by metis
      then show ?thesis
      proof cases
        case 1
        with q show ?thesis by simp
      next
        case (2 u p)
        from with_client_conn_lives[OF M(1) 2 M(2)] show ?thesis .
      qed
    qed
  qed
qed

lemma release_conn_elsewhere:
  assumes "client_inv L" and "release_conn p L = Inr L'" and "q \<noteq> p"
  shows "client_conns (event_loop.more L') q = client_conns (event_loop.more L) q"
proof -
  have "client_rest (event_loop.more L)" using assms(1) by (simp add: client_inv_def)
  then show ?thesis by (cases rule: release_conn_cases[of L p]) (use assms in auto)
qed

lemma client_advance_keeps:
  assumes inv: "client_inv L" and c: "client_conns (event_loop.more L) p = Some c"
    and ow: "\<not> overwrites pc c" and h: "with_client_conn p (\<lambda>s. Inr (snd (advance_call pc s))) L = Inr L'"
  shows "client_inv L'"
proof -
  let ?op = "\<lambda>s. if fst s = c then Inr (snd (advance_call pc s)) else Inl UseAfterFree"
  have rest: "client_rest (event_loop.more L)" using inv by (simp add: client_inv_def)
  have w: "with_client_conn p ?op L = Inr L'" using h c by (simp add: with_client_conn_def)
  have op: "conn_ok (holding p (event_loop.more L)) s'"
    if "conn_ok (holding p (event_loop.more L)) (c0, L)" "?op (c0, L) = Inr s'" for c0 s'
  proof -
    from that(2) have c0: "c0 = c" and s': "s' = snd (advance_call pc (c, L))" by (auto split: if_splits)
    have "conn_inv c" "benign (socket_of c)" using that(1) by (simp_all add: c0 conn_ok_def)
    from advance_call_unchanged[OF this ow] s' have "unchanged (c, L) s'" by (metis prod.collapse)
    with that(1) show ?thesis unfolding c0 by (rule unchanged_ok)
  qed
  have "client_rest (event_loop.more L') \<and> m_connected (event_loop.more L')"
    by (rule with_client_conn_keeps[OF rest w], rule op)
  then show ?thesis by (simp add: client_inv_def)
qed

interpretation shared_client: connection_heap client_lookup with_client_conn "client_body script" client_event_conn
  release_conn client_inv benign_client_event
proof
  fix L L' :: "'a client_loop" and ev p c pc
  assume inv: "client_inv L"
  show "client_inv L' \<and> (\<forall>p. client_lookup p L \<noteq> None \<longrightarrow> client_lookup p L' \<noteq> None)"
    if "benign_client_event ev" "client_body script ev L = Inr L'"
    using client_body_inv[OF inv that] client_body_lives[OF inv that] by (simp add: client_lookup_def)
  show "\<exists>L'. release_conn p L = Inr L' \<and> client_inv L'
      \<and> (\<forall>q. q \<noteq> p \<longrightarrow> client_lookup q L \<noteq> None \<longrightarrow> client_lookup q L' \<noteq> None)"
    using release_conn_ok[OF inv, of p] release_conn_elsewhere[OF inv] unfolding client_lookup_def by metis
  show "client_inv L' \<and> (\<forall>p. client_lookup p L \<noteq> None \<longrightarrow> client_lookup p L' \<noteq> None)"
    if "client_lookup p L = Some c" "\<not> overwrites pc c" "with_client_conn p (\<lambda>s. Inr (snd (advance_call pc s))) L = Inr L'"
  proof -
    have "client_rest (event_loop.more L)" using inv by (simp add: client_inv_def)
    from client_advance_keeps[OF inv that(1)[unfolded client_lookup_def] that(2,3)] with_client_conn_lives[OF this that(3)]
    show ?thesis unfolding client_lookup_def by blast
  qed
qed

lemma started_client_inv:
  assumes new: "new_TCPClient peer fd m d = Inr w" and tq: "tq_inv L" "armed L" and t: "t \<noteq> 0" "timer_heap L t = None"
    and a: "benign_attempt a" and w: "event_loop.more L = setConnectionCallback_cl cc (setMessageCallback_cl mc (setWriteCompleteCallback_cl wc w))"
    and start: "start_client (scripted_user script) (m_tid L) t a L = Inr L1"
  shows "client_inv L1 \<and> dom (client_conns (event_loop.more L1)) \<subseteq> {m_connection (event_loop.more L1)}"
proof -
  obtain L0 where conn: "start_connector (scripted_user script) (m_tid L) a (on_client (\<lambda>s. s\<lparr>m_retryTimer := t\<rparr>) L0) = Inr L1"
    and L0: "tq_inv L0" "armed L0" "m_tid L0 = m_tid L" "event_loop.more L0 = event_loop.more L"
      "set (m_timers L0) = insert (clock_now L + 3000000000, t) (set (m_timers L))"
      "timer_heap L0 = (timer_heap L)(t \<mapsto> new_Timer (Some (UserTask Retry)) (clock_now L + 3000000000) 3000000000)"
    using start_client_timer[OF tq(1) t start] tq(2) by metis
  from new have w': "idle_connector (m_connector w)" "\<not> m_connected w" "m_connection w = 0" "client_conns w = Map.empty"
    by (auto simp: new_TCPClient_def res_iffs dest: new_Connector_idle)
  note w = w[unfolded setConnectionCallback_cl_def setMessageCallback_cl_def setWriteCompleteCallback_cl_def]
  let ?L = "on_client (\<lambda>s. s\<lparr>m_retryTimer := t\<rparr>) L0"
  have "tq_inv ?L" "armed ?L" using L0(1,2)
    by (simp_all add: on_client_def tq_inv_def entry_ok_def armed_def last_deadline_def last_clock_def)
  moreover have "ticking t (Some (UserTask Retry)) 3000000000 [] ?L" by (simp add: ticking_def L0(5,6) new_Timer_def)
  moreover have "client_rest (event_loop.more ?L)"
    using w' t(1) by (simp add: L0(4) w client_rest_def connector_ok_def idle_connector_def)
  ultimately have "client_inv ?L" by (simp add: client_inv_def retrying_def)
  moreover have "\<not> m_connected (event_loop.more ?L)" using w' by (simp add: L0(4) w)
  ultimately show ?thesis using start_connector_inv[OF _ _ a conn] start_connector_rest[OF _ _ a conn]
    by (simp add: client_inv_def)
qed

text \<open>Until the client is connected, its timer is there.\<close>

lemma client_inv_timer:
  assumes "client_inv L" and "\<not> m_connected (event_loop.more L)"
  shows "armed L \<and> m_connection (event_loop.more L) = 0 \<and> client_conns (event_loop.more L) = Map.empty
    \<and> (\<exists>when x. (when, m_retryTimer (event_loop.more L)) \<in> set (m_timers L)
        \<and> timer_heap L (m_retryTimer (event_loop.more L)) = Some x
        \<and> m_callback x = Some (UserTask Retry) \<and> m_interval x = 3000000000 \<and> m_repeat x \<and> \<not> m_canceled x)"
proof -
  have r: "retrying L" and e: "m_connection (event_loop.more L) = 0" "client_conns (event_loop.more L) = Map.empty"
    using assms by (auto simp: client_inv_def client_rest_def)
  obtain x where "timer_heap L (m_retryTimer (event_loop.more L)) = Some x" "\<not> m_canceled x" using r by (rule retrying_timer)
  moreover from r obtain wh where "(wh, m_retryTimer (event_loop.more L)) \<in> set (m_timers L)"
    by (auto simp: retrying_def ticking_def)
  ultimately show ?thesis using r e by (auto simp: retrying_def ticking_def)
qed

section \<open>Property\<close>


text \<open>A client that waits for its first attempt.\<close>

abbreviation waiting_attempt :: attempt where
  "waiting_attempt \<equiv> \<lparr>connect_result = Some EINPROGRESS, so_error = 0, sock_name = any_address, new_conn = 16,
     new_sock = sample_socket []\<rparr>"

lemma sample_client_started:
  obtains w L0 k where "new_TCPClient any_address 7 None None = Inr w" "\<not> m_connected w" "m_connection w = 0"
    "event_loop.more (idle_loop w :: nat client_loop)
       = setConnectionCallback_cl None (setMessageCallback_cl None (setWriteCompleteCallback_cl None w))"
    "start_client (scripted_user (\<lambda>_ _. [])) 1 8 waiting_attempt (idle_loop w) = Inr (L0 :: nat client_loop)"
    "event_loop.more L0 = w\<lparr>m_retryTimer := 8, m_connector := k\<rparr>" "polling (m_channel_connector k)"
    "m_events (m_channel_connector k) = EPOLLOUT" "\<not> m_tied (m_channel_connector k)"
    "timer_heap L0 8 = Some (new_Timer (Some (UserTask Retry)) 3000000000 3000000000)"
    "m_tid L0 = 1" "m_pendingTasks L0 = []" "\<not> m_quit L0" "ep_size (m_poller L0) = 128"
proof -
  let ?user = "scripted_user (\<lambda>_ _. []) :: nat client_user"
  obtain w :: "nat client" where w: "new_TCPClient any_address 7 None None = Inr w" "idle_connector (m_connector w)"
    "\<not> m_connected w" "w = setConnectionCallback_cl None (setMessageCallback_cl None (setWriteCompleteCallback_cl None w))"
    "m_connection w = 0" "\<not> m_tied (m_channel_connector (m_connector w))"
    by (simp add: new_TCPClient_def new_Connector_def createSocket_def idle_connector_def new_Channel_def
        setConnectionCallback_cl_def setMessageCallback_cl_def setWriteCompleteCallback_cl_def)
  let ?L = "idle_loop w :: nat client_loop"
  have L: "event_loop.more ?L = w" "tq_inv ?L" "timer_heap ?L 8 = None" "m_tid ?L = 1" "clock_now ?L = 0"
    by (simp_all add: idle_loop_def tq_inv_def)
  have "\<exists>L0. start_client ?user 1 8 waiting_attempt ?L = Inr L0 \<and> m_tid L0 = 1 \<and> m_pendingTasks L0 = [] \<and> \<not> m_quit L0
      \<and> ep_size (m_poller L0) = 128 \<and> \<not> m_tied (m_channel_connector (m_connector (event_loop.more L0)))"
    using w(2,6) by (simp add: start_client_def runEvery_def nowAfter_def int64_def int64_ok_def addTimer_def runInLoop_def
        isInLoopThread_def insertTimer_def set_insert_def timerfdSet_def durationFromNow_def idle_loop_def
        start_connector_def with_connector_def start_Connector_def connector_channel_def on_channel_def
        channel_ops_set_events set_events_ok on_client_def idle_connector_def epoll_ctl_def)
  then obtain L0 where L0: "start_client ?user 1 8 waiting_attempt ?L = Inr L0" "m_tid L0 = 1" "m_pendingTasks L0 = []"
    "\<not> m_quit L0" "ep_size (m_poller L0) = 128" "\<not> m_tied (m_channel_connector (m_connector (event_loop.more L0)))" by blast
  have s: "start_client ?user (m_tid ?L) 8 waiting_attempt ?L = Inr L0" using L0(1) L(4) by simp
  have "idle_connector (m_connector (event_loop.more ?L))" "(8 :: nat) \<noteq> 0" "connect_result waiting_attempt = Some EINPROGRESS"
    using w(2) L(1) by simp_all
  then obtain k where k0: "event_loop.more L0 = (event_loop.more ?L)\<lparr>m_retryTimer := 8, m_connector := k\<rparr>"
    "polling (m_channel_connector k)" "m_events (m_channel_connector k) = EPOLLOUT"
    "timer_heap L0 = (timer_heap ?L)(8 \<mapsto> new_Timer (Some (UserTask Retry)) (clock_now ?L + 3000000000) 3000000000)"
    by (rule start_client_ok[OF _ L(2) _ L(3) _ s]) blast
  then have k: "event_loop.more L0 = w\<lparr>m_retryTimer := 8, m_connector := k\<rparr>" "polling (m_channel_connector k)"
    "m_events (m_channel_connector k) = EPOLLOUT"
    "timer_heap L0 8 = Some (new_Timer (Some (UserTask Retry)) 3000000000 3000000000)"
    using L(1,5) by simp_all
  have "event_loop.more ?L = setConnectionCallback_cl None (setMessageCallback_cl None (setWriteCompleteCallback_cl None w))"
    using L(1) w(4) by simp
  then show thesis by (rule that[OF w(1,3,5) _ L0(1) k(1-3) _ k(4) L0(2-5)]) (use L0(6) k(1) in simp)
qed


end
