(* ===== verification/Server_Loop.thy ===== *)
theory Server_Loop
  imports Tcp_Server
begin

text \<open>
  A \<^verbatim>\<open>TCPServerSingle\<close> on its \<^verbatim>\<open>EventLoop::loop\<close>: the channels of the acceptor, the
  connections, the timers and the wakeup descriptor, and the closures of the connections, as
  the client of the loop. That the loop's contract holds for them rests on one fact per
  operation of \<^verbatim>\<open>TCPConnection\<close>: it touches the task queue only by \<^verbatim>\<open>queueInLoop\<close>.
\<close>

section \<open>What operations on connections do to the task queue\<close>

text \<open>\<open>appends L m\<close>: the operation with the result \<open>m\<close>, started with the loop \<open>L\<close>, only queues.\<close>

definition appends :: "('u, 'w) event_loop_scheme \<Rightarrow> ('c \<times> ('u, 'w) event_loop_scheme) res \<Rightarrow> bool" where
  "appends L m \<longleftrightarrow> (\<forall>c' L'. m = Inr (c', L') \<longrightarrow> queues L L')"

lemma appendsD: "appends L m \<Longrightarrow> m = Inr (c', L') \<Longrightarrow> queues L L'"
  by (simp add: appends_def)

lemma queues_same:
  "m_pendingTasks L' = m_pendingTasks L \<Longrightarrow> m_tid L' = m_tid L \<Longrightarrow> wakeup_count L' = wakeup_count L \<Longrightarrow> queues L L'"
  by (simp add: queues_def)

lemma appends_Inr: "queues L L' \<Longrightarrow> appends L (Inr (c, L'))"
  by (simp add: appends_def)

lemma appends_Inl: "appends L (Inl e)"
  by (simp add: appends_def)

lemma appends_bind:
  assumes "appends L m" and "\<And>c L'. queues L L' \<Longrightarrow> appends L' (k (c, L'))"
  shows "appends L (bindR m k)"
  using assms unfolding appends_def by (auto simp: bindR_eq_Inr intro: queues_trans)

lemma appends_value: "(\<And>x. m = Inr x \<Longrightarrow> appends L (k x)) \<Longrightarrow> appends L (bindR m k)"
  by (auto simp: appends_def bindR_eq_Inr)

lemma appends_assert: "appends L m \<Longrightarrow> appends L (assertR b msg m)"
  by (simp add: appends_def assertR_eq_Inr)

lemma appends_inLoop: "appends L m \<Longrightarrow> appends L (assertInLoopThread t g m)"
  by (simp add: appends_def assertInLoopThread_eq_Inr)

lemma appends_if: "(b \<Longrightarrow> appends L m) \<Longrightarrow> (\<not> b \<Longrightarrow> appends L m') \<Longrightarrow> appends L (if b then m else m')"
  by simp

lemma appends_start: "queues L L' \<Longrightarrow> appends L' m \<Longrightarrow> appends L m"
  by (auto simp: appends_def intro: queues_trans)

lemmas appends_intros = appends_Inr appends_Inl appends_assert appends_inLoop appends_if

lemma conn_channel_appends: "appends L (conn_channel op g (c, L))"
  by (auto simp: appends_def conn_channel_def on_channel_eq_Inr bindR_eq_Inr intro: queues_same)

lemma queue_callback_queues: "queues L (queue_callback mk cb L)"
  by (simp add: queue_callback_def queues_queueInLoop split: option.split)

lemma conn_runInLoop_appends:
  "appends L (body (c, L)) \<Longrightarrow> appends L (conn_runInLoop g t body (c, L))"
  by (auto simp: conn_runInLoop_def intro!: appends_intros queues_queueInLoop)

lemma send_rest_appends: "appends L (send_rest g rest (c, L))"
  unfolding send_rest_def Let_def split
  by (rule appends_value, rule appends_start[OF _ conn_channel_appends])
    (simp add: queue_callback_queues)

lemma sendInLoop_appends: "appends L (sendInLoop g d (c, L))"
proof -
  have "appends L (bindR m k)" if "\<And>c' L' n r f. m = Inr (c', L', n, r, f) \<Longrightarrow> queues L L' \<and> appends L' (k (c', L', n, r, f))"
    for m and k :: "_ \<Rightarrow> ('a tcp_connection \<times> ('a net_task, 'b) event_loop_scheme) res"
    using that by (auto simp: appends_def bindR_eq_Inr intro: queues_trans)
  then show ?thesis
    unfolding sendInLoop_def split
    by (auto intro!: appends_intros send_rest_appends simp: assertR_eq_Inr queue_callback_queues Let_def
        split: if_splits prod.splits write_result.splits)
qed

lemma send_appends: "appends L (send g d (c, L))"
  by (auto simp: send_def intro!: appends_intros conn_runInLoop_appends sendInLoop_appends)

lemma shutdownInLoop_appends: "appends L (shutdownInLoop g (c, L))"
  by (auto simp: shutdownInLoop_def intro!: appends_intros)

lemma shutdown_appends: "appends L (shutdown g (c, L))"
  by (auto simp: shutdown_def shutdown_exchange_def stateAtomicGetAndSet_def
      intro!: appends_intros conn_runInLoop_appends shutdownInLoop_appends)

lemma forceClose_queues: "queues L (snd (forceClose (c, L)))"
  by (simp add: forceClose_def forceClose_exchange_def stateAtomicGetAndSet_def queues_queueInLoop)

lemma interest_appends:
  "appends L (stopReadInLoop g (c, L))" "appends L (startReadInLoop g (c, L))"
  by (auto simp: stopReadInLoop_def startReadInLoop_def intro!: appends_intros conn_channel_appends)

lemma stopRead_startRead_appends:
  "appends L (stopRead g (c, L))" "appends L (startRead g (c, L))"
  by (auto simp: stopRead_def startRead_def intro!: conn_runInLoop_appends interest_appends)

lemma plain_act_appends: "appends L (plain_act g a (c, L))"
  by (cases a) (use forceClose_queues[of L c] in \<open>auto simp: appends_def dest: appendsD[OF send_appends]
      appendsD[OF shutdown_appends] appendsD[OF stopRead_startRead_appends(1)] appendsD[OF stopRead_startRead_appends(2)]\<close>)

lemma handleWrite_conn_appends: "appends L (handleWrite_conn g (c, L))"
proof -
  have drained: "appends L (bindR (conn_channel disableWrite g (c, L)) (\<lambda>(c, L).
      bindR (if m_state c = kDisconnecting then shutdownInLoop g (c, L) else Inr (c, L)) (\<lambda>(c, L).
      Inr (c, queue_callback (\<lambda>u. WriteCompleteTask u (self c)) (m_writeCompleteCallback c) L))))" for c
    by (intro appends_bind conn_channel_appends) (auto intro!: appends_bind appends_intros shutdownInLoop_appends queue_callback_queues)
  show ?thesis
    unfolding handleWrite_conn_def split
    by (auto intro!: appends_intros appends_value drained simp: Let_def split: prod.splits write_result.splits)
qed

text \<open>What the callbacks do is up to the client: they must queue, too.\<close>

locale queueing_client =
  fixes call :: "('u, 'w) conn_call"
  assumes call_appends: "appends L (call ev u (c, L))"
begin

lemma call_conn_appends: "appends L (call_conn call ev cb (c, L))"
  by (auto simp: call_conn_def intro!: appends_intros call_appends split: option.split)

lemma handleClose_appends: "appends L (handleClose call g (c, L))"
proof -
  have "appends L (bindR (conn_channel disableAll g (c, L)) (\<lambda>(c, L). call_conn call OnClose (m_closeCallback_conn c) (c, L)))" for c
    by (intro appends_bind conn_channel_appends) (simp add: call_conn_appends)
  then show ?thesis by (auto simp: handleClose_def intro!: appends_intros)
qed

lemma forceCloseInLoop_appends: "appends L (forceCloseInLoop call g (c, L))"
  by (auto simp: forceCloseInLoop_def intro!: appends_intros handleClose_appends)

lemma handleRead_conn_appends: "appends L (handleRead_conn call g (c, L))"
  unfolding handleRead_conn_def split
  by (auto intro!: appends_intros appends_value call_conn_appends handleClose_appends
      simp: Let_def handleError_def split: prod.splits)

lemma handle_conn_event_appends: "appends L (handle_conn_event call g ev (c, L))"
proof -
  let ?c = "c\<lparr>m_channel := setRevents ev (m_channel c)\<rparr>"
  have "queues L (snd s')" if h: "handle_conn_event call g ev (c, L) = Inr s'" for s'
  proof (rule handleEvents_keeps[where P = "\<lambda>s. queues L (snd s)"])
    show "handleEvents (m_tid L) g True (\<lambda>(c, L). m_channel c) (conn_callbacks call g) (?c, L) = Inr s'"
      using h by (simp add: handle_conn_event_def)
    show "queues L (snd (?c, L))" by simp
    fix f s s'
    assume "f \<in> {h. Some h \<in> {m_closeCallback (conn_callbacks call g), m_errorCallback (conn_callbacks call g),
        m_readCallback (conn_callbacks call g), m_writeCallback (conn_callbacks call g)}}"
      and p: "queues L (snd s)" "f s = Inr s'"
    then consider "f = handleClose call g" | "f = (\<lambda>s. Inr (handleError s))" | "f = handleRead_conn call g"
      | "f = handleWrite_conn g"
      by (auto simp: conn_callbacks_def)
    moreover obtain c1 L1 where s: "s = (c1, L1)" by fastforce
    ultimately have "appends L1 (f (c1, L1))"
      by cases (auto intro: handleClose_appends handleRead_conn_appends handleWrite_conn_appends appends_Inr simp: handleError_def)
    then have "queues (snd s) (snd s')" using p(2) by (cases s') (simp add: s appends_def)
    with p(1) show "queues L (snd s')" by (rule queues_trans)
  qed
  then show ?thesis by (auto simp: appends_def)
qed

lemma run_net_task_appends: "appends L (run_net_task call g t (c, L))"
  by (cases t) (auto intro!: appends_intros sendInLoop_appends shutdownInLoop_appends forceCloseInLoop_appends
      interest_appends call_appends)

end

section \<open>A server on its loop\<close>

text \<open>
  The channels a server's loop polls. The event of the acceptor carries what \<^verbatim>\<open>accept4\<close> will
  return, with the address of the new connection and its socket. Closures of timers are the
  users' and do not touch the server.
\<close>

datatype server_channel =
    TimerChannel
  | WakeupChannel
  | AcceptChannel "int + int \<times> inet_address" addr socket
  | ConnChannel addr

fun server_mark :: "server_channel \<Rightarrow> 32 word \<Rightarrow> 'u server_loop \<Rightarrow> 'u server_loop" where
  "server_mark TimerChannel ev L = L\<lparr>m_timerChannel := setRevents ev (m_timerChannel L)\<rparr>"
| "server_mark WakeupChannel ev L = L\<lparr>m_wakeupChannel := setRevents ev (m_wakeupChannel L)\<rparr>"
| "server_mark (AcceptChannel r p sock) ev L = on_server (\<lambda>s. s\<lparr>m_acceptor := (m_acceptor s)
     \<lparr>m_acceptChannel := setRevents ev (m_acceptChannel (m_acceptor s))\<rparr>\<rparr>) L"
| "server_mark (ConnChannel p) ev L =
     (case conn_heap (event_loop.more L) p of
        None \<Rightarrow> L
      | Some c \<Rightarrow> on_server (\<lambda>s. s\<lparr>conn_heap := (conn_heap s)(p \<mapsto> c\<lparr>m_channel := setRevents ev (m_channel c)\<rparr>)\<rparr>) L)"

fun server_handle :: "(conn_event \<Rightarrow> 'u \<Rightarrow> conn_act list) \<Rightarrow> server_channel \<Rightarrow> 'u server_loop \<Rightarrow> 'u server_loop res" where
  "server_handle script TimerChannel L =
     handleEvents (m_tid L) (m_tid L) True m_timerChannel (reads (handleRead_timer (\<lambda>_. Inr) (m_tid L))) L"
| "server_handle script WakeupChannel L =
     handleEvents (m_tid L) (m_tid L) True m_wakeupChannel (reads (handleRead_wakeup (m_tid L))) L"
| "server_handle script (AcceptChannel r p sock) L =
     (if conn_heap (event_loop.more L) p \<noteq> None \<or> referenced p L then Inr L
      else bindR (handleEvents (m_tid L) (m_tid L) True (\<lambda>L. m_acceptChannel (m_acceptor (event_loop.more L)))
             (reads (\<lambda>L. handleRead_acceptor (Some (newConnetction (scripted_user script) (m_tid L) p sock))
                (m_acceptor (event_loop.more L)) r L)) L) (release p))"
| "server_handle script (ConnChannel p) L =
     bindR (with_conn p (\<lambda>(c, L). handle_conn_event (server_call (scripted_user script) (m_tid L)) (m_tid L)
        (m_revents (m_channel c)) (c, L)) L) (release p)"

definition server_run :: "(conn_event \<Rightarrow> 'u \<Rightarrow> conn_act list) \<Rightarrow> 'u server_cb net_task task \<Rightarrow> 'u server_loop \<Rightarrow> 'u server_loop res" where
  "server_run script t L =
     (case (t, task_target t) of
        (Closure u, Some p) \<Rightarrow> with_conn p (\<lambda>(c, L). run_net_task (server_call (scripted_user script) (m_tid L)) (m_tid L) u (c, L)) L
      | _ \<Rightarrow> run_task (\<lambda>_. Inr) t L)"

text \<open>A closure that is destroyed drops its reference.\<close>

definition server_destroy :: "'u server_cb net_task task \<Rightarrow> 'u server_loop \<Rightarrow> 'u server_loop res" where
  "server_destroy t L = (case task_target t of Some p \<Rightarrow> if holds_reference t then release p L else Inr L | None \<Rightarrow> Inr L)"

section \<open>The loop's contract\<close>

lemma run_all_appends:
  assumes "\<And>f c L. f \<in> set fs \<Longrightarrow> appends L (f (c, L))"
  shows "appends L (run_all fs (c, L))"
  using assms
proof (induction fs arbitrary: c L)
  case (Cons f fs)
  then show ?case by (auto intro: appends_bind)
qed (simp add: appends_Inr)

lemma scripted_user_appends: "appends L (scripted_user script ev u (c, L))"
  unfolding scripted_user_def split by (rule run_all_appends) (auto intro: plain_act_appends)

lemma user_conn_appends: "appends L (user_conn (scripted_user script) ev cb (c, L))"
  by (auto simp: user_conn_def intro: scripted_user_appends appends_Inr split: option.split)

lemma queues_on_server: "queues L (on_server f L)"
  by (rule queues_same) (simp_all add: on_server_def)

interpretation served_queues: queueing_client "server_call (scripted_user script) g"
proof
  fix L :: "'a server_loop" and ev u c
  show "appends L (server_call (scripted_user script) g ev u (c, L))"
  proof (cases u)
    case ServerClose
    have "appends L (closeConnection (scripted_user script) g (c, L))"
      unfolding closeConnection_def split Let_def
      by (rule appends_inLoop[OF appends_start[OF queues_on_server user_conn_appends]])
    with ServerClose show ?thesis by (simp add: appends_Inr)
  next
    case (UserCb v)
    then show ?thesis by (simp add: scripted_user_appends)
  qed
qed

lemma with_conn_queues:
  assumes "\<And>c. appends L (op (c, L))" and "with_conn p op L = Inr L'"
  shows "queues L L'"
proof -
  from assms(2) obtain c c' L1 where o: "op (c, L) = Inr (c', L1)"
    and L': "L' = on_server (\<lambda>s. s\<lparr>conn_heap := (conn_heap s)(p \<mapsto> c')\<rparr>) L1"
    by (auto simp: with_conn_def res_iffs split: option.splits)
  from queues_trans[OF appendsD[OF assms(1) o] queues_on_server] show ?thesis unfolding L' .
qed

lemma release_queues: "release p L = Inr L' \<Longrightarrow> queues L L'"
  by (auto simp: release_def bindR_eq_Inr intro: queues_on_server split: if_splits option.splits)

interpretation idle_timers: timer_frame "\<lambda>_. Inr" "\<lambda>M. m_pendingTasks M = ts \<and> m_tid M = g \<and> wakeup_count M = n
    \<and> event_loop.more M = w"
  by unfold_locales auto

lemma timers_only:
  assumes "handleRead_timer (\<lambda>_. Inr) g L = Inr L'"
  shows "m_pendingTasks L' = m_pendingTasks L \<and> m_tid L' = m_tid L \<and> wakeup_count L' = wakeup_count L
    \<and> event_loop.more L' = event_loop.more L"
  using idle_timers.handleRead_timer_Q[OF assms, of "m_pendingTasks L" "m_tid L" "wakeup_count L" "event_loop.more L"] by simp

lemma timer_task_only:
  assumes h: "run_task (\<lambda>_. Inr) t L = Inr L'"
  shows "m_pendingTasks L' = m_pendingTasks L \<and> m_tid L' = m_tid L \<and> wakeup_count L' = wakeup_count L
    \<and> event_loop.more L' = event_loop.more L"
proof (cases t)
  case (TimerInsert e)
  with h timerfdSet_frame[of "fst e" "L\<lparr>m_timers := set_insert e (m_timers L)\<rparr>" L'] show ?thesis
    by (auto simp: insertTimer_def assertR_eq_Inr Let_def split: if_splits)
next
  case (TimerErase p)
  with h have "eraseTimer p L = Inr L'" by simp
  then show ?thesis by (auto simp: eraseTimer_def bindR_eq_Inr Let_def delete_timer_def)
qed (use h in simp)

lemma newConnetction_queues:
  assumes h: "newConnetction (scripted_user script) g p sock fd local peer L = Inr L'"
  shows "queues L L'"
proof -
  let ?L = "on_server (enlist p) L" and ?w = "event_loop.more L"
  let ?m = "map_option UserCb (m_messageCallback_srv ?w)" and ?wc = "map_option UserCb (m_writeCompleteCallback_srv ?w)"
  have g: "g = m_tid L" using h by (simp add: newConnetction_def assertInLoopThread_eq_Inr)
  obtain c ep where e: "establish p fd local peer sock ?m ?wc None 0 ServerClose ?L = Inr (c, ?L\<lparr>m_poller := ep\<rparr>)"
    using establish_ok[of p fd local peer sock ?m ?wc None 0 ServerClose ?L] by metis
  from h e g obtain c' L1 where
    u: "user_conn (scripted_user script) OnConnection (m_connectionCallback ?w) (c, ?L\<lparr>m_poller := ep\<rparr>) = Inr (c', L1)"
    and L': "L' = on_server (\<lambda>s. s\<lparr>conn_heap := (conn_heap s)(p \<mapsto> c')\<rparr>) L1"
    by (auto simp: newConnetction_eq bindR_eq_Inr)
  have "queues L (?L\<lparr>m_poller := ep\<rparr>)" by (rule queues_same) (simp_all add: on_server_def)
  from queues_trans[OF queues_trans[OF this appendsD[OF user_conn_appends u]] queues_on_server] show ?thesis unfolding L' .
qed

text \<open>What a channel's handler does before the reference it held is dropped.\<close>

lemma server_handle_cases:
  assumes h: "server_handle script ch L = Inr L'"
  obtains (timers) "m_pendingTasks L' = m_pendingTasks L" "m_tid L' = m_tid L" "event_loop.more L' = event_loop.more L"
  | (accepted) r p sock fd peer L1 where "ch = AcceptChannel r p sock" "conn_heap (event_loop.more L) p = None"
      "newConnetction (scripted_user script) (m_tid L) p sock fd (m_localAddress (m_acceptor (event_loop.more L))) peer L = Inr L1"
      "release p L1 = Inr L'"
  | (refused) p where "release p L = Inr L'"
  | (ready) p L1 where "ch = ConnChannel p" "release p L1 = Inr L'"
      "with_conn p (\<lambda>(c, L). handle_conn_event (server_call (scripted_user script) (m_tid L)) (m_tid L)
        (m_revents (m_channel c)) (c, L)) L = Inr L1"
proof (cases ch)
  case TimerChannel
  from h TimerChannel have "handleEvents (m_tid L) (m_tid L) True m_timerChannel (reads (handleRead_timer (\<lambda>_. Inr) (m_tid L))) L = Inr L'"
    by simp
  then show thesis by (cases rule: reads_cases) (auto intro: timers dest: timers_only)
next
  case WakeupChannel
  from h WakeupChannel have "handleEvents (m_tid L) (m_tid L) True m_wakeupChannel (reads (handleRead_wakeup (m_tid L))) L = Inr L'"
    by simp
  then show thesis by (cases rule: reads_cases) (auto intro: timers simp: handleRead_wakeup_def)
next
  case (AcceptChannel r p sock)
  show thesis
  proof (cases "conn_heap (event_loop.more L) p \<noteq> None \<or> referenced p L")
    case True
    with h AcceptChannel show thesis by (intro timers) auto
  next
    case False
    with h AcceptChannel obtain L1 where e: "handleEvents (m_tid L) (m_tid L) True (\<lambda>L. m_acceptChannel (m_acceptor (event_loop.more L)))
        (reads (\<lambda>L. handleRead_acceptor (Some (newConnetction (scripted_user script) (m_tid L) p sock))
          (m_acceptor (event_loop.more L)) r L)) L = Inr L1" and rel: "release p L1 = Inr L'"
      by (auto simp: bindR_eq_Inr)
    from e show thesis
    proof (cases rule: reads_cases)
      case 1
      with rel show thesis by (intro refused) simp
    next
      case 2
      then show thesis using rel False AcceptChannel by (cases rule: accepted_cases) (auto intro: refused accepted)
    qed
  qed
next
  case (ConnChannel p)
  with h show thesis by (auto simp: bindR_eq_Inr intro: ready)
qed

lemma conn_ready_appends:
  "appends L ((\<lambda>(c, L). handle_conn_event (server_call (scripted_user script) (m_tid L)) (m_tid L) (m_revents (m_channel c)) (c, L)) (c, L))"
  by (simp add: served_queues.handle_conn_event_appends)

lemma conn_task_appends:
  "appends L ((\<lambda>(c, L). run_net_task (server_call (scripted_user script) (m_tid L)) (m_tid L) u (c, L)) (c, L))"
  by (simp add: served_queues.run_net_task_appends)

lemma server_handle_appends:
  assumes "server_handle script ch L = Inr L'"
  shows "only_appends L L'"
  using assms
proof (cases rule: server_handle_cases)
  case timers
  then show ?thesis by (simp add: only_appends_def)
next
  case (accepted r p sock fd peer L1)
  from queues_trans[OF newConnetction_queues[OF accepted(3)] release_queues[OF accepted(4)]] show ?thesis
    by (rule queues_only_appends)
next
  case (refused p)
  from release_queues[OF this] show ?thesis by (rule queues_only_appends)
next
  case (ready p L1)
  from queues_trans[OF with_conn_queues[OF conn_ready_appends ready(3)] release_queues[OF ready(2)]] show ?thesis
    by (rule queues_only_appends)
qed

lemma server_run_cases:
  assumes h: "server_run script t L = Inr L'"
  obtains (other) "m_pendingTasks L' = m_pendingTasks L" "m_tid L' = m_tid L" "wakeup_count L' = wakeup_count L"
      "event_loop.more L' = event_loop.more L"
  | (task) u p where "t = Closure u" "task_target t = Some p"
      "with_conn p (\<lambda>(c, L). run_net_task (server_call (scripted_user script) (m_tid L)) (m_tid L) u (c, L)) L = Inr L'"
proof (cases "\<exists>u p. t = Closure u \<and> task_target t = Some p")
  case True
  with h task show thesis by (auto simp: server_run_def)
next
  case False
  then have "run_task (\<lambda>_. Inr) t L = Inr L'"
    using h by (cases t; cases "task_target t") (simp_all add: server_run_def)
  with timer_task_only other show thesis by blast
qed

lemma server_mark_frame:
  "m_pendingTasks (server_mark ch ev L) = m_pendingTasks L" "m_tid (server_mark ch ev L) = m_tid L"
  by (cases ch; simp split: option.split)+

interpretation server_on_loop: loop_client server_mark "server_handle script" "server_run script" server_destroy
proof
  fix t and L L' :: "'a server_loop" and ch ev
  show "queues L L'" if "server_run script t L = Inr L'"
    using that
  proof (cases rule: server_run_cases)
    case (task u p)
    show ?thesis by (rule with_conn_queues[OF conn_task_appends task(3)])
  qed (simp add: queues_same)
  show "queues L L'" if "server_destroy t L = Inr L'"
    using that by (auto simp: server_destroy_def intro: release_queues split: option.splits if_splits)
  show "only_appends L L'" if "server_handle script ch L = Inr L'" using that by (rule server_handle_appends)
  show "m_pendingTasks (server_mark ch ev L) = m_pendingTasks L" "m_tid (server_mark ch ev L) = m_tid L"
    by (rule server_mark_frame)+
qed

section \<open>No connection is lost or leaked\<close>

text \<open>
  \<open>held ts L p\<close>: something refers to the connection at \<open>p\<close>, the server's set, a pending
  closure, or a closure in \<open>ts\<close>, the tasks the loop has taken and not destroyed yet.
\<close>

definition held :: "'u server_cb net_task task list \<Rightarrow> 'u server_loop \<Rightarrow> addr \<Rightarrow> bool" where
  "held ts L p \<longleftrightarrow> referenced p L \<or> (\<exists>t \<in> set ts. holds_reference t \<and> task_target t = Some p)"

definition held_inv :: "'u server_cb net_task task list \<Rightarrow> 'u server_loop \<Rightarrow> bool" where
  "held_inv ts L \<longleftrightarrow> server_inv (event_loop.more L) \<and> (\<forall>p \<in> dom (conn_heap (event_loop.more L)). held ts L p)"

lemma held_inv_same:
  "held_inv ts L \<Longrightarrow> m_pendingTasks L' = m_pendingTasks L \<Longrightarrow> event_loop.more L' = event_loop.more L \<Longrightarrow> held_inv ts L'"
  by (simp add: held_inv_def held_def referenced_def)

text \<open>An operation on the connection at \<open>p\<close> leaves the others held.\<close>

lemma held_elsewhere:
  assumes inv: "held_inv ts L" and q: "queues L L'" and dom: "dom (conn_heap (event_loop.more L')) \<subseteq> insert p (dom (conn_heap (event_loop.more L)))"
    and set: "set (m_connectionSet (event_loop.more L')) - {p} = set (m_connectionSet (event_loop.more L)) - {p}"
    and r: "r \<in> dom (conn_heap (event_loop.more L'))" "r \<noteq> p"
  shows "held ts L' r"
proof -
  have "r \<in> dom (conn_heap (event_loop.more L))" using dom r by blast
  then have "held ts L r" using inv by (simp add: held_inv_def)
  moreover have "set (m_pendingTasks L) \<subseteq> set (m_pendingTasks L')" using q by (auto simp: queues_def)
  moreover have "r \<in> set (m_connectionSet (event_loop.more L)) \<Longrightarrow> r \<in> set (m_connectionSet (event_loop.more L'))"
    using set r(2) by blast
  ultimately show ?thesis unfolding held_def referenced_def by blast
qed

text \<open>Releasing it, too.\<close>

lemma release_held:
  assumes inv: "server_inv (event_loop.more L)" and h: "release p L = Inr L'"
    and others: "\<And>r. r \<in> dom (conn_heap (event_loop.more L)) \<Longrightarrow> r \<noteq> p \<Longrightarrow> held ts L r"
  shows "held_inv ts L'"
proof (cases "referenced p L \<or> conn_heap (event_loop.more L) p = None")
  case True
  with h have L': "L' = L" by (cases "referenced p L") (simp_all add: release_def)
  have "held ts L r" if "r \<in> dom (conn_heap (event_loop.more L))" for r
    using True others[OF that] that by (cases "r = p") (auto simp: held_def)
  with inv show ?thesis by (simp add: L' held_inv_def)
next
  case False
  then obtain c where "conn_heap (event_loop.more L) p = Some c" by blast
  with h False have L': "L' = on_server (\<lambda>s. s\<lparr>conn_heap := (conn_heap s)(p := None)\<rparr>) L"
    by (auto simp: release_def bindR_eq_Inr)
  have "held ts L' r" if "r \<in> dom (conn_heap (event_loop.more L'))" for r
  proof -
    from that have "r \<in> dom (conn_heap (event_loop.more L))" "r \<noteq> p" by (auto simp: L' split: if_splits)
    from others[OF this] show ?thesis by (simp add: held_def referenced_def L')
  qed
  moreover have "server_inv (event_loop.more L')" using release_ok[OF inv, of p] h by auto
  ultimately show ?thesis by (simp add: held_inv_def)
qed

lemma server_mark_held:
  assumes "held_inv ts L"
  shows "held_inv ts (server_mark ch ev L)"
proof (cases "\<exists>p c. ch = ConnChannel p \<and> conn_heap (event_loop.more L) p = Some c")
  case True
  then obtain p c where ch: "ch = ConnChannel p" and c: "conn_heap (event_loop.more L) p = Some c" by blast
  let ?c = "c\<lparr>m_channel := setRevents ev (m_channel c)\<rparr>"
  have "conn_served (event_loop.more L) p ?c = conn_served (event_loop.more L) p c"
    by (simp add: conn_served_def conn_inv_def setRevents_def isReading_def isWriting_def isDisconnected_def)
  moreover have si: "server_inv (event_loop.more L)" using assms by (simp add: held_inv_def)
  ultimately have "conn_served (event_loop.more L) p ?c" using c by (simp add: server_inv_def)
  with si c have "server_inv (event_loop.more (server_mark ch ev L))"
    by (auto simp: ch server_inv_def conn_served_def split: if_splits)
  moreover have "held ts (server_mark ch ev L) = held ts L" by (simp add: ch c held_def referenced_def fun_eq_iff)
  moreover have "dom (conn_heap (event_loop.more (server_mark ch ev L))) = dom (conn_heap (event_loop.more L))"
    using c by (auto simp: ch)
  ultimately show ?thesis using assms by (simp add: held_inv_def)
next
  case False
  have "conn_heap (event_loop.more (server_mark ch ev L)) = conn_heap (event_loop.more L)
      \<and> m_connectionSet (event_loop.more (server_mark ch ev L)) = m_connectionSet (event_loop.more L)
      \<and> m_pendingTasks (server_mark ch ev L) = m_pendingTasks L"
  proof (cases ch)
    case (ConnChannel p)
    with False have "conn_heap (event_loop.more L) p = None" by (cases "conn_heap (event_loop.more L) p") auto
    with ConnChannel show ?thesis by simp
  qed simp_all
  with assms show ?thesis by (simp add: held_inv_def held_def referenced_def server_inv_def conn_served_def)
qed

text \<open>\<^verbatim>\<open>accept4\<close> yields sockets that lose no data.\<close>

fun benign_channel :: "server_channel \<Rightarrow> bool" where
  "benign_channel (AcceptChannel r p sock) \<longleftrightarrow> benign sock"
| "benign_channel _ \<longleftrightarrow> True"

lemma server_handle_held:
  assumes inv: "held_inv [] L" and ch: "benign_channel ch" and h: "server_handle script ch L = Inr L'"
  shows "held_inv [] L'"
proof -
  have si: "server_inv (event_loop.more L)" using inv by (simp add: held_inv_def)
  from h show ?thesis
  proof (cases rule: server_handle_cases)
    case timers
    with inv held_inv_same show ?thesis by blast
  next
    case (refused p)
    show ?thesis by (rule release_held[OF si refused]) (use inv in \<open>simp add: held_inv_def\<close>)
  next
    case (accepted r p sock fd peer L1)
    have "benign sock" using ch accepted(1) by simp
    note n = newConnetction_keeps[OF si accepted(2) this accepted(3)]
    show ?thesis
      by (rule release_held[OF _ accepted(4)]) (use n held_elsewhere[OF inv newConnetction_queues[OF accepted(3)], of p] in auto)
  next
    case (ready p L1)
    let ?op = "\<lambda>(c, L). handle_conn_event (server_call (scripted_user script) (m_tid L)) (m_tid L) (m_revents (m_channel c)) (c, L)"
    have op: "conn_ok (serving p (event_loop.more L)) s'"
      if "conn_ok (serving p (event_loop.more L)) (c, L)" "?op (c, L) = Inr s'" for c s'
      using that by (auto intro: served.handle_conn_event_keeps)
    have "server_inv (event_loop.more L1)" by (rule with_conn_keeps[OF si ready(3) op])
    moreover have "dom (conn_heap (event_loop.more L1)) = dom (conn_heap (event_loop.more L))"
      by (rule with_conn_elsewhere(1)[OF si ready(3) op])
    moreover have "set (m_connectionSet (event_loop.more L1)) - {p} = set (m_connectionSet (event_loop.more L)) - {p}"
      by (rule with_conn_elsewhere(2)[OF si ready(3) op])
    moreover have "queues L L1" by (rule with_conn_queues[OF conn_ready_appends ready(3)])
    ultimately show ?thesis
      using held_elsewhere[OF inv, of L1 p] by (intro release_held[OF _ ready(2)]) auto
  qed
qed

text \<open>Running a task: its own closure, or the server's set, keeps the connection.\<close>

lemma unreferencing_task:
  assumes "task_target t = Some p" and "t = Closure u" and "\<not> holds_reference t"
  shows "u = StopReadInLoop p \<or> u = StartReadInLoop p"
  using assms by (cases u) auto

lemma server_run_held:
  assumes inv: "held_inv ts L" and t: "t \<in> set ts" and h: "server_run script t L = Inr L'"
  shows "held_inv ts L'"
proof -
  have si: "server_inv (event_loop.more L)" using inv by (simp add: held_inv_def)
  from h show ?thesis
  proof (cases rule: server_run_cases)
    case other
    with inv held_inv_same show ?thesis by blast
  next
    case (task u p)
    let ?op = "\<lambda>(c, L). run_net_task (server_call (scripted_user script) (m_tid L)) (m_tid L) u (c, L)"
    have op: "conn_ok (serving p (event_loop.more L)) s'"
      if "conn_ok (serving p (event_loop.more L)) (c, L)" "?op (c, L) = Inr s'" for c s'
      using that by (auto intro: served_task_keeps)
    have e: "dom (conn_heap (event_loop.more L')) = dom (conn_heap (event_loop.more L))"
      by (rule with_conn_elsewhere(1)[OF si task(3) op])
    have e': "set (m_connectionSet (event_loop.more L')) - {p} = set (m_connectionSet (event_loop.more L)) - {p}"
      by (rule with_conn_elsewhere(2)[OF si task(3) op])
    have q: "queues L L'" by (rule with_conn_queues[OF conn_task_appends task(3)])
    have "held ts L' p" if p: "p \<in> dom (conn_heap (event_loop.more L'))"
    proof (cases "holds_reference t")
      case True
      with t task(2) show ?thesis by (auto simp: held_def)
    next
      case False
      from task(3) obtain c c' L1 where c: "conn_heap (event_loop.more L) p = Some c" and o: "?op (c, L) = Inr (c', L1)"
        and L': "L' = on_server (\<lambda>s. s\<lparr>conn_heap := (conn_heap s)(p \<mapsto> c')\<rparr>) L1"
        by (auto simp: with_conn_def bindR_eq_Inr split: option.splits)
      from si c have "conn_inv c" "benign (socket_of c)" by (auto simp: server_inv_def conn_served_def)
      with o unreferencing_task[OF task(2,1) False] have "event_loop.more L1 = event_loop.more L"
        using stopReadInLoop_unchanged[of c "m_tid L" L c' L1] startReadInLoop_unchanged[of c "m_tid L" L c' L1]
        by (auto simp: unchanged_def)
      then have "m_connectionSet (event_loop.more L') = m_connectionSet (event_loop.more L)" by (simp add: L')
      moreover have "set (m_pendingTasks L) \<subseteq> set (m_pendingTasks L')" using q by (auto simp: queues_def)
      moreover have "held ts L p" using inv c by (auto simp: held_inv_def)
      ultimately show ?thesis unfolding held_def referenced_def by auto
    qed
    moreover have "held ts L' r" if "r \<in> dom (conn_heap (event_loop.more L'))" "r \<noteq> p" for r
      by (rule held_elsewhere[OF inv q _ e' that]) (use e in auto)
    moreover have "server_inv (event_loop.more L')" by (rule with_conn_keeps[OF si task(3) op])
    ultimately show ?thesis unfolding held_inv_def by blast
  qed
qed

text \<open>When a task is destroyed, nothing is left that only it held.\<close>

lemma server_destroy_held:
  assumes inv: "held_inv (t # ts) L" and d: "server_destroy t L = Inr L1"
  shows "held_inv ts L1"
proof (cases "holds_reference t")
  case True
  then obtain p where p: "task_target t = Some p" by (cases t rule: holds_reference.cases) auto
  have "server_inv (event_loop.more L)" using inv by (simp add: held_inv_def)
  moreover have "release p L = Inr L1" using d True p by (simp add: server_destroy_def)
  moreover have "held ts L r" if "r \<in> dom (conn_heap (event_loop.more L))" "r \<noteq> p" for r
  proof -
    have "held (t # ts) L r" using inv that(1) by (simp add: held_inv_def)
    with p that(2) show ?thesis by (auto simp: held_def)
  qed
  ultimately show ?thesis by (rule release_held)
next
  case False
  with d have "L1 = L" by (simp add: server_destroy_def split: option.splits)
  with inv False show ?thesis by (auto simp: held_inv_def held_def)
qed

interpretation kept_server: keeping_client server_mark "server_handle script" "server_run script" server_destroy
  held_inv benign_channel
proof
  fix t ts ch and L L' :: "'a server_loop" and ev ep
  show "held_inv [] (L\<lparr>m_poller := ep\<rparr>)" if "held_inv [] L" by (rule held_inv_same[OF that]) simp_all
  show "held_inv (m_pendingTasks L) (L\<lparr>m_pendingTasks := []\<rparr>)" if "held_inv [] L"
    using that by (auto simp: held_inv_def held_def referenced_def)
  show "held_inv [] (server_mark ch ev L)" if "held_inv [] L" using that by (rule server_mark_held)
  show "held_inv [] L'" if "held_inv [] L" "benign_channel ch" "server_handle script ch L = Inr L'"
    using that by (rule server_handle_held)
  show "held_inv ts L'" if "held_inv ts L" "t \<in> set ts" "server_run script t L = Inr L'"
    using that by (rule server_run_held)
  show "held_inv ts L'" if "held_inv (t # ts) L" "server_destroy t L = Inr L'"
    using that by (rule server_destroy_held)
qed

section \<open>Property\<close>

text \<open>
  C5. A server on its loop loses and leaks no connection: while \<^verbatim>\<open>EventLoop::loop\<close> turns,
  whatever it polls, whatever is accepted and whatever the callbacks do, after each turn the
  server's set holds exactly the connections that are not closed; every connection still
  allocated is in the set or referred to by a pending closure, so closed ones are freed; and
  if closures are pending, the wakeup descriptor is readable, so the loop will run them.
\<close>

theorem server_loop_keeps:
  assumes "new_TCPServerSingle local fd ra rp bd = Inr w"
    and "start_server (m_tid L) ret (L\<lparr>event_loop.more := setConnectionCallback_srv cc
      (setMessageCallback_srv mc (setWriteCompleteCallback_srv wc w))\<rparr>) = Inr L0"
    and "m_pendingTasks L0 = []" and "\<forall>ew \<in> set ews. polls_only benign_channel ew"
    and "loop server_mark (server_handle script) (server_run script) server_destroy (m_tid L0) ews L0 = Inr L'"
  shows "set (m_connectionSet (event_loop.more L'))
      = {p. \<exists>c. conn_heap (event_loop.more L') p = Some c \<and> \<not> isDisconnected c}
    \<and> dom (conn_heap (event_loop.more L')) \<subseteq> set (m_connectionSet (event_loop.more L'))
        \<union> {p. \<exists>t \<in> set (m_pendingTasks L'). holds_reference t \<and> task_target t = Some p}
    \<and> (m_pendingTasks L' = [] \<or> 0 < wakeup_count L')"
proof -
  have si: "server_inv (event_loop.more L0)"
    by (rule started_server_inv[OF _ _ assms(2)]) (use assms(1) in \<open>auto simp: new_TCPServerSingle_def
        setConnectionCallback_srv_def setMessageCallback_srv_def setWriteCompleteCallback_srv_def res_iffs\<close>)
  have "conn_heap (event_loop.more L0) = Map.empty"
    using assms(1,2) by (auto simp: new_TCPServerSingle_def setConnectionCallback_srv_def setMessageCallback_srv_def
        setWriteCompleteCallback_srv_def start_server_def listen_def acceptor_channel_def on_channel_def res_iffs
        assertInLoopThread_eq_Inr split: if_splits)
  with si have "held_inv [] L0" by (simp add: held_inv_def)
  moreover have w: "loop_while server_mark (server_handle script) (server_run script) server_destroy (m_tid L0) ews L0 = Inr L'"
    using assms(5) by (simp add: loop_def)
  ultimately have inv: "held_inv [] L'" using kept_server.loop_while_inv assms(4) by blast
  then have "set (m_connectionSet (event_loop.more L'))
      = {p. \<exists>c. conn_heap (event_loop.more L') p = Some c \<and> \<not> isDisconnected c}"
    by (auto simp: held_inv_def server_inv_def conn_served_def)
  moreover have "m_pendingTasks L' \<noteq> [] \<longrightarrow> 0 < wakeup_count L'"
    by (rule server_on_loop.loop_while_wakes[OF w]) (simp add: assms(3))
  ultimately show ?thesis using inv by (auto simp: held_inv_def held_def referenced_def)
qed

lemma handle_accept:
  assumes "m_revents (m_acceptChannel (m_acceptor (event_loop.more L))) = EPOLLIN"
    and "\<not> m_tied (m_acceptChannel (m_acceptor (event_loop.more L)))"
    and "conn_heap (event_loop.more L) p = None" and "\<not> referenced p L"
  shows "server_handle script (AcceptChannel r p sock) L = server_step script (Accepted r p sock) L"
proof -
  have "handleEvents (m_tid L) (m_tid L) True (\<lambda>L. m_acceptChannel (m_acceptor (event_loop.more L))) (reads f) L = f L" for f
    by (rule handle_readable) (use assms(1,2) in simp_all)
  with assms(3,4) show ?thesis by (simp add: server_step_def)
qed

lemma server_loop_keeps_witness:
  "\<exists>w L0 L'. new_TCPServerSingle any_address 3 0 0 0 = Inr w
     \<and> start_server 1 0 (idle_loop (setConnectionCallback_srv None (setMessageCallback_srv (Some (4 :: nat))
         (setWriteCompleteCallback_srv None w)))) = Inr L0
     \<and> loop server_mark (server_handle (\<lambda>_ _. [])) (server_run (\<lambda>_ _. [])) server_destroy 1
         [Inr [(AcceptChannel (Inr (9, any_address)) 8 (sample_socket []), EPOLLIN)]] L0 = Inr L'
     \<and> (\<exists>c. conn_heap (event_loop.more L') 8 = Some c \<and> \<not> isDisconnected c)"
proof -
  obtain w L0 where w: "new_TCPServerSingle any_address 3 0 0 0 = Inr w"
    and start: "start_server 1 0 (idle_loop (setConnectionCallback_srv None (setMessageCallback_srv (Some (4 :: nat))
       (setWriteCompleteCallback_srv None w)))) = Inr L0"
    and L0: "m_connectionCallback (event_loop.more L0) = None" "conn_heap (event_loop.more L0) = Map.empty"
    "m_connectionSet (event_loop.more L0) = []" "polling (m_acceptChannel (m_acceptor (event_loop.more L0)))"
    "m_pendingTasks L0 = []" "m_tid L0 = 1" "server_inv (event_loop.more L0)"
    "\<not> m_tied (m_acceptChannel (m_acceptor (event_loop.more L0)))" "\<not> m_quit L0" "m_poller L0 = \<lparr>ep_size = 128, ep_calls = ep_calls (m_poller L0)\<rparr>"
    by (rule sample_server_started)
  let ?ch = "AcceptChannel (Inr (9, any_address)) 8 (sample_socket [])"
  let ?L = "server_mark ?ch EPOLLIN L0"
  have L: "m_connectionCallback (event_loop.more ?L) = None" "conn_heap (event_loop.more ?L) 8 = None" "\<not> referenced 8 ?L"
    "m_revents (m_acceptChannel (m_acceptor (event_loop.more ?L))) = EPOLLIN"
    "\<not> m_tied (m_acceptChannel (m_acceptor (event_loop.more ?L)))" "m_poller ?L = m_poller L0"
    using L0 by (simp_all add: referenced_def setRevents_def on_server_def)
  have p: "poll (m_tid L0) 1 server_mark (Inr [(?ch, EPOLLIN)]) (m_poller L0, L0, []) = Inr (m_poller L0, ?L, [?ch])"
    using L0(6) arg_cong[OF L0(10), of ep_size] by (simp add: poll_def maxEvents_def)
  have same: "?L\<lparr>m_poller := m_poller L0\<rparr> = ?L" using L(6) by (metis event_loop.surjective event_loop.update_convs(3))
  obtain L1 where h: "server_handle (\<lambda>_ _. []) ?ch ?L = Inr L1" and L1: "m_tid L1 = 1" "m_pendingTasks L1 = []"
    and listed: "8 \<in> set (m_connectionSet (event_loop.more L1))"
  proof -
    obtain c ep where "server_handle (\<lambda>_ _. []) ?ch ?L
        = Inr (on_server (\<lambda>s. s\<lparr>conn_heap := (conn_heap s)(8 \<mapsto> c)\<rparr>) ((on_server (enlist 8) ?L)\<lparr>m_poller := ep\<rparr>))"
      unfolding handle_accept[OF L(4,5,2,3)] by (rule accept_step[OF L(1-3)])
    from this show thesis by (rule that) (use L0 in \<open>simp_all add: enlist_def\<close>)
  qed
  have "L1\<lparr>m_pendingTasks := []\<rparr> = L1" using L1(2) by (metis event_loop.surjective event_loop.update_convs(4))
  then have "doPendingTasks (server_run (\<lambda>_ _. [])) server_destroy L1 = Inr L1" using L1 by (simp add: doPendingTasks_def)
  then have "loop_turn server_mark (server_handle (\<lambda>_ _. [])) (server_run (\<lambda>_ _. [])) server_destroy 1 (Inr [(?ch, EPOLLIN)]) L0 = Inr L1"
    by (simp add: loop_turn_def p same h L1(1) del: server_handle.simps server_mark.simps)
  then have run: "loop server_mark (server_handle (\<lambda>_ _. [])) (server_run (\<lambda>_ _. [])) server_destroy (m_tid L0) [Inr [(?ch, EPOLLIN)]] L0 = Inr L1"
    using L0(6,9) by (simp add: loop_def del: server_handle.simps server_mark.simps)
  have b: "\<forall>ew \<in> set [Inr [(?ch, EPOLLIN)]]. polls_only benign_channel ew"
    by (simp add: polls_only_def benign_def sample_socket_def)
  have start': "start_server (m_tid (idle_loop w)) 0 ((idle_loop w)\<lparr>event_loop.more := setConnectionCallback_srv None
      (setMessageCallback_srv (Some 4) (setWriteCompleteCallback_srv None w))\<rparr>) = Inr L0"
    using start by (simp add: idle_loop_def)
  have "\<exists>c. conn_heap (event_loop.more L1) 8 = Some c \<and> \<not> isDisconnected c"
    using server_loop_keeps[OF w start' L0(5) b run] listed by blast
  with w start run L0(6) show ?thesis by metis
qed

end
