(* ===== verification/Client_Loop.thy ===== *)
theory Client_Loop
  imports Client_Runs Server_Loop
begin

text \<open>
  A \<^verbatim>\<open>TCPClient\<close> on its \<^verbatim>\<open>EventLoop::loop\<close>: the timers with the client's retries, the wakeup
  descriptor, the connecting socket and the connection as the channels of the loop, and the
  closures of the connection as its tasks. The interfaces \<open>queueing_client\<close> and
  \<open>loop_client\<close> that the server was shown to keep are shown here for the client.
\<close>

section \<open>A client on its loop\<close>

text \<open>
  The channels the loop polls. The events of the timers and of the connecting socket carry
  the time and what the system will answer to an attempt to connect.
\<close>

datatype client_channel =
    ClientTimers time_point attempt
  | ClientWakeup
  | ConnectorChannel attempt
  | ClientChannel addr

fun client_mark :: "client_channel \<Rightarrow> 32 word \<Rightarrow> 'u client_loop \<Rightarrow> 'u client_loop" where
  "client_mark (ClientTimers now a) ev L = L\<lparr>m_timerChannel := setRevents ev (m_timerChannel L)\<rparr>"
| "client_mark ClientWakeup ev L = L\<lparr>m_wakeupChannel := setRevents ev (m_wakeupChannel L)\<rparr>"
| "client_mark (ConnectorChannel a) ev L = on_client (\<lambda>s. s\<lparr>m_connector := (m_connector s)
     \<lparr>m_channel_connector := setRevents ev (m_channel_connector (m_connector s))\<rparr>\<rparr>) L"
| "client_mark (ClientChannel p) ev L =
     (case client_conns (event_loop.more L) p of
        None \<Rightarrow> L
      | Some c \<Rightarrow> on_client (\<lambda>s. s\<lparr>client_conns := (client_conns s)(p \<mapsto> c\<lparr>m_channel := setRevents ev (m_channel c)\<rparr>)\<rparr>) L)"

fun client_handle :: "(conn_event \<Rightarrow> 'u \<Rightarrow> conn_act list) \<Rightarrow> client_channel \<Rightarrow> 'u client_loop \<Rightarrow> 'u client_loop res" where
  "client_handle script (ClientTimers now a) L =
     handleEvents (m_tid L) (m_tid L) True m_timerChannel
       (reads (handleRead_timer (client_exec (scripted_user script) (m_tid L) a) (m_tid L))) (L\<lparr>clock_now := now\<rparr>)"
| "client_handle script ClientWakeup L =
     handleEvents (m_tid L) (m_tid L) True m_wakeupChannel (reads (handleRead_wakeup (m_tid L))) L"
| "client_handle script (ConnectorChannel a) L =
     (if polling (m_channel_connector (m_connector (event_loop.more L)))
      then handleEvents (m_tid L) (m_tid L) True (\<lambda>L. m_channel_connector (m_connector (event_loop.more L)))
             (writes (connector_writable (scripted_user script) (m_tid L) a)) L
      else Inr L)"
| "client_handle script (ClientChannel p) L =
     bindR (with_client_conn p (\<lambda>(c, L). handle_conn_event (client_call (scripted_user script) (m_tid L)) (m_tid L)
        (m_revents (m_channel c)) (c, L)) L) (release_conn p)"

definition client_run :: "(conn_event \<Rightarrow> 'u \<Rightarrow> conn_act list) \<Rightarrow> 'u client_cb net_task task \<Rightarrow> 'u client_loop \<Rightarrow> 'u client_loop res" where
  "client_run script t L =
     (case (t, task_target t) of
        (Closure u, Some p) \<Rightarrow>
          with_client_conn p (\<lambda>(c, L). run_net_task (client_call (scripted_user script) (m_tid L)) (m_tid L) u (c, L)) L
      | _ \<Rightarrow> run_task (\<lambda>_. Inr) t L)"

definition client_destroy :: "'u client_cb net_task task \<Rightarrow> 'u client_loop \<Rightarrow> 'u client_loop res" where
  "client_destroy t L =
     (case task_target t of Some p \<Rightarrow> if holds_reference t then release_conn p L else Inr L | None \<Rightarrow> Inr L)"

section \<open>What the client does to the task queue\<close>

lemma queues_on_client: "queues L (on_client f L)"
  by (rule queues_same) (simp_all add: on_client_def)

lemma queues_poller: "queues L (L\<lparr>m_poller := ep\<rparr>)"
  by (rule queues_same) simp_all

interpretation client_queues: queueing_client "client_call (scripted_user script) g"
proof
  fix L :: "'a client_loop" and ev u c
  have user: "appends M (call_connection (scripted_user script) (c, M))" for M :: "'a client_loop" and c
    by (auto simp: call_connection_def intro: scripted_user_appends appends_Inr split: option.split)
  show "appends L (client_call (scripted_user script) g ev u (c, L))"
  proof (cases u)
    case ClientClose
    have "appends L (closeConnection_cl (scripted_user script) g (c, L))"
      unfolding closeConnection_cl_def split
      by (intro appends_inLoop appends_assert appends_start[OF queues_on_client user])
    with ClientClose show ?thesis by (simp add: appends_Inr)
  qed (simp_all add: appends_Inr scripted_user_appends)
qed

lemma release_conn_queues: "release_conn p L = Inr L' \<Longrightarrow> queues L L'"
  by (auto simp: release_conn_def bindR_eq_Inr intro: queues_on_client split: if_splits option.splits)

lemma with_client_conn_queues:
  assumes "\<And>c. appends L (op (c, L))" and "with_client_conn p op L = Inr L'"
  shows "queues L L'"
proof -
  from assms(2) obtain c c' L1 where o: "op (c, L) = Inr (c', L1)"
    and L': "L' = on_client (\<lambda>s. s\<lparr>client_conns := (client_conns s)(p \<mapsto> c')\<rparr>) L1"
    by (auto simp: with_client_conn_def res_iffs split: option.splits)
  from queues_trans[OF appendsD[OF assms(1) o] queues_on_client] show ?thesis unfolding L' .
qed

lemma newConnection_queues:
  assumes "newConnection (scripted_user script) g p sock fd local peer L = Inr L'"
  shows "queues L L'"
proof -
  have user: "appends M (call_connection (scripted_user script) (c, M))" for M :: "'a client_loop" and c
    by (auto simp: call_connection_def intro: scripted_user_appends appends_Inr split: option.split)
  have est: "appends M (connectEstablished g (c, M))" for M :: "'a client_loop" and c
    by (auto simp: connectEstablished_def intro!: appends_intros conn_channel_appends)
  from assms obtain L1 c L2 c' c1 L3 c2 L4 where
    e: "eraseTimer (m_retryTimer (event_loop.more L)) L = Inr L1"
    and r: "release_conn (m_connection (event_loop.more L1)) (on_client (\<lambda>s. s\<lparr>m_connection := p\<rparr>)
        (on_client (\<lambda>s. s\<lparr>m_retryTimer := 0, m_connected := True\<rparr>) L1)) = Inr L2"
    and c: "connectEstablished g (c', L2) = Inr (c1, L3)"
    and u: "call_connection (scripted_user script) (c1, L3) = Inr (c2, L4)"
    and L': "L' = on_client (\<lambda>s. s\<lparr>client_conns := (client_conns s)(p \<mapsto> c2)\<rparr>) L4"
    by (auto simp: newConnection_def assertInLoopThread_eq_Inr bindR_eq_Inr cancelTimer_def runInLoop_def
        isInLoopThread_def Let_def)
  have "queues L L1" using e by (auto simp: eraseTimer_def bindR_eq_Inr Let_def delete_timer_def intro: queues_same)
  moreover have "queues L1 L2" using queues_trans[OF queues_trans[OF queues_on_client queues_on_client] release_conn_queues[OF r]] .
  moreover have "queues L2 L4" using queues_trans[OF appendsD[OF est c] appendsD[OF user u]] .
  ultimately have "queues L L4" using queues_trans by blast
  from queues_trans[OF this queues_on_client] show ?thesis unfolding L' .
qed

lemma connector_channel_queues:
  assumes "connector_channel op g (k, L) = Inr (k', L')"
  shows "queues L L'"
  using assms by (auto simp: connector_channel_def on_channel_eq_Inr bindR_eq_Inr intro: queues_poller)

lemma handleWrite_connector_queues:
  assumes cb: "\<And>fd l p k M k' M'. cb fd l p (k, M) = Inr (k', M') \<Longrightarrow> queues M M'"
    and h: "handleWrite_connector (Some cb) g err name (k, L) = Inr (k', L')"
  shows "queues L L'"
proof -
  from h obtain k1 L1 where
    a: "(if \<not> isNoneEvents (m_channel_connector k) then connector_channel disableAll g (k, L) else Inr (k, L)) = Inr (k1, L1)"
    and b: "(if err \<noteq> 0 then Inr (k1, L1) else cb (m_sockfd_connector k1) (setAddress name (new_InetAddress True 0 False))
       (m_peer_connector k1) (k1, L1)) = Inr (k', L')"
    by (auto simp: handleWrite_connector_def assertInLoopThread_eq_Inr bindR_eq_Inr cong: if_cong)
  have "queues L L1" using a by (auto intro: connector_channel_queues split: if_splits)
  moreover have "queues L1 L'" using b by (auto intro: cb split: if_splits)
  ultimately show ?thesis by (rule queues_trans)
qed

lemma start_connector_queues:
  assumes h: "start_connector (scripted_user script) g a L = Inr L'"
  shows "queues L L'"
proof -
  let ?cb = "\<lambda>fd local peer (k, L). bindR (newConnection (scripted_user script) g (new_conn a) (new_sock a) fd local peer L)
      (\<lambda>L. Inr (k, L))" and ?k = "m_connector (event_loop.more L)"
  from h obtain k L1 where s: "start_Connector (Some ?cb) g (connect_result a) (so_error a) (sock_name a) (?k, L) = Inr (k, L1)"
    and L': "L' = on_client (\<lambda>s. s\<lparr>m_connector := k\<rparr>) L1"
    by (auto simp: start_connector_def with_connector_def bindR_eq_Inr)
  have cb: "queues M M'" if "?cb fd l p (k, M) = Inr (k', M')" for fd l p k M k' M'
    using that by (auto simp: bindR_eq_Inr intro: newConnection_queues)
  have "queues L L1"
  proof (cases "connect_result a")
    case None
    with s have "handleWrite_connector (Some ?cb) g (so_error a) (sock_name a) (?k, L) = Inr (k, L1)"
      by (simp add: start_Connector_def assertInLoopThread_eq_Inr)
    from handleWrite_connector_queues[OF cb this] show ?thesis .
  next
    case (Some e)
    with s connector_channel_queues[of enableWrite g ?k L k L1] show ?thesis
      by (auto simp: start_Connector_def assertInLoopThread_eq_Inr split: if_splits)
  qed
  from queues_trans[OF this queues_on_client] show ?thesis unfolding L' .
qed

lemma client_exec_queues:
  assumes "client_exec (scripted_user script) g a u M = Inr M'"
  shows "queues M M'"
proof (cases "u = UserTask Retry")
  case True
  with assms show ?thesis
    by (auto simp: retry_def assertInLoopThread_eq_Inr intro: start_connector_queues split: if_splits)
next
  case False
  with assms client_exec_other show ?thesis by (metis queues_refl sum.inject(2))
qed

interpretation retrying_queues: timer_frame "client_exec (scripted_user script) g a" "queues L0"
proof
  show "queues L0 M'" if "queues L0 M" "client_exec (scripted_user script) g a u M = Inr M'" for u and M M' :: "'a client_loop"
    using that queues_trans client_exec_queues by blast
  show "queues L0 (M\<lparr>timer_heap := h, m_timers := ts, timerfd_sets := x\<rparr>)" if "queues L0 M" for M :: "'a client_loop" and h ts x
    using that by (auto simp: queues_def)
qed

text \<open>What a channel's handler does before the reference it held is dropped.\<close>

definition same_timers :: "('u, 'w) event_loop_scheme \<Rightarrow> ('u, 'w) event_loop_scheme \<Rightarrow> bool" where
  "same_timers L L' \<longleftrightarrow> m_timers L' = m_timers L \<and> timer_heap L' = timer_heap L \<and> timerfd_sets L' = timerfd_sets L"

lemma client_handle_cases:
  assumes h: "client_handle script ch L = Inr L'"
  obtains (quiet) "m_pendingTasks L' = m_pendingTasks L" "m_tid L' = m_tid L" "event_loop.more L' = event_loop.more L"
      "same_timers L L'"
  | (timers) now a where "ch = ClientTimers now a"
      "handleRead_timer (client_exec (scripted_user script) (m_tid L) a) (m_tid L) (L\<lparr>clock_now := now\<rparr>) = Inr L'"
  | (connector) a where "ch = ConnectorChannel a" "polling (m_channel_connector (m_connector (event_loop.more L)))"
      "connector_writable (scripted_user script) (m_tid L) a L = Inr L'"
  | (ready) p L1 where "ch = ClientChannel p" "release_conn p L1 = Inr L'"
      "with_client_conn p (\<lambda>(c, L). handle_conn_event (client_call (scripted_user script) (m_tid L)) (m_tid L)
        (m_revents (m_channel c)) (c, L)) L = Inr L1"
proof (cases ch)
  case (ClientTimers now a)
  from h ClientTimers have "handleEvents (m_tid L) (m_tid L) True m_timerChannel
      (reads (handleRead_timer (client_exec (scripted_user script) (m_tid L) a) (m_tid L))) (L\<lparr>clock_now := now\<rparr>) = Inr L'"
    by simp
  then show thesis
  proof (cases rule: reads_cases)
    case 1
    show thesis by (rule quiet) (simp_all add: 1 same_timers_def)
  qed (rule timers[OF ClientTimers])
next
  case ClientWakeup
  from h ClientWakeup have "handleEvents (m_tid L) (m_tid L) True m_wakeupChannel (reads (handleRead_wakeup (m_tid L))) L = Inr L'"
    by simp
  then have "L' = L \<or> L' = L\<lparr>wakeup_count := 0\<rparr>"
    by (cases rule: reads_cases) (auto simp: handleRead_wakeup_def)
  then show thesis by (elim disjE) (rule quiet; simp add: same_timers_def)+
next
  case (ConnectorChannel a)
  show thesis
  proof (cases "polling (m_channel_connector (m_connector (event_loop.more L)))")
    case True
    with h ConnectorChannel have "handleEvents (m_tid L) (m_tid L) True (\<lambda>L. m_channel_connector (m_connector (event_loop.more L)))
        (writes (connector_writable (scripted_user script) (m_tid L) a)) L = Inr L'" by simp
    then show thesis
    proof (cases rule: writes_cases)
      case 1
      show thesis by (rule quiet) (simp_all add: 1 same_timers_def)
    qed (rule connector[OF ConnectorChannel True])
  next
    case False
    show thesis by (rule quiet) (use h ConnectorChannel False in \<open>simp_all add: same_timers_def\<close>)
  qed
next
  case (ClientChannel p)
  with h show thesis by (auto simp: bindR_eq_Inr intro: ready)
qed

lemma client_ready_appends:
  "appends L ((\<lambda>(c, L). handle_conn_event (client_call (scripted_user script) (m_tid L)) (m_tid L) (m_revents (m_channel c)) (c, L)) (c, L))"
  by (simp add: client_queues.handle_conn_event_appends)

lemma client_task_appends:
  "appends L ((\<lambda>(c, L). run_net_task (client_call (scripted_user script) (m_tid L)) (m_tid L) u (c, L)) (c, L))"
  by (simp add: client_queues.run_net_task_appends)

lemma client_timers_queues:
  assumes "handleRead_timer (client_exec (scripted_user script) g a) g (L\<lparr>clock_now := now\<rparr>) = Inr L'"
  shows "queues L L'"
  by (rule retrying_queues.handleRead_timer_Q[OF assms]) (rule queues_same; simp)

lemma client_handle_appends:
  assumes "client_handle script ch L = Inr L'"
  shows "only_appends L L'"
  using assms
proof (cases rule: client_handle_cases)
  case quiet
  then show ?thesis by (simp add: only_appends_def)
next
  case (timers now a)
  from client_timers_queues[OF timers(2)] show ?thesis by (rule queues_only_appends)
next
  case (connector a)
  from start_connector_queues[OF connector_writable_start[OF connector(3)]] show ?thesis by (rule queues_only_appends)
next
  case (ready p L1)
  from queues_trans[OF with_client_conn_queues[OF client_ready_appends ready(3)] release_conn_queues[OF ready(2)]]
  show ?thesis by (rule queues_only_appends)
qed

lemma client_run_cases:
  assumes h: "client_run script t L = Inr L'"
  obtains (other) "m_pendingTasks L' = m_pendingTasks L" "m_tid L' = m_tid L" "wakeup_count L' = wakeup_count L"
      "event_loop.more L' = event_loop.more L" "is_closure t \<Longrightarrow> L' = L"
  | (task) u p where "t = Closure u" "task_target t = Some p"
      "with_client_conn p (\<lambda>(c, L). run_net_task (client_call (scripted_user script) (m_tid L)) (m_tid L) u (c, L)) L = Inr L'"
proof (cases "\<exists>u p. t = Closure u \<and> task_target t = Some p")
  case True
  with h task show thesis by (auto simp: client_run_def)
next
  case False
  then have "run_task (\<lambda>_. Inr) t L = Inr L'"
    using h by (cases t; cases "task_target t") (simp_all add: client_run_def)
  moreover from this have "is_closure t \<Longrightarrow> L' = L" by (cases t) simp_all
  ultimately show thesis using timer_task_only other by blast
qed

lemma client_mark_frame:
  "m_pendingTasks (client_mark ch ev L) = m_pendingTasks L" "m_tid (client_mark ch ev L) = m_tid L"
  by (cases ch; simp split: option.split)+

interpretation client_on_loop: loop_client client_mark "client_handle script" "client_run script" client_destroy
proof
  fix t and L L' :: "'a client_loop" and ch ev
  show "queues L L'" if "client_run script t L = Inr L'"
    using that
  proof (cases rule: client_run_cases)
    case (task u p)
    show ?thesis by (rule with_client_conn_queues[OF client_task_appends task(3)])
  qed (simp add: queues_same)
  show "queues L L'" if "client_destroy t L = Inr L'"
    using that by (auto simp: client_destroy_def intro: release_conn_queues split: option.splits if_splits)
  show "only_appends L L'" if "client_handle script ch L = Inr L'" using that by (rule client_handle_appends)
  show "m_pendingTasks (client_mark ch ev L) = m_pendingTasks L" "m_tid (client_mark ch ev L) = m_tid L"
    by (rule client_mark_frame)+
qed

section \<open>The connection is neither lost nor leaked\<close>

text \<open>
  \<open>client_held ts L p\<close>: the client, a pending closure, or a closure in \<open>ts\<close>, the tasks the
  loop has taken and not destroyed yet, refers to the connection at \<open>p\<close>.
\<close>

definition client_held :: "'u client_cb net_task task list \<Rightarrow> 'u client_loop \<Rightarrow> addr \<Rightarrow> bool" where
  "client_held ts L p \<longleftrightarrow> m_connection (event_loop.more L) = p
     \<or> (\<exists>t \<in> set (m_pendingTasks L) \<union> set ts. holds_reference t \<and> task_target t = Some p)"

definition client_kept :: "'u client_cb net_task task list \<Rightarrow> 'u client_loop \<Rightarrow> bool" where
  "client_kept ts L \<longleftrightarrow> client_inv L \<and> list_all is_closure (m_pendingTasks L @ ts)
     \<and> (\<forall>p \<in> dom (client_conns (event_loop.more L)). client_held ts L p)"

lemma client_kept_same:
  "client_kept ts L \<Longrightarrow> m_pendingTasks L' = m_pendingTasks L \<Longrightarrow> event_loop.more L' = event_loop.more L \<Longrightarrow> same_timers L L'
    \<Longrightarrow> client_kept ts L'"
  using client_inv_cong[of L' L] by (simp add: client_kept_def client_held_def same_timers_def)

lemma client_keptD: "client_kept ts L \<Longrightarrow> client_rest (event_loop.more L)"
  by (simp add: client_kept_def client_inv_def)

text \<open>What only queues, queues closures.\<close>

lemma queues_closures: "queues L L' \<Longrightarrow> list_all is_closure (m_pendingTasks L @ ts) \<Longrightarrow> list_all is_closure (m_pendingTasks L' @ ts)"
  by (auto simp: queues_def)

lemma release_conn_kept:
  assumes inv: "client_inv L" "list_all is_closure (m_pendingTasks L @ ts)" and h: "release_conn p L = Inr L'"
    and others: "\<And>r. r \<in> dom (client_conns (event_loop.more L)) \<Longrightarrow> r \<noteq> p \<Longrightarrow> client_held ts L r"
  shows "client_kept ts L'"
proof -
  have rest: "client_rest (event_loop.more L)" using inv(1) by (simp add: client_inv_def)
  have inv': "client_inv L'" using release_conn_ok[OF inv(1), of p] h by simp
  have closures: "list_all is_closure (m_pendingTasks L' @ ts)" using queues_closures[OF release_conn_queues[OF h] inv(2)] .
  from rest show ?thesis
  proof (cases rule: release_conn_cases[of L p])
    case kept
    with h have L': "L' = L" by simp
    have "client_held ts L r" if "r \<in> dom (client_conns (event_loop.more L))" for r
      using kept(2) others[OF that] that by (cases "r = p") (auto simp: client_held_def)
    with inv show ?thesis by (simp add: L' client_kept_def)
  next
    case freed
    with h have L': "L' = on_client (\<lambda>s. s\<lparr>client_conns := (client_conns s)(p := None)\<rparr>) L" by simp
    have "client_held ts L' r" if "r \<in> dom (client_conns (event_loop.more L'))" for r
    proof -
      from that have "r \<in> dom (client_conns (event_loop.more L))" "r \<noteq> p" by (auto simp: L' split: if_splits)
      from others[OF this] show ?thesis by (simp add: client_held_def L')
    qed
    with inv' closures show ?thesis by (simp add: client_kept_def)
  qed
qed

text \<open>An operation on the connection: it is the only one, before and after.\<close>

lemma with_client_conn_only:
  assumes "client_rest (event_loop.more L)" and h: "with_client_conn p op L = Inr L'"
    and op: "\<And>c s'. conn_ok (holding p (event_loop.more L)) (c, L) \<Longrightarrow> op (c, L) = Inr s'
      \<Longrightarrow> conn_ok (holding p (event_loop.more L)) s'"
  shows "client_inv L'" "dom (client_conns (event_loop.more L')) = {p}"
proof -
  have r: "client_rest (event_loop.more L')" and "m_connected (event_loop.more L')" using with_client_conn_keeps[OF assms] by simp_all
  then show "client_inv L'" by (simp add: client_inv_def)
  from h obtain c' where "client_conns (event_loop.more L') p = Some c'"
    by (auto simp: with_client_conn_def res_iffs split: option.splits)
  from client_rest_conn(4)[OF r this] show "dom (client_conns (event_loop.more L')) = {p}" by simp
qed

lemma client_mark_kept:
  assumes "client_kept ts L"
  shows "client_kept ts (client_mark ch ev L)"
proof -
  let ?w = "event_loop.more L" and ?w' = "event_loop.more (client_mark ch ev L)"
  have rest: "client_rest ?w" using assms by (rule client_keptD)
  have *: "client_rest ?w' \<and> m_connected ?w' = m_connected ?w \<and> m_retryTimer ?w' = m_retryTimer ?w \<and> dom (client_conns ?w') = dom (client_conns ?w) \<and> m_connection ?w' = m_connection ?w"
  proof (cases ch)
    case (ConnectorChannel a)
    let ?k = "m_connector ?w"
    let ?k' = "?k\<lparr>m_channel_connector := setRevents ev (m_channel_connector ?k)\<rparr>"
    have "connector_ok ?k" using rest by (simp add: client_rest_def)
    then have "connector_ok ?k'" "idle_connector ?k \<Longrightarrow> idle_connector ?k'"
      by (simp_all add: connector_ok_def idle_connector_def setRevents_def)
    moreover have "m_connected ?w \<Longrightarrow> idle_connector ?k" using rest by (simp add: client_rest_def)
    ultimately have "client_rest (?w\<lparr>m_connector := ?k'\<rparr>)" using client_rest_connector[OF rest, of ?k'] by blast
    then show ?thesis by (simp add: ConnectorChannel)
  next
    case (ClientChannel p)
    show ?thesis
    proof (cases "client_conns ?w p")
      case (Some c)
      let ?c = "c\<lparr>m_channel := setRevents ev (m_channel c)\<rparr>"
      note r = client_rest_conn[OF rest Some]
      have "conn_kept ?w p ?c = conn_kept ?w p c"
        by (simp add: conn_kept_def conn_inv_def setRevents_def isReading_def isWriting_def isDisconnected_def)
      moreover have "conn_kept (?w\<lparr>client_conns := m\<rparr>) = conn_kept ?w" for m by (simp add: conn_kept_def fun_eq_iff)
      ultimately have "client_rest (?w\<lparr>client_conns := [p \<mapsto> ?c]\<rparr>)" using r by (auto simp: client_rest_def)
      then show ?thesis using r(4) by (simp add: ClientChannel)
    qed (use rest ClientChannel in simp)
  qed (use rest in simp_all)
  moreover have t: "same_timers L (client_mark ch ev L)"
    by (cases ch) (simp_all add: same_timers_def on_client_def split: option.split)
  ultimately have "client_inv (client_mark ch ev L)"
    using assms by (auto simp: client_kept_def client_inv_def retrying_def tq_inv_def entry_ok_def armed_def
        last_deadline_def last_clock_def ticking_def same_timers_def)
  with * assms show ?thesis by (simp add: client_kept_def client_held_def client_mark_frame)
qed

text \<open>The system behaves as in the runs of \<open>Client_Runs\<close>.\<close>

fun benign_client_channel :: "client_channel \<Rightarrow> bool" where
  "benign_client_channel (ClientTimers now a) \<longleftrightarrow> connect_result a \<noteq> None"
| "benign_client_channel (ConnectorChannel a) \<longleftrightarrow> benign_attempt a"
| "benign_client_channel _ \<longleftrightarrow> True"

lemma client_timers_kept:
  assumes inv: "client_kept [] L" and a: "connect_result a \<noteq> None"
    and h: "handleRead_timer (client_exec (scripted_user script) (m_tid L) a) (m_tid L) (L\<lparr>clock_now := now\<rparr>) = Inr L'"
  shows "client_kept [] L'"
proof -
  have "client_inv L" "list_all is_closure (m_pendingTasks L @ [])" using inv by (simp_all add: client_kept_def)
  from timers_due_inv[OF this(1) a h] queues_closures[OF client_timers_queues[OF h] this(2)]
  have L': "client_inv L'" "client_conns (event_loop.more L') = client_conns (event_loop.more L)"
    "list_all is_closure (m_pendingTasks L')" by simp_all
  have "client_held [] L' p" if "p \<in> dom (client_conns (event_loop.more L'))" for p
  proof -
    from inv that L'(2) have "client_held [] L p" by (simp add: client_kept_def)
    moreover have "set (m_pendingTasks L) \<subseteq> set (m_pendingTasks L')" using client_timers_queues[OF h] by (auto simp: queues_def)
    moreover have "m_connection (event_loop.more L') = m_connection (event_loop.more L)"
    proof -
      from that L'(2) obtain c where c: "client_conns (event_loop.more L') p = Some c" "client_conns (event_loop.more L) p = Some c"
        by auto
      have "client_rest (event_loop.more L')" using L'(1) by (simp add: client_inv_def)
      from client_rest_conn(5)[OF this c(1)] client_rest_conn(5)[OF client_keptD[OF inv] c(2)] show ?thesis
        by (simp add: conn_kept_def)
    qed
    ultimately show ?thesis by (auto simp: client_held_def)
  qed
  with L' show ?thesis by (simp add: client_kept_def)
qed

lemma client_connector_kept:
  assumes inv: "client_kept ts L" and p: "polling (m_channel_connector (m_connector (event_loop.more L)))"
    and a: "benign_attempt a" and h: "connector_writable (scripted_user script) g a L = Inr L'"
  shows "client_kept ts L'"
proof -
  have rest: "client_rest (event_loop.more L)" using inv by (rule client_keptD)
  with p have c: "\<not> m_connected (event_loop.more L)" by (auto simp: client_rest_def idle_connector_def)
  have "client_inv L" "list_all is_closure (m_pendingTasks L @ ts)" using inv by (simp_all add: client_kept_def)
  with connector_writable_inv[OF _ c a h] queues_closures[OF start_connector_queues[OF connector_writable_start[OF h]]]
    start_connector_rest[OF rest c _ connector_writable_start[OF h]] a
  show ?thesis by (auto simp: client_kept_def client_held_def benign_attempt_def)
qed

lemma client_handle_kept:
  assumes inv: "client_kept [] L" and ch: "benign_client_channel ch" and h: "client_handle script ch L = Inr L'"
  shows "client_kept [] L'"
  using h
proof (cases rule: client_handle_cases)
  case quiet
  from client_kept_same[OF inv quiet(1,3,4)] show ?thesis .
next
  case (timers now a)
  from client_timers_kept[OF inv _ timers(2)] ch timers(1) show ?thesis by simp
next
  case (connector a)
  from client_connector_kept[OF inv connector(2) _ connector(3)] ch connector(1) show ?thesis by simp
next
  case (ready p L1)
  let ?op = "\<lambda>(c, L). handle_conn_event (client_call (scripted_user script) (m_tid L)) (m_tid L) (m_revents (m_channel c)) (c, L)"
  have rest: "client_rest (event_loop.more L)" using inv by (rule client_keptD)
  have op: "conn_ok (holding p (event_loop.more L)) s'"
    if "conn_ok (holding p (event_loop.more L)) (c, L)" "?op (c, L) = Inr s'" for c s'
    using that by (auto intro: held.handle_conn_event_keeps)
  note only = with_client_conn_only[OF rest ready(3) op]
  have "list_all is_closure (m_pendingTasks L1 @ [])"
    by (rule queues_closures[OF with_client_conn_queues[OF client_ready_appends ready(3)]]) (use inv in \<open>simp add: client_kept_def\<close>)
  from release_conn_kept[OF only(1) this ready(2)] only(2) show ?thesis by auto
qed

text \<open>Running a task: its own closure, or the client, keeps the connection.\<close>

lemma client_run_kept:
  assumes inv: "client_kept ts L" and t: "t \<in> set ts" and h: "client_run script t L = Inr L'"
  shows "client_kept ts L'"
proof -
  have rest: "client_rest (event_loop.more L)" using inv by (rule client_keptD)
  have closure: "is_closure t" using inv t by (auto simp: client_kept_def list_all_iff)
  from h show ?thesis
  proof (cases rule: client_run_cases)
    case other
    with closure inv show ?thesis by simp
  next
    case (task u p)
    let ?op = "\<lambda>(c, L). run_net_task (client_call (scripted_user script) (m_tid L)) (m_tid L) u (c, L)"
    have op: "conn_ok (holding p (event_loop.more L)) s'"
      if "conn_ok (holding p (event_loop.more L)) (c, L)" "?op (c, L) = Inr s'" for c s'
      using that by (auto intro: held_task_keeps)
    note only = with_client_conn_only[OF rest task(3) op]
    have "client_held ts L' p"
    proof (cases "holds_reference t")
      case True
      with t task(2) show ?thesis by (auto simp: client_held_def)
    next
      case False
      from task(3) obtain c c' L1 where c: "client_conns (event_loop.more L) p = Some c" and o: "?op (c, L) = Inr (c', L1)"
        and L': "L' = on_client (\<lambda>s. s\<lparr>client_conns := (client_conns s)(p \<mapsto> c')\<rparr>) L1"
        by (auto simp: with_client_conn_def bindR_eq_Inr split: option.splits)
      have "conn_inv c" "benign (socket_of c)" using client_rest_conn(5)[OF rest c] by (simp_all add: conn_kept_def)
      with o unreferencing_task[OF task(2,1) False] have "event_loop.more L1 = event_loop.more L"
        using stopReadInLoop_unchanged[of c "m_tid L" L c' L1] startReadInLoop_unchanged[of c "m_tid L" L c' L1]
        by (auto simp: unchanged_def)
      then have "m_connection (event_loop.more L') = m_connection (event_loop.more L)" by (simp add: L')
      moreover have "set (m_pendingTasks L) \<subseteq> set (m_pendingTasks L')"
        using with_client_conn_queues[OF client_task_appends task(3)] by (auto simp: queues_def)
      moreover have "client_held ts L p" using inv c by (auto simp: client_kept_def)
      ultimately show ?thesis unfolding client_held_def by auto
    qed
    moreover have "list_all is_closure (m_pendingTasks L' @ ts)"
      by (rule queues_closures[OF with_client_conn_queues[OF client_task_appends task(3)]]) (use inv in \<open>simp add: client_kept_def\<close>)
    ultimately show ?thesis using only by (simp add: client_kept_def)
  qed
qed

lemma client_destroy_kept:
  assumes inv: "client_kept (t # ts) L" and d: "client_destroy t L = Inr L1"
  shows "client_kept ts L1"
proof (cases "holds_reference t")
  case True
  then obtain p where p: "task_target t = Some p" by (cases t rule: holds_reference.cases) auto
  have "client_inv L" "list_all is_closure (m_pendingTasks L @ ts)" using inv by (simp_all add: client_kept_def)
  moreover have "release_conn p L = Inr L1" using d True p by (simp add: client_destroy_def)
  moreover have "client_held ts L r" if "r \<in> dom (client_conns (event_loop.more L))" "r \<noteq> p" for r
  proof -
    have "client_held (t # ts) L r" using inv that(1) by (simp add: client_kept_def)
    with p that(2) show ?thesis by (auto simp: client_held_def)
  qed
  ultimately show ?thesis by (rule release_conn_kept)
next
  case False
  with d have "L1 = L" by (simp add: client_destroy_def split: option.splits)
  with inv False show ?thesis by (auto simp: client_kept_def client_held_def)
qed

interpretation kept_client: keeping_client client_mark "client_handle script" "client_run script" client_destroy
  client_kept benign_client_channel
proof
  fix t ts ch and L L' :: "'a client_loop" and ev ep
  show "client_kept [] (L\<lparr>m_poller := ep\<rparr>)" if "client_kept [] L" by (rule client_kept_same[OF that]) (simp_all add: same_timers_def)
  show "client_kept (m_pendingTasks L) (L\<lparr>m_pendingTasks := []\<rparr>)" if "client_kept [] L"
    using that client_inv_cong[of "L\<lparr>m_pendingTasks := []\<rparr>" L] by (auto simp: client_kept_def client_held_def)
  show "client_kept [] (client_mark ch ev L)" if "client_kept [] L" using that by (rule client_mark_kept)
  show "client_kept [] L'" if "client_kept [] L" "benign_client_channel ch" "client_handle script ch L = Inr L'"
    using that by (rule client_handle_kept)
  show "client_kept ts L'" if "client_kept ts L" "t \<in> set ts" "client_run script t L = Inr L'"
    using that by (rule client_run_kept)
  show "client_kept ts L'" if "client_kept (t # ts) L" "client_destroy t L = Inr L'"
    using that by (rule client_destroy_kept)
qed

section \<open>Property\<close>

text \<open>
  C11. A client on its loop neither loses nor leaks its connection. The system behaves: no new
  socket loses data by a write error, a new connection is not at the null pointer, and no
  attempt made by the retry timer connects at once (\<open>retry_connects_use_after_free\<close>); it may
  wait for its socket or fail. All calls on the connection come from the loop thread. Then
  while \<^verbatim>\<open>EventLoop::loop\<close> turns, whatever it polls, whatever becomes of the attempts and
  whatever the callbacks do, after each turn \<^verbatim>\<open>m_connection\<close> points to the connection that is
  not closed, if there is one; a connection still allocated is the one it points to or
  referred to by a pending closure, so a closed one is freed; until the client is connected,
  its retry timer is in the timer queue, not cancelled, repeating every three seconds, with
  the timer descriptor armed, and once it is connected \<^verbatim>\<open>m_retryTimer\<close> is null; and if
  closures are pending, the wakeup descriptor is readable, so the loop will run them.
\<close>

theorem client_loop_keeps:
  assumes "new_TCPClient peer fd m d = Inr w"
    and "event_loop.more L = setConnectionCallback_cl cc (setMessageCallback_cl mc (setWriteCompleteCallback_cl wc w))"
    and "tq_inv L" and "armed L" and "t \<noteq> 0" and "timer_heap L t = None"
    and "benign_attempt a" and "start_client (scripted_user script) (m_tid L) t a L = Inr L0"
    and "m_pendingTasks L0 = []" and "\<forall>ew \<in> set ews. polls_only benign_client_channel ew"
    and "loop client_mark (client_handle script) (client_run script) client_destroy (m_tid L0) ews L0 = Inr L'"
  shows "{p. \<exists>c. client_conns (event_loop.more L') p = Some c \<and> \<not> isDisconnected c}
      = (if m_connection (event_loop.more L') = 0 then {} else {m_connection (event_loop.more L')})
    \<and> dom (client_conns (event_loop.more L')) \<subseteq> {m_connection (event_loop.more L')}
        \<union> {p. \<exists>t \<in> set (m_pendingTasks L'). holds_reference t \<and> task_target t = Some p}
    \<and> (if m_connected (event_loop.more L') then m_retryTimer (event_loop.more L') = 0
       else armed L' \<and> (\<exists>when x. (when, m_retryTimer (event_loop.more L')) \<in> set (m_timers L')
        \<and> timer_heap L' (m_retryTimer (event_loop.more L')) = Some x
        \<and> m_callback x = Some (UserTask Retry) \<and> m_interval x = 3000000000 \<and> m_repeat x \<and> \<not> m_canceled x))
    \<and> (m_pendingTasks L' = [] \<or> 0 < wakeup_count L')"
proof -
  have "client_kept [] L0"
    using started_client_inv[OF assms(1,3-7,2,8)] assms(9) by (auto simp: client_kept_def client_held_def)
  moreover have w: "loop_while client_mark (client_handle script) (client_run script) client_destroy (m_tid L0) ews L0 = Inr L'"
    using assms(11) by (simp add: loop_def)
  ultimately have inv: "client_kept [] L'" using kept_client.loop_while_inv assms(10) by blast
  then have r: "client_rest (event_loop.more L')" and ci: "client_inv L'" by (simp_all add: client_kept_def client_inv_def)
  have open': "{p. \<exists>c. client_conns (event_loop.more L') p = Some c \<and> \<not> isDisconnected c}
      = (if m_connection (event_loop.more L') = 0 then {} else {m_connection (event_loop.more L')})"
    using r by (auto simp: client_rest_def conn_kept_def split: if_splits)
  have held': "dom (client_conns (event_loop.more L')) \<subseteq> {m_connection (event_loop.more L')}
      \<union> {p. \<exists>t \<in> set (m_pendingTasks L'). holds_reference t \<and> task_target t = Some p}"
  proof
    fix p
    assume "p \<in> dom (client_conns (event_loop.more L'))"
    with inv have "client_held [] L' p" by (simp add: client_kept_def)
    then show "p \<in> {m_connection (event_loop.more L')}
      \<union> {p. \<exists>t \<in> set (m_pendingTasks L'). holds_reference t \<and> task_target t = Some p}"
      by (auto simp: client_held_def)
  qed
  have timer: "if m_connected (event_loop.more L') then m_retryTimer (event_loop.more L') = 0
       else armed L' \<and> (\<exists>when x. (when, m_retryTimer (event_loop.more L')) \<in> set (m_timers L')
        \<and> timer_heap L' (m_retryTimer (event_loop.more L')) = Some x
        \<and> m_callback x = Some (UserTask Retry) \<and> m_interval x = 3000000000 \<and> m_repeat x \<and> \<not> m_canceled x)"
  proof (cases "m_connected (event_loop.more L')")
    case False
    from client_inv_timer[OF ci this] False show ?thesis by simp
  qed (use r in \<open>simp add: client_rest_def\<close>)
  have "m_pendingTasks L' \<noteq> [] \<longrightarrow> 0 < wakeup_count L'"
    by (rule client_on_loop.loop_while_wakes[OF w]) (simp add: assms(9))
  then have "m_pendingTasks L' = [] \<or> 0 < wakeup_count L'" by (simp add: disj_imp)
  with open' held' timer show ?thesis by (intro conjI)
qed

text \<open>The first attempt succeeds.\<close>

lemma client_loop_keeps_witness:
  "\<exists>w L0 L'. new_TCPClient any_address 7 None None = Inr w
     \<and> start_client (scripted_user (\<lambda>_ _. [])) 1 8 waiting_attempt (idle_loop w) = Inr L0
     \<and> loop client_mark (client_handle (\<lambda>_ _. [])) (client_run (\<lambda>_ _. [])) client_destroy 1
         [Inr [(ConnectorChannel waiting_attempt, EPOLLOUT)]] L0 = Inr (L' :: nat client_loop)
     \<and> (\<exists>c. client_conns (event_loop.more L') 16 = Some c \<and> \<not> isDisconnected c) \<and> m_retryTimer (event_loop.more L') = 0"
proof -
  let ?user = "scripted_user (\<lambda>_ _. []) :: nat client_user" and ?a = "waiting_attempt" and ?ch = "ConnectorChannel waiting_attempt"
  obtain w L0 k where w: "new_TCPClient any_address 7 None None = Inr w" "\<not> m_connected w" "m_connection w = 0"
    and more: "event_loop.more (idle_loop w :: nat client_loop)
       = setConnectionCallback_cl None (setMessageCallback_cl None (setWriteCompleteCallback_cl None w))"
    and start: "start_client ?user 1 8 ?a (idle_loop w) = Inr L0"
    and k: "event_loop.more L0 = w\<lparr>m_retryTimer := 8, m_connector := k\<rparr>" "polling (m_channel_connector k)"
    "m_events (m_channel_connector k) = EPOLLOUT" "\<not> m_tied (m_channel_connector k)"
    and t0: "timer_heap L0 8 = Some (new_Timer (Some (UserTask Retry)) 3000000000 3000000000)"
    and L0: "m_tid L0 = 1" "m_pendingTasks L0 = []" "\<not> m_quit L0" "ep_size (m_poller L0) = 128"
    by (rule sample_client_started)
  let ?k = "k\<lparr>m_channel_connector := setRevents EPOLLOUT (m_channel_connector k)\<rparr>"
  let ?L = "client_mark ?ch EPOLLOUT L0"
  have L: "event_loop.more ?L = w\<lparr>m_retryTimer := 8, m_connector := ?k\<rparr>" "m_poller ?L = m_poller L0" "m_tid ?L = 1"
    "timer_heap ?L = timer_heap L0" "m_pendingTasks ?L = []"
    using k(1) L0 by (simp_all add: on_client_def)
  have p: "poll (m_tid L0) 1 client_mark (Inr [(?ch, EPOLLOUT)]) (m_poller L0, L0, []) = Inr (m_poller L0, ?L, [?ch])"
    using L0(1,4) by (simp add: poll_def maxEvents_def)
  have same: "?L\<lparr>m_poller := m_poller L0\<rparr> = ?L" using L(2) by (metis event_loop.surjective event_loop.update_convs(3))
  obtain L1 c where h: "client_handle (\<lambda>_ _. []) ?ch ?L = Inr L1" and L1: "m_tid L1 = 1" "m_pendingTasks L1 = []"
    and c: "client_conns (event_loop.more L1) 16 = Some c" "\<not> isDisconnected c" "m_connected (event_loop.more L1)"
  proof -
    let ?cb = "\<lambda>fd local peer (k, L). bindR (newConnection ?user 1 (new_conn ?a) (new_sock ?a) fd local peer L) (\<lambda>L. Inr (k, L))"
    have "polling (m_channel_connector ?k)" "m_events (m_channel_connector ?k) \<noteq> 0"
      using k by (simp_all add: setRevents_def)
    from handleWrite_connector_waiting[OF this, of ?cb 0 any_address ?L] L(3) obtain k' ep where
      hw: "handleWrite_connector (Some ?cb) 1 0 any_address (?k, ?L) = bindR (newConnection ?user 1 16 (sample_socket [])
         (m_sockfd_connector ?k) (setAddress any_address (new_InetAddress True 0 False)) (m_peer_connector ?k) (?L\<lparr>m_poller := ep\<rparr>))
         (\<lambda>L. Inr (k', L))"
      by (auto simp: attempt_over_def)
    let ?M = "?L\<lparr>m_poller := ep\<rparr>"
    have M: "timer_heap ?M (m_retryTimer (event_loop.more ?M)) = Some (new_Timer (Some (UserTask Retry)) 3000000000 3000000000)"
      "m_retryTimer (event_loop.more ?M) \<noteq> 0" "\<not> m_canceled (new_Timer (Some (UserTask Retry)) 3000000000 3000000000)"
      "m_connection (event_loop.more ?M) = 0" "?user OnConnection = (\<lambda>u s. Inr (defaultConnectionCallback s))" "m_tid ?M = 1"
      using L t0 w(3) by (simp_all add: new_Timer_def scripted_user_def defaultConnectionCallback_def fun_eq_iff)
    obtain c L2 ep' where e: "eraseTimer (m_retryTimer (event_loop.more ?M)) ?M = Inr L2"
      and n: "newConnection ?user (m_tid ?M) 16 (sample_socket []) (m_sockfd_connector ?k)
         (setAddress any_address (new_InetAddress True 0 False)) (m_peer_connector ?k) ?M =
         Inr (on_client (\<lambda>s. s\<lparr>client_conns := (client_conns s)(16 \<mapsto> c)\<rparr>)
           ((on_client (\<lambda>s. s\<lparr>m_retryTimer := 0, m_connected := True, m_connection := 16\<rparr>) L2)\<lparr>m_poller := ep'\<rparr>))"
      and c: "m_state c = kConnected"
      by (rule newConnection_ok[where L = ?M and user = ?user and p = 16 and sock = "sample_socket []" and fd = "m_sockfd_connector ?k"
          and local = "setAddress any_address (new_InetAddress True 0 False)" and peer = "m_peer_connector ?k", OF M(1-5)]) blast
    have L2: "m_tid L2 = 1" "m_pendingTasks L2 = []"
      using e L(5) M(6) by (auto simp: eraseTimer_def bindR_eq_Inr Let_def delete_timer_def)
    have h: "client_handle (\<lambda>_ _. []) ?ch ?L = connector_writable ?user 1 ?a ?L"
      using handle_writable[of "\<lambda>L. m_channel_connector (m_connector (event_loop.more L))" ?L "m_tid ?L" "connector_writable ?user 1 ?a"]
        k L by (simp add: setRevents_def del: client_mark.simps)
    show thesis
      by (rule that[of "on_client (\<lambda>s. s\<lparr>m_connector := k'\<rparr>) (on_client (\<lambda>s. s\<lparr>client_conns := (client_conns s)(16 \<mapsto> c)\<rparr>)
           ((on_client (\<lambda>s. s\<lparr>m_retryTimer := 0, m_connected := True, m_connection := 16\<rparr>) L2)\<lparr>m_poller := ep'\<rparr>))" c])
        (use h hw n M(6) L L2 c in \<open>simp_all add: connector_writable_def with_connector_def isDisconnected_def del: client_mark.simps client_handle.simps\<close>)
  qed
  have "L1\<lparr>m_pendingTasks := []\<rparr> = L1" using L1(2) by (metis event_loop.surjective event_loop.update_convs(4))
  then have "doPendingTasks (client_run (\<lambda>_ _. [])) client_destroy L1 = Inr L1" using L1 by (simp add: doPendingTasks_def)
  then have "loop_turn client_mark (client_handle (\<lambda>_ _. [])) (client_run (\<lambda>_ _. [])) client_destroy 1 (Inr [(?ch, EPOLLOUT)]) L0 = Inr L1"
    by (simp add: loop_turn_def p same h L1(1) del: client_handle.simps client_mark.simps)
  then have run: "loop client_mark (client_handle (\<lambda>_ _. [])) (client_run (\<lambda>_ _. [])) client_destroy (m_tid L0) [Inr [(?ch, EPOLLOUT)]] L0 = Inr L1"
    using L0(1,3) by (simp add: loop_def del: client_handle.simps client_mark.simps)
  have b: "benign_attempt ?a" "\<forall>ew \<in> set [Inr [(?ch, EPOLLOUT)]]. polls_only benign_client_channel ew"
    by (simp_all add: polls_only_def benign_attempt_def benign_def sample_socket_def)
  have idle: "tq_inv (idle_loop w :: nat client_loop)" "armed (idle_loop w :: nat client_loop)" "timer_heap (idle_loop w :: nat client_loop) 8 = None"
    "start_client ?user (m_tid (idle_loop w :: nat client_loop)) 8 ?a (idle_loop w) = Inr L0"
    using start by (simp_all add: idle_loop_def tq_inv_def armed_def)
  have "(8 :: nat) \<noteq> 0" by simp
  from client_loop_keeps[OF w(1) more idle(1,2) this idle(3) b(1) idle(4) L0(2) b(2) run] c(3)
  have "m_retryTimer (event_loop.more L1) = 0" by simp
  with w(1) start run L0(1) c show ?thesis by metis
qed

end
