(* ===== verification/Echo_Client.thy ===== *)
theory Echo_Client
  imports Tcp_Connection
begin

text \<open>
  The echo client of \<^verbatim>\<open>src/test/EchoClient.cpp\<close>: a thread that reads lines from standard
  input, sends each on the connection and then shuts the connection down, while the loop
  thread prints what comes back. The lines are an argument, what is printed is a result. The
  property composes the thread, the closures it queues and the connection: the lines reach
  the stream completely and in order, before the end of the stream is sent.
\<close>

section \<open>The program\<close>

text \<open>\<open>u\<close> stands for \<^verbatim>\<open>UserInput::onMessage\<close> bound to the object.\<close>

definition new_UserInput :: "'u \<Rightarrow> 'u tcp_connection \<Rightarrow> 'u tcp_connection" where
  "new_UserInput u c = setMessageCallback (Some u) c"

definition user_onMessage :: "'u tcp_connection \<Rightarrow> (bytes \<times> 'u tcp_connection) res" where
  "user_onMessage c =
     bindR (retrieveAllAsString (m_inputBuffer c)) (\<lambda>(str, ib).
     Inr (str @ [10], c\<lparr>m_inputBuffer := ib\<rparr>))"

fun user_run :: "tid \<Rightarrow> bytes list \<Rightarrow> ('u, 'w) conn_loop \<Rightarrow> ('u, 'w) conn_loop res" where
  "user_run gettid [] s = shutdown gettid s"
| "user_run gettid (line # lines) s = bindR (send gettid line s) (user_run gettid lines)"

text \<open>
  \<^verbatim>\<open>EchoBench::onConnection\<close>: whether a thread with a \<open>UserInput\<close> is started; otherwise the
  loop is told to quit.
\<close>

definition bench_onConnection :: "tid \<Rightarrow> ('u, 'w) conn_loop \<Rightarrow> (bool \<times> ('u, 'w) conn_loop) res" where
  "bench_onConnection gettid = (\<lambda>(c, L).
     if \<not> isDisconnected c then Inr (True, (c, L))
     else bindR (quit gettid L) (\<lambda>L. Inr (False, (c, L))))"

section \<open>Room in the output buffer\<close>

lemma ensureWriteableBytes_writer:
  assumes inv: "buf_inv b" and ok: "ensureWriteableBytes b n = Inr b'"
  shows "m_writerIndex b' \<le> m_writerIndex b"
proof -
  have "size_add kCheapPrepend (readableBytes b) \<le> kCheapPrepend + readableBytes b" by (simp add: size_add_def)
  moreover have "readableBytes b = m_writerIndex b - m_readerIndex b" by (rule readable_eq[OF inv])
  ultimately show ?thesis
    using ok buf_invD[OF inv] by (auto simp: ensureWriteableBytes_def makeSpace_def res_iffs Let_def split: if_splits)
qed

lemma append_Buffer_writer:
  assumes inv: "buf_inv b" and ok: "append_Buffer b data = Inr b'"
  shows "m_writerIndex b' \<le> m_writerIndex b + length data"
proof -
  from ok obtain b1 where e: "ensureWriteableBytes b (length data) = Inr b1"
    and b': "m_writerIndex b' = size_add (m_writerIndex b1) (length data)"
    by (auto simp: append_Buffer_def hasWritten_def res_iffs)
  have "size_add (m_writerIndex b1) (length data) \<le> m_writerIndex b1 + length data" by (simp add: size_add_def)
  with b' ensureWriteableBytes_writer[OF inv e] show ?thesis by simp
qed

definition uses_room :: "nat \<Rightarrow> ('u, 'w) conn_loop \<Rightarrow> ('u, 'w) conn_loop \<Rightarrow> bool" where
  "uses_room n s s' \<longleftrightarrow> m_writerIndex (m_outputBuffer (fst s')) \<le> m_writerIndex (m_outputBuffer (fst s)) + n
     \<and> shut_wr (socket_of (fst s')) = shut_wr (socket_of (fst s)) \<and> m_tid (snd s') = m_tid (snd s)"

lemma sock_write_shut: "sock_write data s = (r, s') \<Longrightarrow> shut_wr s' = shut_wr s"
  by (auto simp: sock_write_def Let_def split: list.splits write_result.splits)

lemma send_rest_room:
  assumes inv: "buf_inv (m_outputBuffer c)" and ok: "send_rest g rest (c, L) = Inr (c', L')"
  shows "uses_room (length rest) (c, L) (c', L')"
proof -
  have "\<exists>L1. m_tid L1 = m_tid L \<and> bindR (append_Buffer (m_outputBuffer c) rest)
         (\<lambda>ob. conn_channel enableWrite g (c\<lparr>m_outputBuffer := ob\<rparr>, L1)) = Inr (c', L')"
    by (intro exI conjI[rotated], rule ok[unfolded send_rest_def Let_def split])
      (simp add: queue_callback_frame)
  then obtain ob L1 where ob: "append_Buffer (m_outputBuffer c) rest = Inr ob" and L1: "m_tid L1 = m_tid L"
    and ch: "conn_channel enableWrite g (c\<lparr>m_outputBuffer := ob\<rparr>, L1) = Inr (c', L')"
    unfolding bindR_eq_Inr by blast
  from conn_channel_eq_Inr(3,4)[OF ch channel_ops_set_events(2)] obtain chan ep where
    "c' = c\<lparr>m_outputBuffer := ob, m_channel := chan\<rparr>" "L' = L1\<lparr>m_poller := ep\<rparr>" by auto
  with append_Buffer_writer[OF inv ob] L1 show ?thesis by (simp add: uses_room_def)
qed

lemma sendInLoop_room:
  assumes inv: "conn_inv c" and ok: "sendInLoop g data (c, L) = Inr (c', L')"
  shows "uses_room (length data) (c, L) (c', L')"
proof -
  have bi: "buf_inv (m_outputBuffer c)" using inv by (simp add: conn_inv_def)
  have rest: "uses_room (length data) (c, L) (c', L')"
    if "send_rest g rest (c\<lparr>socket_of := s\<rparr>, L) = Inr (c', L')" "length rest \<le> length data"
      "shut_wr s = shut_wr (socket_of c)" for rest s
    using send_rest_room[OF _ that(1)] bi that(2,3) by (auto simp: uses_room_def)
  have "c\<lparr>socket_of := socket_of c\<rparr> = c" by simp
  note direct = rest[of data "socket_of c", unfolded this]
  show ?thesis
  proof (cases "m_state c = kDisconnected \<or> isWriting (m_channel c)")
    case True
    with ok direct show ?thesis
      by (auto simp: sendInLoop_def assertInLoopThread_eq_Inr uses_room_def split: if_splits)
  next
    case False
    obtain r s where w: "sock_write data (socket_of c) = (r, s)" by fastforce
    from ok False w have "c' = c\<lparr>socket_of := s\<rparr> \<and> m_tid L' = m_tid L
        \<or> (\<exists>rest. send_rest g rest (c\<lparr>socket_of := s\<rparr>, L) = Inr (c', L') \<and> length rest \<le> length data)"
      by (cases r) (auto simp: sendInLoop_def assertInLoopThread_eq_Inr assertR_eq_Inr Let_def
          queue_callback_frame split: if_splits)
    then show ?thesis
    proof
      assume "c' = c\<lparr>socket_of := s\<rparr> \<and> m_tid L' = m_tid L"
      with sock_write_shut[OF w] show ?thesis by (simp add: uses_room_def)
    next
      assume "\<exists>rest. send_rest g rest (c\<lparr>socket_of := s\<rparr>, L) = Inr (c', L') \<and> length rest \<le> length data"
      with rest sock_write_shut[OF w] show ?thesis by blast
    qed
  qed
qed

section \<open>The queued closures\<close>

lemma run_sends:
  assumes "conn_inv c" and "benign (socket_of c)" and "m_state c \<noteq> kDisconnected"
    and "m_writerIndex (m_outputBuffer c) + length (concat lines) \<le> vec_max_size"
  shows "\<exists>c' L'. run_all (map (run_net_task call (m_tid L)) (map (SendInLoop p) lines)) (c, L) = Inr (c', L')
    \<and> conn_inv c' \<and> benign (socket_of c') \<and> m_state c' = m_state c \<and> stream c' = stream c @ concat lines
    \<and> shut_wr (socket_of c') = shut_wr (socket_of c) \<and> m_tid L' = m_tid L"
  using assms
proof (induction lines arbitrary: c L)
  case (Cons line lines)
  note inv = Cons.prems(1,2)
  have fits: "length line \<le> vec_max_size" "append_fits (m_outputBuffer c) (length line)"
    using Cons.prems(4) by (simp_all add: append_fits_def)
  from sendInLoop_ok[OF inv(1) Cons.prems(3) fits, of L] obtain c1 L1 where
    s: "sendInLoop (m_tid L) line (c, L) = Inr (c1, L1)" by blast
  note r = sendInLoop_room[OF inv(1) s] and i = sendInLoop_Inr[OF inv s]
  have tid: "m_tid L1 = m_tid L" using r by (simp add: uses_room_def)
  have "m_writerIndex (m_outputBuffer c1) + length (concat lines) \<le> vec_max_size"
    using r Cons.prems(4) by (simp add: uses_room_def)
  moreover have "conn_inv c1" "benign (socket_of c1)" "m_state c1 \<noteq> kDisconnected" using i Cons.prems(3) by simp_all
  ultimately obtain c2 L2 where "run_all (map (run_net_task call (m_tid L1)) (map (SendInLoop p) lines)) (c1, L1) = Inr (c2, L2)"
    "conn_inv c2" "benign (socket_of c2)" "m_state c2 = m_state c1" "stream c2 = stream c1 @ concat lines"
    "shut_wr (socket_of c2) = shut_wr (socket_of c1)" "m_tid L2 = m_tid L1"
    using Cons.IH[of c1 L1] by blast
  with s r i Cons.prems(3) tid show ?case by (simp add: uses_room_def)
qed simp

text \<open>The thread itself only queues.\<close>

definition queue_tasks :: "'u net_task list \<Rightarrow> ('u net_task, 'w) event_loop_scheme \<Rightarrow> ('u net_task, 'w) event_loop_scheme" where
  "queue_tasks ts L = fold (\<lambda>t. queueInLoop (Closure t)) ts L"

lemma queue_tasks_frame:
  "m_pendingTasks (queue_tasks ts L) = m_pendingTasks L @ map Closure ts" "m_tid (queue_tasks ts L) = m_tid L"
  "m_poller (queue_tasks ts L) = m_poller L" "event_loop.more (queue_tasks ts L) = event_loop.more L"
  by (induction ts arbitrary: L, simp_all add: queue_tasks_def queueInLoop_def wakeup_def)+

definition user_tasks :: "addr \<Rightarrow> bytes list \<Rightarrow> 'u net_task list" where
  "user_tasks p lines = map (SendInLoop p) lines @ [ShutdownInLoop p]"

lemma user_run_queues:
  assumes "m_state c = kConnected" and "g \<noteq> m_tid L"
  shows "user_run g lines (c, L) = Inr (c\<lparr>m_state := kDisconnecting\<rparr>, queue_tasks (user_tasks (self c) lines) L)"
  using assms
proof (induction lines arbitrary: L)
  case Nil
  then show ?case
    by (simp add: user_tasks_def queue_tasks_def shutdown_def shutdown_exchange_def stateAtomicGetAndSet_def
        conn_runInLoop_def isInLoopThread_def)
next
  case (Cons line lines)
  let ?L = "queueInLoop (Closure (SendInLoop (self c) line)) L"
  have "g \<noteq> m_tid ?L" using Cons.prems(2) by (simp add: queueInLoop_def wakeup_def)
  from Cons.IH[OF Cons.prems(1) this] Cons.prems show ?case
    by (simp add: send_def conn_runInLoop_def isInLoopThread_def user_tasks_def queue_tasks_def)
qed

section \<open>Property\<close>

text \<open>
  C17. The echo client's input arrives: the thread reading lines never touches the socket, it
  queues one closure per line and one for the shutdown; when the loop runs them, all bytes of
  all lines follow what was already in the stream, in order, although the connection is
  by then \<^verbatim>\<open>kDisconnecting\<close>; and the end of the stream is sent after them exactly if nothing
  is left waiting for \<^verbatim>\<open>EPOLLOUT\<close>.
\<close>

theorem user_input_arrives:
  assumes "conn_inv c" and "benign (socket_of c)" and "m_state c = kConnected" and "\<not> shut_wr (socket_of c)"
    and "m_pendingTasks L = []" and "g \<noteq> m_tid L"
    and "m_writerIndex (m_outputBuffer c) + length (concat lines) \<le> vec_max_size"
  shows "\<exists>c1 L1 c2 L2. user_run g lines (c, L) = Inr (c1, L1) \<and> socket_of c1 = socket_of c
    \<and> m_pendingTasks L1 = map Closure (user_tasks (self c) lines)
    \<and> run_all (map (run_net_task call (m_tid L)) (user_tasks (self c) lines)) (c1, L1\<lparr>m_pendingTasks := []\<rparr>) = Inr (c2, L2)
    \<and> sent (socket_of c2) @ contents (m_outputBuffer c2)
        = sent (socket_of c) @ contents (m_outputBuffer c) @ concat lines
    \<and> m_state c2 = kDisconnecting
    \<and> (shut_wr (socket_of c2) \<longleftrightarrow> \<not> isWriting (m_channel c2))
    \<and> (shut_wr (socket_of c2) \<longrightarrow> contents (m_outputBuffer c2) = [])"
proof -
  let ?c = "c\<lparr>m_state := kDisconnecting\<rparr>" and ?L = "(queue_tasks (user_tasks (self c) lines) L)\<lparr>m_pendingTasks := []\<rparr>"
  have tid: "m_tid ?L = m_tid L" by (simp add: queue_tasks_frame)
  have "conn_inv ?c" "benign (socket_of ?c)" "m_state ?c \<noteq> kDisconnected"
    "m_writerIndex (m_outputBuffer ?c) + length (concat lines) \<le> vec_max_size"
    using assms(1-3,7) by (simp_all add: conn_inv_def)
  from run_sends[OF this, of call ?L "self c"] obtain c1 L1 where
    r: "run_all (map (run_net_task call (m_tid L)) (map (SendInLoop (self c)) lines)) (?c, ?L) = Inr (c1, L1)"
    and c1: "conn_inv c1" "m_state c1 = kDisconnecting" "stream c1 = stream c @ concat lines"
      "\<not> shut_wr (socket_of c1)" "m_tid L1 = m_tid L"
    using assms(4) unfolding tid by (auto simp: stream_def)
  let ?c2 = "if isWriting (m_channel c1) then c1 else c1\<lparr>socket_of := (socket_of c1)\<lparr>shut_wr := True\<rparr>\<rparr>"
  have s: "run_net_task call (m_tid L) (ShutdownInLoop (self c)) (c1, L1) = Inr (?c2, L1)"
    using c1(2,5) by (simp add: shutdownInLoop_def)
  have "run_all (map (run_net_task call (m_tid L)) (user_tasks (self c) lines)) (?c, ?L) = Inr (?c2, L1)"
    using r s by (simp add: user_tasks_def run_all_append del: run_net_task.simps)
  moreover have "user_run g lines (c, L) = Inr (?c, queue_tasks (user_tasks (self c) lines) L)"
    by (rule user_run_queues[OF assms(3,6)])
  moreover have "m_pendingTasks (queue_tasks (user_tasks (self c) lines) L) = map Closure (user_tasks (self c) lines)"
    by (simp add: queue_tasks_frame assms(5))
  ultimately show ?thesis
    using c1 by (intro exI[of _ ?c] exI[of _ "queue_tasks (user_tasks (self c) lines) L"] exI[of _ ?c2] exI[of _ L1])
      (auto simp: stream_def conn_inv_def)
qed

definition fresh_conn :: "write_result list \<Rightarrow> nat tcp_connection" where
  "fresh_conn ws = (waiting_conn kConnected ws)\<lparr>m_outputBuffer := empty_buffer kInitialSize,
     m_channel := (new_Channel 9)\<lparr>m_events := EPOLLIN OR EPOLLPRI, polling := True\<rparr>\<rparr>"

lemma user_input_arrives_witness:
  "\<exists>c1 L1 c2 L2. user_run 2 [[1, 2], [], [3]] (fresh_conn [Wrote 1, Wrote 1], idle_loop ()) = Inr (c1, L1)
     \<and> run_all (map (run_net_task (\<lambda>_ _. Inr) 1) (user_tasks 8 [[1, 2], [], [3]])) (c1, L1\<lparr>m_pendingTasks := []\<rparr>) = Inr (c2, L2)
     \<and> sent (socket_of c2) @ contents (m_outputBuffer c2) = [1, 2, 3]"
proof -
  let ?c = "fresh_conn [Wrote 1, Wrote 1]" and ?L = "idle_loop () :: (nat net_task, unit) event_loop_scheme"
  have out: "m_outputBuffer ?c = empty_buffer kInitialSize" by (simp add: fresh_conn_def)
  have e: "buf_inv (empty_buffer kInitialSize)" "contents (empty_buffer kInitialSize) = []"
    using empty_buffer_ok[of kInitialSize] by (simp_all add: kInitialSize_def vec_max_size_def)
  have s: "self ?c = 8" "sent (socket_of ?c) = []" "m_tid ?L = 1"
    by (simp_all add: fresh_conn_def waiting_conn_def sample_socket_def idle_loop_def)
  have "conn_inv ?c"
    using waiting_conn_inv[of kConnected "[Wrote 1, Wrote 1]"] e
    by (simp add: fresh_conn_def conn_inv_def new_Channel_def isReading_def isWriting_def epoll_bits)
  moreover have "benign (socket_of ?c)" "m_state ?c = kConnected" "\<not> shut_wr (socket_of ?c)"
    by (simp_all add: fresh_conn_def waiting_conn_def sample_socket_def benign_def)
  moreover have "m_pendingTasks ?L = []" "2 \<noteq> m_tid ?L" by (simp_all add: idle_loop_def)
  moreover have "m_writerIndex (m_outputBuffer ?c) + length (concat [[1, 2], [], [3 :: byte]]) \<le> vec_max_size"
    unfolding out by (simp add: empty_buffer_def kCheapPrepend_def vec_max_size_def)
  ultimately show ?thesis
    using user_input_arrives[of ?c ?L 2 "[[1, 2], [], [3]]" "\<lambda>_ _. Inr"] unfolding out e(2) s by auto
qed

end
