(* ===== verification/Server_Threads.thy ===== *)
theory Server_Threads
  imports Prelude
begin

text \<open>
  The class \<^verbatim>\<open>TCPServer\<close> (\<^verbatim>\<open>TCPServer.hpp\<close>, \<^verbatim>\<open>TCPServer.cpp\<close>) as a step relation: the
  thread of the main loop, which starts and destroys the server, and the threads it creates,
  each with a program counter. The mutex is taken by the main thread only. The servers of the
  threads are \<open>TCPServerSingle\<close>s (theory \<open>Tcp_Server\<close>), configured with the same callbacks.
\<close>

section \<open>State\<close>

text \<open>
  The main thread: between calls; in \<^verbatim>\<open>startInLoop\<close>, with the loop variable \<open>i\<close>, at the test
  of the \<^verbatim>\<open>for\<close>, acquiring the mutex, at the test of the inner loop, about to wait, waiting,
  woken, about to keep the thread; in the destructor at the loop with index \<open>i\<close>, joining the
  thread at position \<open>k\<close>, about to destroy the member \<^verbatim>\<open>m_tcpServerSingle\<close>, gone.
  \<open>MOutOfBounds\<close> is an access outside of \<^verbatim>\<open>m_eventLoopList\<close>; \<open>MAborted\<close> is a failed assertion
  of any thread, which ends the process.
\<close>

datatype main_pc = MIdle | MFor nat | MLock nat | MCheck nat | MPre nat | MWaiting nat | MWoken nat | MKeep nat
  | MQuit nat | MJoin nat | MMember | MGone | MOutOfBounds | MAborted

text \<open>
  A thread: not there, constructing its loop and server, about to publish the loop, about to
  notify, about to call the initialisation callback, about to start its server, looping,
  about to destroy the server and the loop on its stack, returned.
\<close>

datatype worker_pc = KNone | KMake | KPublish | KNotify | KInit | KListen | KLoop | KDestroy | KDone

text \<open>
  A pointer to a loop is \<open>None\<close> or the number of the thread that owns it. A thread in
  \<open>m_threadPtrList\<close> is its number. The threads' program counters and the flags \<^verbatim>\<open>m_quit\<close> of
  their loops are functions of the number; \<open>init_calls\<close> and \<open>listening\<close> record the calls of
  the initialisation callback, with the callback, and the servers started. User callbacks are
  numbers; \<open>configured\<close> holds the callbacks for connections, messages and completed writes
  that a server was given before its start. \<open>open_conns\<close>: the server of that number, 0 for
  \<^verbatim>\<open>m_tcpServerSingle\<close>, has a connection that is not closed and that nothing but the server and
  its loop refers to. \<open>start_queued\<close>: the closure of \<^verbatim>\<open>start\<close>, called by
  another thread, is pending in the main loop. If it runs after the destructor,
  \<open>freed_server_used\<close> is set.
\<close>

type_synonym server_callbacks = "nat option \<times> nat option \<times> nat option"

record tcp_server =
  m_threadInitCallback_ts :: "nat option"
  m_connectionCallback_ts :: "nat option"
  m_messageCallback_ts :: "nat option"
  m_writeCompleteCallback_ts :: "nat option"
  m_started_ts :: bool
  m_threadNum :: nat
  m_eventLoopList :: "nat option list"
  m_threadPtrList :: "nat list"
  m_locked_ts :: bool
  main :: main_pc
  workers :: "nat \<Rightarrow> worker_pc"
  quits :: "nat \<Rightarrow> bool"
  init_calls :: "(nat option \<times> nat) list"
  listening :: "nat list"
  configured :: "nat \<Rightarrow> server_callbacks option"
  open_conns :: "nat \<Rightarrow> bool"
  start_queued :: bool
  freed_server_used :: bool

section \<open>Sequential operations\<close>

definition new_TCPServer :: tcp_server where
  "new_TCPServer = \<lparr>m_threadInitCallback_ts = None, m_connectionCallback_ts = None, m_messageCallback_ts = None,
     m_writeCompleteCallback_ts = None, m_started_ts = False, m_threadNum = 1, m_eventLoopList = [], m_threadPtrList = [],
     m_locked_ts = False, main = MIdle, workers = (\<lambda>_. KNone), quits = (\<lambda>_. False), init_calls = [], listening = [],
     configured = (\<lambda>_. None), open_conns = (\<lambda>_. False), start_queued = False, freed_server_used = False\<rparr>"

definition setThreadInitCallback_ts :: "nat option \<Rightarrow> tcp_server \<Rightarrow> tcp_server" where
  "setThreadInitCallback_ts cb s = s\<lparr>m_threadInitCallback_ts := cb\<rparr>"

definition setConnectionCallback_ts :: "nat option \<Rightarrow> tcp_server \<Rightarrow> tcp_server" where
  "setConnectionCallback_ts cb s = s\<lparr>m_connectionCallback_ts := cb\<rparr>"

definition setMessageCallback_ts :: "nat option \<Rightarrow> tcp_server \<Rightarrow> tcp_server" where
  "setMessageCallback_ts cb s = s\<lparr>m_messageCallback_ts := cb\<rparr>"

definition setWriteCompleteCallback_ts :: "nat option \<Rightarrow> tcp_server \<Rightarrow> tcp_server" where
  "setWriteCompleteCallback_ts cb s = s\<lparr>m_writeCompleteCallback_ts := cb\<rparr>"

definition setThreadNum :: "nat \<Rightarrow> tcp_server \<Rightarrow> tcp_server" where
  "setThreadNum n s =
     (if n > 0 \<and> \<not> m_started_ts s
      then s\<lparr>m_threadNum := n, m_eventLoopList := take n (m_eventLoopList s) @ replicate (n - length (m_eventLoopList s)) None\<rparr>
      else s\<lparr>main := MAborted\<rparr>)"

text \<open>What \<^verbatim>\<open>startInLoop\<close> and \<^verbatim>\<open>runInThread\<close> do with a server before they start it.\<close>

definition configure :: "nat \<Rightarrow> tcp_server \<Rightarrow> tcp_server" where
  "configure i s = s\<lparr>configured := (configured s)
     (i \<mapsto> (m_connectionCallback_ts s, m_messageCallback_ts s, m_writeCompleteCallback_ts s))\<rparr>"

text \<open>
  \<^verbatim>\<open>startInLoop\<close> up to its loop. \<^verbatim>\<open>start\<close> in the loop thread runs it at once; called by
  another thread it queues it; all but the first call return.
\<close>

definition startInLoop_begin :: "tcp_server \<Rightarrow> tcp_server" where
  "startInLoop_begin s = (let s = configure 0 s in
     s\<lparr>init_calls := init_calls s @ [(m_threadInitCallback_ts s, 0)], listening := listening s @ [0], main := MFor 1\<rparr>)"

definition start_ts :: "tcp_server \<Rightarrow> tcp_server" where
  "start_ts s = (if m_started_ts s then s else startInLoop_begin (s\<lparr>m_started_ts := True\<rparr>))"

definition start_elsewhere :: "tcp_server \<Rightarrow> tcp_server" where
  "start_elsewhere s = (if m_started_ts s then s else s\<lparr>m_started_ts := True, start_queued := True\<rparr>)"

lemmas start_defs = start_ts_def startInLoop_begin_def configure_def

text \<open>The main loop runs the queued closure.\<close>

definition run_start :: "tcp_server \<Rightarrow> tcp_server option" where
  "run_start s =
     (if \<not> start_queued s then None
      else case main s of
             MIdle \<Rightarrow> Some (startInLoop_begin (s\<lparr>start_queued := False\<rparr>))
           | MGone \<Rightarrow> if freed_server_used s then None else Some (s\<lparr>freed_server_used := True\<rparr>)
           | _ \<Rightarrow> None)"

section \<open>Steps\<close>

text \<open>The loop of \<^verbatim>\<open>startInLoop\<close>. No result means that the thread is blocked.\<close>

definition startInLoop_step :: "tcp_server \<Rightarrow> tcp_server option" where
  "startInLoop_step s =
     (case main s of
        MFor i \<Rightarrow> Some (if i < m_threadNum s then s\<lparr>workers := (workers s)(i := KMake), main := MLock i\<rparr>
                       else s\<lparr>main := MIdle\<rparr>)
      | MLock i \<Rightarrow> if \<not> m_locked_ts s then Some (s\<lparr>m_locked_ts := True, main := MCheck i\<rparr>) else None
      | MCheck i \<Rightarrow> Some (if i < length (m_eventLoopList s)
                        then (if m_eventLoopList s ! i = None then s\<lparr>main := MPre i\<rparr>
                              else s\<lparr>m_locked_ts := False, main := MKeep i\<rparr>)
                        else s\<lparr>main := MOutOfBounds\<rparr>)
      | MPre i \<Rightarrow> Some (s\<lparr>m_locked_ts := False, main := MWaiting i\<rparr>)
      | MWoken i \<Rightarrow> if \<not> m_locked_ts s then Some (s\<lparr>m_locked_ts := True, main := MCheck i\<rparr>) else None
      | MKeep i \<Rightarrow> Some (s\<lparr>m_threadPtrList := m_threadPtrList s @ [i], main := MFor (i + 1)\<rparr>)
      | _ \<Rightarrow> None)"

text \<open>
  The destructor: every loop is told to quit, then every thread is joined, then the member
  \<^verbatim>\<open>m_tcpServerSingle\<close> is destroyed: \<^verbatim>\<open>~Acceptor\<close> aborts if the server was not started, and
  \<^verbatim>\<open>~TCPConnection\<close> if a connection is open (\<open>destroy_unstarted_server_aborts\<close> and
  \<open>destroy_server_aborts\<close> of \<open>Tcp_Server\<close>).
\<close>

definition destroy_step :: "tcp_server \<Rightarrow> tcp_server option" where
  "destroy_step s =
     (case main s of
        MQuit i \<Rightarrow> Some (if i < length (m_eventLoopList s)
                       then (case m_eventLoopList s ! i of
                               None \<Rightarrow> s\<lparr>main := MQuit (i + 1)\<rparr>
                             | Some p \<Rightarrow> if quits s p then s\<lparr>main := MAborted\<rparr>
                                         else s\<lparr>quits := (quits s)(p := True), main := MQuit (i + 1)\<rparr>)
                       else s\<lparr>main := MJoin 0\<rparr>)
      | MJoin k \<Rightarrow> if k < length (m_threadPtrList s)
                  then (if workers s (m_threadPtrList s ! k) = KDone then Some (s\<lparr>main := MJoin (k + 1)\<rparr>) else None)
                  else Some (s\<lparr>main := MMember\<rparr>)
      | MMember \<Rightarrow> Some (if 0 \<notin> set (listening s) \<or> open_conns s 0 then s\<lparr>main := MAborted\<rparr> else s\<lparr>main := MGone\<rparr>)
      | _ \<Rightarrow> None)"

definition main_step :: "tcp_server \<Rightarrow> tcp_server option" where
  "main_step s = (case main s of MQuit i \<Rightarrow> destroy_step s | MJoin k \<Rightarrow> destroy_step s | MMember \<Rightarrow> destroy_step s
    | _ \<Rightarrow> startInLoop_step s)"

lemmas main_defs = main_step_def startInLoop_step_def destroy_step_def

definition notify_main :: "tcp_server \<Rightarrow> tcp_server" where
  "notify_main s = (case main s of MWaiting i \<Rightarrow> s\<lparr>main := MWoken i\<rparr> | _ \<Rightarrow> s)"

text \<open>
  \<^verbatim>\<open>runInThread(i)\<close>: the mutex is not taken. When the loop returns, the server and the loop,
  which are on the stack, are destroyed, with the connections of the server.
\<close>

definition runInThread_ts :: "nat \<Rightarrow> tcp_server \<Rightarrow> tcp_server option" where
  "runInThread_ts i s =
     (case workers s i of
        KMake \<Rightarrow> Some (configure i (s\<lparr>workers := (workers s)(i := KPublish)\<rparr>))
      | KPublish \<Rightarrow> Some (if i < length (m_eventLoopList s)
                        then s\<lparr>m_eventLoopList := (m_eventLoopList s)[i := Some i], workers := (workers s)(i := KNotify)\<rparr>
                        else s\<lparr>main := MOutOfBounds\<rparr>)
      | KNotify \<Rightarrow> Some (notify_main (s\<lparr>workers := (workers s)(i := KInit)\<rparr>))
      | KInit \<Rightarrow> Some (s\<lparr>init_calls := init_calls s @ [(m_threadInitCallback_ts s, i)], workers := (workers s)(i := KListen)\<rparr>)
      | KListen \<Rightarrow> Some (s\<lparr>listening := listening s @ [i], workers := (workers s)(i := KLoop)\<rparr>)
      | KLoop \<Rightarrow> if quits s i then Some (s\<lparr>workers := (workers s)(i := KDestroy)\<rparr>) else None
      | KDestroy \<Rightarrow> Some (if open_conns s i then s\<lparr>main := MAborted\<rparr> else s\<lparr>workers := (workers s)(i := KDone)\<rparr>)
      | _ \<Rightarrow> None)"

text \<open>
  The loop thread calls between its other work; the setters are called by it as well. A thread
  that calls \<^verbatim>\<open>start\<close> owns a reference to the server, so not while it is destroyed.
\<close>

datatype callback_member = ThreadInitCb | ConnectionCb | MessageCb | WriteCompleteCb

fun set_callback :: "callback_member \<Rightarrow> nat option \<Rightarrow> tcp_server \<Rightarrow> tcp_server" where
  "set_callback ThreadInitCb = setThreadInitCallback_ts"
| "set_callback ConnectionCb = setConnectionCallback_ts"
| "set_callback MessageCb = setMessageCallback_ts"
| "set_callback WriteCompleteCb = setWriteCompleteCallback_ts"

definition destroying :: "main_pc \<Rightarrow> bool" where
  "destroying pc \<longleftrightarrow> (case pc of MQuit i \<Rightarrow> True | MJoin k \<Rightarrow> True | MMember \<Rightarrow> True
    | MGone \<Rightarrow> True | _ \<Rightarrow> False)"

text \<open>A loop whose server was started opens and closes connections as events tell it to.\<close>

definition connections_change :: "nat \<Rightarrow> bool \<Rightarrow> tcp_server \<Rightarrow> tcp_server option" where
  "connections_change i b s =
     (if if i = 0 then main s = MIdle \<and> 0 \<in> set (listening s) else workers s i = KLoop \<and> main s \<noteq> MAborted
      then Some (s\<lparr>open_conns := (open_conns s)(i := b)\<rparr>) else None)"

datatype server_choice = DoMain | DoWorker nat | CallSetThreadNum nat | CallSet callback_member "nat option"
  | CallStart | StartElsewhere | RunStart | CallDestroy | WakeSpuriously
  | ConnectionsChange nat bool

fun server_do :: "server_choice \<Rightarrow> tcp_server \<Rightarrow> tcp_server option" where
  "server_do DoMain s = main_step s"
| "server_do (DoWorker i) s = (if main s = MAborted then None else runInThread_ts i s)"
| "server_do (CallSetThreadNum n) s = (if main s = MIdle then Some (setThreadNum n s) else None)"
| "server_do (CallSet m cb) s = (if main s = MIdle then Some (set_callback m cb s) else None)"
| "server_do StartElsewhere s = (if destroying (main s) \<or> main s = MAborted then None else Some (start_elsewhere s))"
| "server_do (ConnectionsChange i b) s = connections_change i b s"
| "server_do RunStart s = run_start s"
| "server_do CallStart s = (if main s = MIdle then Some (start_ts s) else None)"
| "server_do CallDestroy s = (if main s = MIdle then Some (s\<lparr>main := MQuit 0\<rparr>) else None)"
| "server_do WakeSpuriously s = (case main s of MWaiting i \<Rightarrow> Some (s\<lparr>main := MWoken i\<rparr>) | _ \<Rightarrow> None)"

inductive ts_step :: "bool \<Rightarrow> tcp_server \<Rightarrow> tcp_server \<Rightarrow> bool" for spurious :: bool where
  ts_step: "server_do ch s = Some s' \<Longrightarrow> ch = WakeSpuriously \<longrightarrow> spurious \<Longrightarrow> ts_step spurious s s'"

inductive_cases ts_stepE: "ts_step spurious s s'"

definition ts_init :: "tcp_server \<Rightarrow> bool" where
  "ts_init s \<longleftrightarrow> s = new_TCPServer"

fun ts_run :: "server_choice list \<Rightarrow> tcp_server \<Rightarrow> tcp_server option" where
  "ts_run [] s = Some s"
| "ts_run (ch # chs) s = (case server_do ch s of None \<Rightarrow> None | Some s' \<Rightarrow> ts_run chs s')"

lemma ts_run_reach:
  "ts_run chs s = Some s' \<Longrightarrow> WakeSpuriously \<in> set chs \<longrightarrow> sp \<Longrightarrow> reach ts_init (ts_step sp) s
     \<Longrightarrow> reach ts_init (ts_step sp) s'"
proof (induction chs arbitrary: s)
  case (Cons ch chs)
  then obtain t where t: "server_do ch s = Some t" "ts_run chs t = Some s'" by (auto split: option.splits)
  have "ts_step sp s t" using t(1) Cons.prems(2) by (auto intro: ts_step.intros)
  with Cons t show ?case by (auto intro: reach_step)
qed simp

section \<open>Invariant\<close>

definition published :: "tcp_server \<Rightarrow> nat \<Rightarrow> bool" where
  "published s i \<longleftrightarrow> workers s i \<in> {KNotify, KInit, KListen, KLoop, KDestroy, KDone}"

text \<open>The loop variable of \<^verbatim>\<open>startInLoop\<close>, and the pcs at which its current thread exists.\<close>

fun loop_var :: "main_pc \<Rightarrow> nat option" where
  "loop_var (MFor i) = Some i"
| "loop_var (MLock i) = Some i"
| "loop_var (MCheck i) = Some i"
| "loop_var (MPre i) = Some i"
| "loop_var (MWaiting i) = Some i"
| "loop_var (MWoken i) = Some i"
| "loop_var (MKeep i) = Some i"
| "loop_var _ = None"

fun has_current :: "main_pc \<Rightarrow> bool" where
  "has_current (MFor i) = False"
| "has_current pc = (loop_var pc \<noteq> None)"

definition frontier :: "tcp_server \<Rightarrow> nat" where
  "frontier s = (case loop_var (main s) of Some i \<Rightarrow> i | None \<Rightarrow> if m_started_ts s \<and> \<not> start_queued s then m_threadNum s else 1)"

text \<open>
  The threads below the frontier are kept and have published their loops, the one at the
  frontier exists while it is waited for, none exists beyond.
\<close>

definition list_inv :: "tcp_server \<Rightarrow> bool" where
  "list_inv s \<longleftrightarrow> 1 \<le> m_threadNum s \<and> (length (m_eventLoopList s) = m_threadNum s \<or> m_threadNum s = 1 \<and> m_eventLoopList s = [])
     \<and> (\<forall>i < length (m_eventLoopList s). m_eventLoopList s ! i = (if published s i then Some i else None))"

definition frontier_inv :: "tcp_server \<Rightarrow> bool" where
  "frontier_inv s \<longleftrightarrow> 1 \<le> frontier s \<and> frontier s \<le> m_threadNum s \<and> m_threadPtrList s = [1..<frontier s]
     \<and> workers s 0 = KNone \<and> (\<forall>j. 1 \<le> j \<and> j < frontier s \<longrightarrow> published s j)
     \<and> (\<forall>j > frontier s. workers s j = KNone)
     \<and> (workers s (frontier s) \<noteq> KNone \<longleftrightarrow> has_current (main s))
     \<and> (has_current (main s) \<longrightarrow> frontier s < m_threadNum s)
     \<and> (\<forall>i. main s = MKeep i \<longrightarrow> published s i)
     \<and> (loop_var (main s) \<noteq> None \<longrightarrow> m_started_ts s \<and> \<not> start_queued s) \<and> (start_queued s \<longrightarrow> m_started_ts s) \<and> main s \<noteq> MOutOfBounds"

definition lock_inv :: "tcp_server \<Rightarrow> bool" where
  "lock_inv s \<longleftrightarrow> (m_locked_ts s \<longleftrightarrow> (\<exists>i. main s = MCheck i \<or> main s = MPre i))"

lemma main_step_cases:
  assumes "main_step s = Some t"
  obtains (create) i where "main s = MFor i" "i < m_threadNum s" "t = s\<lparr>workers := (workers s)(i := KMake), main := MLock i\<rparr>"
  | (finish) i where "main s = MFor i" "m_threadNum s \<le> i" "t = s\<lparr>main := MIdle\<rparr>"
  | (lock) i where "main s = MLock i \<or> main s = MWoken i" "\<not> m_locked_ts s" "t = s\<lparr>m_locked_ts := True, main := MCheck i\<rparr>"
  | (out) i where "main s = MCheck i" "length (m_eventLoopList s) \<le> i" "t = s\<lparr>main := MOutOfBounds\<rparr>"
  | (null) i where "main s = MCheck i" "i < length (m_eventLoopList s)" "m_eventLoopList s ! i = None" "t = s\<lparr>main := MPre i\<rparr>"
  | (seen) i where "main s = MCheck i" "i < length (m_eventLoopList s)" "m_eventLoopList s ! i \<noteq> None"
      "t = s\<lparr>m_locked_ts := False, main := MKeep i\<rparr>"
  | (sleep) i where "main s = MPre i" "t = s\<lparr>m_locked_ts := False, main := MWaiting i\<rparr>"
  | (keep) i where "main s = MKeep i" "t = s\<lparr>m_threadPtrList := m_threadPtrList s @ [i], main := MFor (i + 1)\<rparr>"
  | (skip) i where "main s = MQuit i" "i < length (m_eventLoopList s)" "m_eventLoopList s ! i = None" "t = s\<lparr>main := MQuit (i + 1)\<rparr>"
  | (twice) i p where "main s = MQuit i" "i < length (m_eventLoopList s)" "m_eventLoopList s ! i = Some p" "quits s p"
      "t = s\<lparr>main := MAborted\<rparr>"
  | (quit) i p where "main s = MQuit i" "i < length (m_eventLoopList s)" "m_eventLoopList s ! i = Some p" "\<not> quits s p"
      "t = s\<lparr>quits := (quits s)(p := True), main := MQuit (i + 1)\<rparr>"
  | (told) i where "main s = MQuit i" "length (m_eventLoopList s) \<le> i" "t = s\<lparr>main := MJoin 0\<rparr>"
  | (joined) k where "main s = MJoin k" "k < length (m_threadPtrList s)" "workers s (m_threadPtrList s ! k) = KDone"
      "t = s\<lparr>main := MJoin (k + 1)\<rparr>"
  | (over) k where "main s = MJoin k" "length (m_threadPtrList s) \<le> k" "t = s\<lparr>main := MMember\<rparr>"
  | (breaks) "main s = MMember" "0 \<notin> set (listening s) \<or> open_conns s 0" "t = s\<lparr>main := MAborted\<rparr>"
  | (gone) "main s = MMember" "0 \<in> set (listening s)" "\<not> open_conns s 0" "t = s\<lparr>main := MGone\<rparr>"
proof (cases "main s")
  case (MFor i)
  with assms create finish show thesis by (cases "i < m_threadNum s") (simp_all add: main_defs)
next
  case (MCheck i)
  with assms out null seen show thesis
    by (cases "i < length (m_eventLoopList s)"; cases "m_eventLoopList s ! i") (simp_all add: main_defs)
next
  case (MQuit i)
  show thesis
  proof (cases "i < length (m_eventLoopList s)")
    case True
    then show thesis
    proof (cases "m_eventLoopList s ! i")
      case None
      with True MQuit assms skip show thesis by (simp add: main_defs)
    next
      case (Some p)
      with True MQuit assms twice quit show thesis by (cases "quits s p") (simp_all add: main_defs)
    qed
  next
    case False
    with MQuit assms told show thesis by (simp add: main_defs)
  qed
next
  case (MJoin k)
  with assms joined over show thesis by (cases "k < length (m_threadPtrList s)") (simp_all add: main_defs split: if_splits)
next
  case (MLock i)
  with assms lock show thesis by (simp add: main_defs split: if_splits)
next
  case (MWoken i)
  with assms lock show thesis by (simp add: main_defs split: if_splits)
next
  case (MPre i)
  with assms sleep show thesis by (simp add: main_defs)
next
  case (MKeep i)
  with assms keep show thesis by (simp add: main_defs)
next
  case MMember
  with assms breaks gone show thesis by (simp add: main_defs split: if_splits)
next
  case MIdle
  with assms show thesis by (simp add: main_defs)
next
  case (MWaiting i)
  with assms show thesis by (simp add: main_defs)
next
  case MGone
  with assms show thesis by (simp add: main_defs)
next
  case MOutOfBounds
  with assms show thesis by (simp add: main_defs)
next
  case MAborted
  with assms show thesis by (simp add: main_defs)
qed

lemma runInThread_cases:
  assumes "runInThread_ts i s = Some t"
  obtains (make) "workers s i = KMake" "t = s\<lparr>workers := (workers s)(i := KPublish), configured := (configured s)
      (i \<mapsto> (m_connectionCallback_ts s, m_messageCallback_ts s, m_writeCompleteCallback_ts s))\<rparr>"
  | (publish) "workers s i = KPublish" "i < length (m_eventLoopList s)"
      "t = s\<lparr>m_eventLoopList := (m_eventLoopList s)[i := Some i], workers := (workers s)(i := KNotify)\<rparr>"
  | (out) "workers s i = KPublish" "length (m_eventLoopList s) \<le> i" "t = s\<lparr>main := MOutOfBounds\<rparr>"
  | (wake) j where "workers s i = KNotify" "main s = MWaiting j" "t = s\<lparr>workers := (workers s)(i := KInit), main := MWoken j\<rparr>"
  | (nobody) "workers s i = KNotify" "\<forall>j. main s \<noteq> MWaiting j" "t = s\<lparr>workers := (workers s)(i := KInit)\<rparr>"
  | (init) "workers s i = KInit" "t = s\<lparr>init_calls := init_calls s @ [(m_threadInitCallback_ts s, i)], workers := (workers s)(i := KListen)\<rparr>"
  | (listen) "workers s i = KListen" "t = s\<lparr>listening := listening s @ [i], workers := (workers s)(i := KLoop)\<rparr>"
  | (leave) "workers s i = KLoop" "quits s i" "t = s\<lparr>workers := (workers s)(i := KDestroy)\<rparr>"
  | (breaks) "workers s i = KDestroy" "open_conns s i" "t = s\<lparr>main := MAborted\<rparr>"
  | (return) "workers s i = KDestroy" "\<not> open_conns s i" "t = s\<lparr>workers := (workers s)(i := KDone)\<rparr>"
proof (cases "workers s i")
  case KPublish
  with assms publish out show thesis by (cases "i < length (m_eventLoopList s)") (simp_all add: runInThread_ts_def)
next
  case KNotify
  with assms wake nobody show thesis 
    by (cases "\<exists>j. main s = MWaiting j") (auto simp: runInThread_ts_def notify_main_def split: main_pc.splits)
next
  case KMake
  with assms make show thesis by (simp add: runInThread_ts_def configure_def)
next
  case KInit
  with assms init show thesis by (simp add: runInThread_ts_def)
next
  case KListen
  with assms listen show thesis by (simp add: runInThread_ts_def)
next
  case KLoop
  with assms leave show thesis by (simp add: runInThread_ts_def split: if_splits)
next
  case KDestroy
  with assms breaks return show thesis by (simp add: runInThread_ts_def split: if_splits)
next
  case KNone
  with assms show thesis by (simp add: runInThread_ts_def)
next
  case KDone
  with assms show thesis by (simp add: runInThread_ts_def)
qed

lemmas frontier_defs = frontier_inv_def frontier_def published_def

lemma list_inv_worker:
  assumes "list_inv s" and "runInThread_ts i s = Some t"
  shows "list_inv t"
  using assms(2,1)
  by (cases rule: runInThread_cases) (auto simp: list_inv_def published_def nth_list_update)

lemma list_inv_main:
  assumes l: "list_inv s" and f: "frontier_inv s" and h: "main_step s = Some t"
  shows "list_inv t"
  using h
proof (cases rule: main_step_cases)
  case (create i)
  with f have "workers s i = KNone" by (simp add: frontier_defs)
  with create l show ?thesis by (auto simp: list_inv_def published_def)
qed (use l in \<open>simp_all add: list_inv_def published_def\<close>)

lemma frontier_eqI:
  "main t = main s \<Longrightarrow> m_started_ts t = m_started_ts s \<Longrightarrow> m_threadNum t = m_threadNum s
    \<Longrightarrow> start_queued t = start_queued s \<Longrightarrow> frontier t = frontier s"
  by (cases "loop_var (main s)") (simp_all add: frontier_def)

lemma frontier_inv_cong:
  assumes "main t = main s" and "m_started_ts t = m_started_ts s" and "m_threadNum t = m_threadNum s"
    and "start_queued t = start_queued s" and "m_threadPtrList t = m_threadPtrList s" and "workers t = workers s"
  shows "frontier_inv t = frontier_inv s"
  using assms frontier_eqI[OF assms(1-4)] by (simp add: frontier_inv_def published_def)

lemma frontier_inv_move:
  assumes f: "frontier_inv s" and i: "workers s i \<noteq> KNone"
    and b: "b \<noteq> KNone" "published s i \<longrightarrow> b \<in> {KNotify, KInit, KListen, KLoop, KDestroy, KDone}"
  shows "frontier_inv (s\<lparr>workers := (workers s)(i := b)\<rparr>)"
proof -
  let ?t = "s\<lparr>workers := (workers s)(i := b)\<rparr>"
  have p: "published ?t j \<longleftrightarrow> published s j" if "j \<noteq> i" for j using that by (simp add: published_def)
  have p': "published s j \<Longrightarrow> published ?t j" for j using b p by (cases "j = i") (auto simp: published_def)
  have w: "workers ?t j = KNone \<longleftrightarrow> workers s j = KNone" for j using i b by simp
  have fr: "frontier ?t = frontier s" by (rule frontier_eqI) simp_all
  show ?thesis using f p' unfolding frontier_inv_def w fr by auto
qed

lemma frontier_inv_list:
  "frontier_inv (s\<lparr>m_eventLoopList := ls, workers := ws\<rparr>) = frontier_inv (s\<lparr>workers := ws\<rparr>)"
  "frontier_inv (s\<lparr>init_calls := ks, workers := ws\<rparr>) = frontier_inv (s\<lparr>workers := ws\<rparr>)"
  "frontier_inv (s\<lparr>listening := bs, workers := ws\<rparr>) = frontier_inv (s\<lparr>workers := ws\<rparr>)"
  "frontier_inv (s\<lparr>workers := ws, configured := cs\<rparr>) = frontier_inv (s\<lparr>workers := ws\<rparr>)"
  by (rule frontier_inv_cong; simp)+

lemma frontier_inv_woken:
  "main s = MWaiting j \<Longrightarrow> frontier_inv (s\<lparr>workers := ws, main := MWoken j\<rparr>) = frontier_inv (s\<lparr>workers := ws\<rparr>)"
  by (simp add: frontier_defs)

lemma frontier_inv_worker:
  assumes f: "frontier_inv s" and l: "list_inv s" and h: "runInThread_ts i s = Some t" and n: "main t \<noteq> MAborted"
  shows "frontier_inv t"
proof -
  have i: "workers s i \<noteq> KNone" using h by (auto simp: runInThread_ts_def)
  have in_range: "i < length (m_eventLoopList s)" if "workers s i = KPublish"
  proof -
    from i f have "i \<noteq> 0" by (cases "i = 0") (simp_all add: frontier_inv_def)
    from i f have "\<not> frontier s < i" by (auto simp: frontier_inv_def)
    moreover have "i < frontier s \<Longrightarrow> published s i" using f \<open>i \<noteq> 0\<close> by (simp add: frontier_inv_def)
    ultimately have "i = frontier s" using that by (cases "i < frontier s") (auto simp: published_def)
    with i f have "i < m_threadNum s" by (auto simp: frontier_inv_def)
    with l \<open>i \<noteq> 0\<close> show ?thesis by (auto simp: list_inv_def)
  qed
  from h show ?thesis
  proof (cases rule: runInThread_cases)
    case make
    with f frontier_inv_move[OF f i, of KPublish] show ?thesis by (simp add: published_def frontier_inv_list)
  next
    case publish
    with frontier_inv_move[OF f i, of KNotify] show ?thesis by (simp add: frontier_inv_list)
  next
    case out
    with in_range show ?thesis by simp
  next
    case (wake j)
    with frontier_inv_move[OF f i, of KInit] show ?thesis by (simp add: frontier_inv_woken)
  next
    case nobody
    with frontier_inv_move[OF f i, of KInit] show ?thesis by simp
  next
    case init
    with frontier_inv_move[OF f i, of KListen] show ?thesis by (simp add: frontier_inv_list)
  next
    case listen
    with frontier_inv_move[OF f i, of KLoop] show ?thesis by (simp add: frontier_inv_list)
  next
    case leave
    with frontier_inv_move[OF f i, of KDestroy] show ?thesis by simp
  next
    case breaks
    with n show ?thesis by simp
  next
    case return
    with frontier_inv_move[OF f i, of KDone] show ?thesis by simp
  qed
qed

lemma frontier_inv_elsewhere:
  assumes f: "frontier_inv s" and m: "loop_var (main s) = None" "loop_var pc = None" "pc \<noteq> MOutOfBounds"
  shows "frontier_inv (s\<lparr>quits := q, main := pc\<rparr>)"
proof -
  let ?t = "s\<lparr>quits := q, main := pc\<rparr>"
  have "frontier ?t = frontier s" using m by (simp add: frontier_def)
  moreover have "\<not> has_current pc" "\<not> has_current (main s)" "\<forall>i. pc \<noteq> MKeep i"
    using m by (cases pc; cases "main s"; simp)+
  ultimately show ?thesis using f m by (simp add: frontier_inv_def published_def)
qed

lemma frontier_inv_main:
  assumes f: "frontier_inv s" and l: "list_inv s" and h: "main_step s = Some t"
  shows "frontier_inv t"
  using h
proof (cases rule: main_step_cases)
  case (create i)
  with f show ?thesis by (auto simp: frontier_defs)
next
  case (finish i)
  with f show ?thesis by (auto simp: frontier_defs)
next
  case (lock i)
  with f show ?thesis by (auto simp: frontier_defs)
next
  case (out i)
  with f l show ?thesis by (auto simp: frontier_defs list_inv_def)
next
  case (null i)
  with f show ?thesis by (auto simp: frontier_defs)
next
  case (seen i)
  with f l have "published s i" by (auto simp: list_inv_def split: if_splits)
  with seen f show ?thesis by (auto simp: frontier_defs)
next
  case (sleep i)
  with f show ?thesis by (auto simp: frontier_defs)
next
  case (keep i)
  with f have i: "1 \<le> i" "m_threadPtrList s = [1..<i]" "published s i" "i < m_threadNum s"
    "\<forall>j. 1 \<le> j \<and> j < i \<longrightarrow> published s j" "\<forall>j > i. workers s j = KNone" "workers s 0 = KNone" "m_started_ts s" "\<not> start_queued s"
    by (simp_all add: frontier_inv_def frontier_def)
  then have "[1..<i] @ [i] = [1..<i + 1]" by simp
  with i keep show ?thesis by (auto simp: frontier_inv_def frontier_def published_def less_Suc_eq)
next
  case (skip i)
  with frontier_inv_elsewhere[OF f, of "MQuit (i + 1)" "quits s"] show ?thesis by simp
next
  case (twice i p)
  with frontier_inv_elsewhere[OF f, of MAborted "quits s"] show ?thesis by simp
next
  case (quit i p)
  with frontier_inv_elsewhere[OF f, of "MQuit (i + 1)" "(quits s)(p := True)"] show ?thesis by simp
next
  case (told i)
  with frontier_inv_elsewhere[OF f, of "MJoin 0" "quits s"] show ?thesis by simp
next
  case (joined k)
  with frontier_inv_elsewhere[OF f, of "MJoin (k + 1)" "quits s"] show ?thesis by simp
next
  case (over k)
  with frontier_inv_elsewhere[OF f, of MMember "quits s"] show ?thesis by simp
next
  case breaks
  with frontier_inv_elsewhere[OF f, of MAborted "quits s"] show ?thesis by simp
next
  case gone
  with frontier_inv_elsewhere[OF f, of MGone "quits s"] show ?thesis by simp
qed

text \<open>The mutex, the calls made, and the destructor.\<close>

lemma lock_inv_main: "main_step s = Some t \<Longrightarrow> lock_inv s \<Longrightarrow> main t \<noteq> MOutOfBounds \<Longrightarrow> lock_inv t"
  by (erule main_step_cases) (auto simp: lock_inv_def)

lemma lock_inv_worker:
  "runInThread_ts i s = Some t \<Longrightarrow> lock_inv s \<Longrightarrow> main t \<noteq> MAborted \<Longrightarrow> main t \<noteq> MOutOfBounds \<Longrightarrow> lock_inv t"
  by (erule runInThread_cases) (auto simp: lock_inv_def)

definition calls_inv :: "tcp_server \<Rightarrow> bool" where
  "calls_inv s \<longleftrightarrow> distinct (map snd (init_calls s)) \<and> distinct (listening s)
     \<and> (\<forall>i. i \<in> snd ` set (init_calls s) \<longleftrightarrow> (if i = 0 then m_started_ts s \<and> \<not> start_queued s else workers s i \<in> {KListen, KLoop, KDestroy, KDone}))
     \<and> (\<forall>i. i \<in> set (listening s) \<longleftrightarrow> (if i = 0 then m_started_ts s \<and> \<not> start_queued s else workers s i \<in> {KLoop, KDestroy, KDone}))"

lemma calls_inv_worker:
  assumes c: "calls_inv s" and f: "frontier_inv s" and h: "runInThread_ts i s = Some t"
  shows "calls_inv t"
proof -
  from h have "workers s i \<noteq> KNone" by (auto simp: runInThread_ts_def)
  with f have i: "i \<noteq> 0" by (cases "i = 0") (simp_all add: frontier_inv_def)
  from h show ?thesis
    by (cases rule: runInThread_cases) (use c i in \<open>simp_all add: calls_inv_def\<close>)
qed

lemma calls_inv_main:
  assumes c: "calls_inv s" and f: "frontier_inv s" and h: "main_step s = Some t"
  shows "calls_inv t"
  using h
proof (cases rule: main_step_cases)
  case (create i)
  with f have "workers s i = KNone" "i \<noteq> 0" by (simp_all add: frontier_defs)
  with create c show ?thesis by (simp add: calls_inv_def)
qed (use c in \<open>simp_all add: calls_inv_def\<close>)

fun told :: "main_pc \<Rightarrow> nat \<Rightarrow> bool" where
  "told (MQuit i) p = (p < i)"
| "told (MJoin k) p = True"
| "told MMember p = True"
| "told MGone p = True"
| "told _ p = False"

fun joined :: "main_pc \<Rightarrow> nat list \<Rightarrow> nat set" where
  "joined (MJoin k) ps = set (take k ps)"
| "joined MMember ps = set ps"
| "joined MGone ps = set ps"
| "joined _ ps = {}"

definition quit_inv :: "tcp_server \<Rightarrow> bool" where
  "quit_inv s \<longleftrightarrow> (main s \<noteq> MAborted \<longrightarrow> (\<forall>p. quits s p \<longleftrightarrow> told (main s) p \<and> published s p))
     \<and> (\<forall>p \<in> joined (main s) (m_threadPtrList s). workers s p = KDone)
     \<and> (\<forall>i. workers s i = KDestroy \<or> workers s i = KDone \<longrightarrow> quits s i)
     \<and> (main s = MGone \<longrightarrow> 0 \<in> set (listening s))"

lemma no_current: "destroying pc \<Longrightarrow> loop_var pc = None \<and> \<not> has_current pc"
  by (cases pc) (simp_all add: destroying_def)

lemma destroying_workers:
  assumes f: "frontier_inv s" and d: "loop_var (main s) = None"
  shows "workers s i = KNone \<or> published s i" "published s i \<longleftrightarrow> i \<in> set (m_threadPtrList s)"
proof -
  have "\<not> has_current (main s)" using d by (cases "main s") simp_all
  then have n: "\<forall>j \<ge> frontier s. workers s j = KNone" "workers s 0 = KNone" "\<forall>j. 1 \<le> j \<and> j < frontier s \<longrightarrow> published s j"
    "m_threadPtrList s = [1..<frontier s]"
    using f by (auto simp: frontier_inv_def le_eq_less_or_eq)
  show "workers s i = KNone \<or> published s i" using n by (cases "i = 0"; cases "i < frontier s") (auto simp: not_less)
  show "published s i \<longleftrightarrow> i \<in> set (m_threadPtrList s)"
    using n by (cases "i = 0"; cases "i < frontier s") (auto simp: published_def not_less)
qed

lemma told_destroying: "told pc p \<Longrightarrow> destroying pc" "p \<in> joined pc ps \<Longrightarrow> destroying pc"
  by (cases pc; simp add: destroying_def)+

lemma published_in_list:
  assumes "frontier_inv s" and "list_inv s" and "loop_var (main s) = None" and "published s p"
  shows "p < length (m_eventLoopList s)"
proof -
  have "p \<in> set (m_threadPtrList s)" using destroying_workers(2)[OF assms(1,3)] assms(4) by blast
  with assms(1) have "1 \<le> p" "p < m_threadNum s" by (auto simp: frontier_inv_def)
  with assms(2) show ?thesis by (auto simp: list_inv_def)
qed

lemma quit_inv_worker:
  assumes q: "quit_inv s" and h: "runInThread_ts i s = Some t" and f: "frontier_inv s" "frontier_inv t"
    and n: "main t \<noteq> MAborted"
  shows "quit_inv t"
  using h
proof (cases rule: runInThread_cases)
  case publish
  have "loop_var (main s) \<noteq> None"
  proof
    assume "loop_var (main s) = None"
    from destroying_workers(1)[OF f(1) this, of i] publish(1) show False by (simp add: published_def)
  qed
  then have nt: "\<not> told (main s) p" for p
    using no_current[OF told_destroying(1), of "main s" p] by auto
  moreover have "main s \<noteq> MAborted" using \<open>loop_var (main s) \<noteq> None\<close> by auto
  ultimately have nq: "\<not> quits s p" for p using q by (simp add: quit_inv_def)
  moreover have "joined (main s) (m_threadPtrList s) = {}"
    using \<open>loop_var (main s) \<noteq> None\<close> by (cases "main s") simp_all
  ultimately show ?thesis using q nt nq publish(3) by (simp add: quit_inv_def)
next
  case out
  with f(2) show ?thesis by (simp add: frontier_inv_def)
next
  case (wake j)
  with q show ?thesis by (auto simp: quit_inv_def published_def)
qed (use q n in \<open>auto simp: quit_inv_def published_def split: if_splits\<close>)

lemma published_frame:
  "published (s\<lparr>main := pc\<rparr>) = published s" "published (s\<lparr>quits := q\<rparr>) = published s"
  by (simp_all add: published_def fun_eq_iff)

lemma quit_inv_main:
  assumes q: "quit_inv s" and l: "list_inv s" and f: "frontier_inv s" and h: "main_step s = Some t"
  shows "quit_inv t"
  using h
proof (cases rule: main_step_cases)
  case (create i)
  with f have "workers s i = KNone" by (simp add: frontier_defs)
  with create q show ?thesis by (auto simp: quit_inv_def published_def)
next
  case (skip i)
  with l have n: "\<not> published s i" by (auto simp: list_inv_def split: if_splits)
  have "(p < Suc i \<and> published s p) = (p < i \<and> published s p)" for p using n by (cases "p = i") auto
  with q skip show ?thesis by (auto simp: quit_inv_def published_frame)
next
  case (twice i p)
  with l have "p = i" by (auto simp: list_inv_def split: if_splits)
  with twice q show ?thesis by (simp add: quit_inv_def)
next
  case (quit i p)
  with l have i: "p = i" "published s i" by (auto simp: list_inv_def split: if_splits)
  have "(j < Suc i \<and> published s j) = (j = i \<or> j < i \<and> published s j)" for j using i by (cases "j = i") auto
  with q quit i show ?thesis by (auto simp: quit_inv_def published_frame)
next
  case (told i)
  then have lv: "loop_var (main s) = None" by simp
  have "published s p \<Longrightarrow> p < i" for p using published_in_list[OF f l lv] told by force
  with told q show ?thesis by (auto simp: quit_inv_def published_def)
next
  case (joined k)
  with q show ?thesis by (auto simp: quit_inv_def published_def take_Suc_conv_app_nth)
next
  case (over k)
  with q show ?thesis by (auto simp: quit_inv_def published_def)
next
  case breaks
  with q show ?thesis by (auto simp: quit_inv_def published_frame)
next
  case gone
  with q show ?thesis by (auto simp: quit_inv_def published_frame)
qed (use q in \<open>auto simp: quit_inv_def published_def\<close>)

text \<open>The servers are configured with the callbacks \<^verbatim>\<open>startInLoop\<close> found.\<close>

definition callbacks_ts :: "tcp_server \<Rightarrow> server_callbacks" where
  "callbacks_ts s = (m_connectionCallback_ts s, m_messageCallback_ts s, m_writeCompleteCallback_ts s)"

definition config_inv :: "tcp_server \<Rightarrow> bool" where
  "config_inv s \<longleftrightarrow> (m_started_ts s \<and> \<not> start_queued s \<longrightarrow> configured s 0 \<noteq> None)
     \<and> (\<forall>i. workers s i \<notin> {KNone, KMake} \<longrightarrow> configured s i = configured s 0)
     \<and> (loop_var (main s) \<noteq> None \<longrightarrow> configured s 0 = Some (callbacks_ts s))"

lemma config_inv_worker:
  assumes c: "config_inv s" and f: "frontier_inv s" and h: "runInThread_ts i s = Some t"
  shows "config_inv t"
  using h
proof (cases rule: runInThread_cases)
  case make
  have "loop_var (main s) \<noteq> None"
    using destroying_workers(1)[OF f, of i] make(1) by (auto simp: published_def)
  moreover have "i \<noteq> 0" using f make(1) by (cases "i = 0") (simp_all add: frontier_inv_def)
  ultimately show ?thesis using c make by (simp add: config_inv_def configure_def callbacks_ts_def)
qed (use c in \<open>auto simp: config_inv_def callbacks_ts_def\<close>)

lemma config_inv_main:
  assumes c: "config_inv s" and f: "frontier_inv s" and h: "main_step s = Some t"
  shows "config_inv t"
  using h by (cases rule: main_step_cases) (use c in \<open>auto simp: config_inv_def callbacks_ts_def\<close>)

definition ts_inv :: "tcp_server \<Rightarrow> bool" where
  "ts_inv s \<longleftrightarrow> list_inv s \<and> frontier_inv s \<and> lock_inv s \<and> calls_inv s \<and> quit_inv s \<and> config_inv s"

lemma ts_inv_new: "ts_inv new_TCPServer"
  by (simp add: ts_inv_def new_TCPServer_def list_inv_def frontier_defs lock_inv_def calls_inv_def quit_inv_def
      config_inv_def)

lemma ts_invI:
  "list_inv s \<Longrightarrow> frontier_inv s \<Longrightarrow> (main s \<noteq> MOutOfBounds \<Longrightarrow> lock_inv s) \<Longrightarrow> calls_inv s \<Longrightarrow> quit_inv s
    \<Longrightarrow> config_inv s \<Longrightarrow> ts_inv s"
  by (simp add: ts_inv_def frontier_inv_def)

lemma ts_invD:
  assumes "ts_inv s"
  shows "list_inv s" "frontier_inv s" "lock_inv s" "calls_inv s" "quit_inv s" "config_inv s"
  using assms by (simp_all add: ts_inv_def)

lemma ts_inv_main:
  assumes "ts_inv s" and h: "main_step s = Some t"
  shows "ts_inv t"
proof -
  note D = ts_invD[OF assms(1)]
  show ?thesis
    by (rule ts_invI[OF list_inv_main[OF D(1,2) h] frontier_inv_main[OF D(2,1) h] lock_inv_main[OF h D(3)]
        calls_inv_main[OF D(4,2) h] quit_inv_main[OF D(5,1,2) h] config_inv_main[OF D(6,2) h]])
qed

text \<open>A failed assertion of any thread, when no server is being started.\<close>

lemma ts_inv_abort:
  assumes inv: "ts_inv s" and m: "loop_var (main s) = None"
  shows "ts_inv (s\<lparr>main := MAborted\<rparr>)"
proof -
  note D = ts_invD[OF inv]
  let ?t = "s\<lparr>main := MAborted\<rparr>"
  have "frontier_inv ?t" using frontier_inv_elsewhere[OF D(2) m, of MAborted "quits s"] by simp
  moreover have "list_inv ?t" using D(1) by (simp add: list_inv_def published_frame)
  moreover have "lock_inv ?t" using D(3) m by (auto simp: lock_inv_def)
  moreover have "calls_inv ?t" using D(4) by (simp add: calls_inv_def)
  moreover have "quit_inv ?t" using D(5) by (simp add: quit_inv_def)
  moreover have "config_inv ?t" using D(6) by (simp add: config_inv_def)
  ultimately show ?thesis by (simp add: ts_inv_def)
qed

text \<open>A thread destroys its server only when told to quit.\<close>

lemma leaving_destroying:
  assumes inv: "ts_inv s" and w: "workers s i = KDestroy" and n: "main s \<noteq> MAborted"
  shows "destroying (main s)" and "main s \<noteq> MGone" and "main s \<noteq> MMember"
proof -
  have q: "quit_inv s" using inv by (simp add: ts_inv_def)
  then have "quits s i" using w by (simp add: quit_inv_def)
  with q n have "told (main s) i" by (simp add: quit_inv_def)
  then show d: "destroying (main s)" by (rule told_destroying)
  have "i \<in> set (m_threadPtrList s)"
    using destroying_workers[OF ts_invD(2)[OF inv], of i] no_current[OF d] w by auto
  with q w show "main s \<noteq> MGone" "main s \<noteq> MMember" by (auto simp: quit_inv_def)
qed

lemma ts_inv_worker:
  assumes inv: "ts_inv s" and h: "runInThread_ts i s = Some t" and n: "main s \<noteq> MAborted"
  shows "ts_inv t"
proof (cases "main t = MAborted")
  case True
  from h True n have "workers s i = KDestroy \<and> t = s\<lparr>main := MAborted\<rparr>"
    by (cases rule: runInThread_cases) simp_all
  moreover from this have "loop_var (main s) = None" using leaving_destroying(1)[OF inv _ n] no_current by blast
  ultimately show ?thesis using ts_inv_abort[OF inv] by simp
next
  case False
  note D = ts_invD[OF inv]
  note f = frontier_inv_worker[OF D(2,1) h False]
  show ?thesis
    by (rule ts_invI[OF list_inv_worker[OF D(1) h] f lock_inv_worker[OF h D(3) False]
        calls_inv_worker[OF D(4,2) h] quit_inv_worker[OF D(5) h D(2) f False] config_inv_worker[OF D(6,2) h]])
qed

text \<open>The calls, made between the others.\<close>

lemma ts_inv_cong:
  assumes "main t = main s" "m_started_ts t = m_started_ts s" "m_threadNum t = m_threadNum s" "start_queued t = start_queued s"
    "m_threadPtrList t = m_threadPtrList s" "workers t = workers s" "m_eventLoopList t = m_eventLoopList s"
    "m_locked_ts t = m_locked_ts s" "init_calls t = init_calls s" "listening t = listening s" "quits t = quits s"
    "configured t = configured s" "loop_var (main s) = None"
  shows "ts_inv t = ts_inv s"
  using frontier_inv_cong[OF assms(1-6)] assms
  by (simp add: ts_inv_def list_inv_def lock_inv_def calls_inv_def quit_inv_def config_inv_def published_def)

lemma ts_inv_set_callback: "ts_inv s \<Longrightarrow> main s = MIdle \<Longrightarrow> ts_inv (set_callback m cb s)"
  by (cases m; subst ts_inv_cong[of _ s]; simp add: setThreadInitCallback_ts_def setConnectionCallback_ts_def
      setMessageCallback_ts_def setWriteCompleteCallback_ts_def)

lemma ts_inv_open_conns: "ts_inv (s\<lparr>open_conns := f\<rparr>) = ts_inv s"
  using frontier_inv_cong[of "s\<lparr>open_conns := f\<rparr>" s]
  by (simp add: ts_inv_def list_inv_def lock_inv_def calls_inv_def quit_inv_def config_inv_def published_def callbacks_ts_def)

text \<open>The main thread goes from one state outside of \<^verbatim>\<open>startInLoop\<close> to another.\<close>

lemma ts_inv_leap:
  assumes inv: "ts_inv s" and m: "main s = MIdle" and pc: "pc = MAborted \<or> pc = MQuit 0"
  shows "ts_inv (s\<lparr>main := pc\<rparr>)"
proof -
  have lv: "loop_var pc = None" "\<not> has_current pc" "\<not> told pc p" "joined pc ps = {}" "pc \<noteq> MOutOfBounds" "\<forall>i. pc \<noteq> MKeep i"
    "\<forall>i. pc \<noteq> MCheck i \<and> pc \<noteq> MPre i" for p ps
    using pc by auto
  note D = ts_invD[OF inv]
  let ?t = "s\<lparr>main := pc\<rparr>"
  have "frontier ?t = frontier s" using lv m by (simp add: frontier_def)
  then have "frontier_inv ?t" using D(2) m lv by (simp add: frontier_inv_def published_frame)
  moreover have "list_inv ?t" using D(1) by (simp add: list_inv_def published_frame)
  moreover have "lock_inv ?t" using D(3) m lv by (simp add: lock_inv_def)
  moreover have "calls_inv ?t" using D(4) by (simp add: calls_inv_def)
  moreover have "quit_inv ?t" using D(5) m lv by (auto simp: quit_inv_def published_frame)
  moreover have "config_inv ?t" using D(6) lv by (simp add: config_inv_def)
  ultimately show ?thesis by (simp add: ts_inv_def)
qed

text \<open>Before \<^verbatim>\<open>startInLoop\<close> there is no thread.\<close>

lemma not_begun:
  assumes "ts_inv s" and "loop_var (main s) = None" and "\<not> m_started_ts s \<or> start_queued s"
  shows "workers s i = KNone" and "\<not> published s i" and "frontier s = 1"
proof -
  show fr: "frontier s = 1" using assms by (auto simp: frontier_def)
  have "\<not> has_current (main s)" using assms(2) by (cases "main s") simp_all
  with assms(1) fr show "workers s i = KNone"
    by (cases "i = 0"; cases "i = 1") (auto simp: ts_inv_def frontier_inv_def)
  then show "\<not> published s i" by (simp add: published_def)
qed

lemma configured_listening:
  assumes inv: "ts_inv s" and i: "i \<in> set (listening s)"
  shows "configured s i = configured s 0 \<and> configured s 0 \<noteq> None"
proof -
  note D = ts_invD[OF inv]
  have begun: "loop_var (main s) \<noteq> None \<or> m_started_ts s \<and> \<not> start_queued s" if "i = 0 \<or> workers s i \<noteq> KNone"
    using not_begun(1)[OF inv, of i] that i D(4) unfolding calls_inv_def by (cases "i = 0") auto
  have w: "i \<noteq> 0 \<Longrightarrow> workers s i \<in> {KLoop, KDestroy, KDone}" using i D(4) unfolding calls_inv_def by simp
  then have "i = 0 \<or> workers s i \<noteq> KNone" by auto
  from begun[OF this] D(6) have "configured s 0 \<noteq> None" unfolding config_inv_def by (metis option.distinct(1))
  moreover have "configured s i = configured s 0" using w D(6) unfolding config_inv_def by (cases "i = 0") auto
  ultimately show ?thesis by blast
qed

lemma ts_inv_setThreadNum:
  assumes inv: "ts_inv s" and m: "main s = MIdle"
  shows "ts_inv (setThreadNum n s)"
proof (cases "n > 0 \<and> \<not> m_started_ts s")
  case True
  let ?l = "take n (m_eventLoopList s) @ replicate (n - length (m_eventLoopList s)) None"
  let ?t = "s\<lparr>m_threadNum := n, m_eventLoopList := ?l\<rparr>"
  have none: "workers s i = KNone" "\<not> published s i" "frontier s = 1" for i
    using not_begun(1,2)[OF inv, of i] not_begun(3)[OF inv] m True by simp_all
  then have np: "\<not> published ?t i" for i by (simp add: published_def)
  have "m_eventLoopList s ! i = None" if "i < length (m_eventLoopList s)" for i
    using inv that none by (simp add: ts_inv_def list_inv_def)
  then have "?l ! i = None" if "i < n" for i using that by (simp add: nth_append)
  moreover have "length ?l = n" by (simp add: min_def)
  ultimately have "list_inv ?t" using True np by (simp add: list_inv_def)
  moreover have "frontier ?t = 1" using m True by (simp add: frontier_def)
  then have "frontier_inv ?t" using inv m True none by (simp add: ts_inv_def frontier_inv_def)
  moreover have "lock_inv ?t" "calls_inv ?t" using ts_invD(3,4)[OF inv] m by (simp_all add: lock_inv_def calls_inv_def)
  moreover have "quit_inv ?t" using ts_invD(5)[OF inv] m np by (auto simp: quit_inv_def)
  moreover have "config_inv ?t" using ts_invD(6)[OF inv] m by (simp add: config_inv_def)
  ultimately show ?thesis using True by (simp add: ts_inv_def setThreadNum_def)
next
  case False
  then have "setThreadNum n s = s\<lparr>main := MAborted\<rparr>" by (simp only: setThreadNum_def if_False)
  with ts_inv_leap[OF inv m] show ?thesis by simp
qed

text \<open>\<^verbatim>\<open>startInLoop\<close> begins, from \<^verbatim>\<open>start\<close> or from the queue.\<close>

lemma ts_inv_begin:
  assumes inv: "ts_inv s" and m: "main s = MIdle" and n: "\<not> m_started_ts s \<or> start_queued s"
  shows "ts_inv (startInLoop_begin (s\<lparr>m_started_ts := True, start_queued := False\<rparr>))"
proof -
  let ?t = "startInLoop_begin (s\<lparr>m_started_ts := True, start_queued := False\<rparr>)"
  have t: "main ?t = MFor 1" "m_started_ts ?t" "\<not> start_queued ?t" "m_threadNum ?t = m_threadNum s" "m_eventLoopList ?t = m_eventLoopList s"
    "m_threadPtrList ?t = m_threadPtrList s" "workers ?t = workers s" "quits ?t = quits s"
    "m_locked_ts ?t = m_locked_ts s" "init_calls ?t = init_calls s @ [(m_threadInitCallback_ts s, 0)]" "listening ?t = listening s @ [0]"
    "configured ?t = (configured s)(0 \<mapsto> callbacks_ts s)" "callbacks_ts ?t = callbacks_ts s"
    by (simp_all add: startInLoop_begin_def configure_def callbacks_ts_def)
  have none: "workers s i = KNone" "\<not> published s i" "frontier s = 1" for i
    using not_begun(1,2)[OF inv, of i] not_begun(3)[OF inv] m n by simp_all
  then have np: "\<not> published ?t i" for i by (simp add: published_def t)
  have fr: "frontier ?t = 1" by (simp add: frontier_def t)
  have "list_inv ?t" using inv np none by (simp add: ts_inv_def list_inv_def t)
  moreover have "frontier_inv ?t" using inv none fr m by (simp add: ts_inv_def frontier_inv_def t)
  moreover have "lock_inv ?t" using inv m by (simp add: ts_inv_def lock_inv_def t)
  moreover have "calls_inv ?t" using inv n none(1) by (auto simp: ts_inv_def calls_inv_def t)
  moreover have "quit_inv ?t" using inv m np none by (simp add: ts_inv_def quit_inv_def t)
  moreover have "config_inv ?t" by (simp add: config_inv_def t none(1))
  ultimately show ?thesis by (simp add: ts_inv_def)
qed

lemma ts_inv_start:
  assumes inv: "ts_inv s" and m: "main s = MIdle"
  shows "ts_inv (start_ts s)"
proof (cases "m_started_ts s")
  case False
  then have "s\<lparr>m_started_ts := True, start_queued := False\<rparr> = s\<lparr>m_started_ts := True\<rparr>"
    using ts_invD(2)[OF inv] by (simp add: frontier_inv_def)
  with ts_inv_begin[OF inv m] False show ?thesis by (simp add: start_ts_def)
qed (use inv in \<open>simp add: start_ts_def\<close>)

lemma ts_inv_run_start:
  assumes inv: "ts_inv s" and h: "run_start s = Some t"
  shows "ts_inv t"
proof (cases "main s")
  case MIdle
  with h have q: "start_queued s" and t: "t = startInLoop_begin (s\<lparr>start_queued := False\<rparr>)"
    by (simp_all add: run_start_def split: if_splits)
  have "m_started_ts s" using q ts_invD(2)[OF inv] by (simp add: frontier_inv_def)
  then have "s\<lparr>m_started_ts := True, start_queued := False\<rparr> = s\<lparr>start_queued := False\<rparr>" by simp
  with ts_inv_begin[OF inv MIdle] q t show ?thesis by simp
next
  case MGone
  with h have "t = s\<lparr>freed_server_used := True\<rparr>" by (simp add: run_start_def split: if_splits)
  with inv MGone show ?thesis by (subst ts_inv_cong[of _ s]) simp_all
qed (use h in \<open>simp_all add: run_start_def split: if_splits\<close>)

lemma ts_inv_start_elsewhere:
  assumes inv: "ts_inv s" and "\<not> destroying (main s)"
  shows "ts_inv (start_elsewhere s)"
proof (cases "m_started_ts s")
  case False
  let ?t = "s\<lparr>m_started_ts := True, start_queued := True\<rparr>"
  note D = ts_invD[OF inv]
  have lv: "loop_var (main s) = None" using False D(2) by (auto simp: frontier_inv_def)
  have pub: "published ?t i = published s i" for i by (simp add: published_def)
  have "frontier ?t = frontier s" using lv False by (simp add: frontier_def)
  then have "frontier_inv ?t" using D(2) lv by (simp add: frontier_inv_def pub)
  moreover have "list_inv ?t" using D(1) by (simp add: list_inv_def pub)
  moreover have "lock_inv ?t" using D(3) by (simp add: lock_inv_def)
  moreover have "calls_inv ?t" using D(4) False by (simp add: calls_inv_def)
  moreover have "quit_inv ?t" using D(5) by (auto simp: quit_inv_def pub)
  moreover have "config_inv ?t" using D(6) lv by (simp add: config_inv_def)
  ultimately have "ts_inv ?t" by (simp add: ts_inv_def)
  with False show ?thesis by (simp add: start_elsewhere_def)
qed (use inv in \<open>simp add: start_elsewhere_def\<close>)

lemma ts_inv_step: "ts_inv s \<Longrightarrow> ts_step sp s t \<Longrightarrow> ts_inv t"
proof (erule ts_stepE)
  fix ch
  assume inv: "ts_inv s" and d: "server_do ch s = Some t"
  show "ts_inv t"
  proof (cases ch)
    case DoMain
    with inv d ts_inv_main show ?thesis by simp
  next
    case (DoWorker i)
    with inv d ts_inv_worker show ?thesis by (simp split: if_splits)
  next
    case (ConnectionsChange i b)
    with d have t: "t = s\<lparr>open_conns := (open_conns s)(i := b)\<rparr>" by (simp add: connections_change_def split: if_splits)
    with inv show ?thesis by (simp add: ts_inv_open_conns)
  next
    case WakeSpuriously
    with d obtain i where m: "main s = MWaiting i" "t = s\<lparr>main := MWoken i\<rparr>" by (auto split: main_pc.splits)
    then have "frontier t = frontier s" by (simp add: frontier_def)
    then have "frontier_inv t" using ts_invD(2)[OF inv] m by (simp add: frontier_inv_def published_frame)
    moreover have "list_inv t" using ts_invD(1)[OF inv] m by (simp add: list_inv_def published_frame)
    moreover have "lock_inv t" "calls_inv t" using ts_invD(3,4)[OF inv] m by (simp_all add: lock_inv_def calls_inv_def)
    moreover have "quit_inv t" using ts_invD(5)[OF inv] m by (auto simp: quit_inv_def published_frame)
    moreover have "config_inv t" using ts_invD(6)[OF inv] m by (simp add: config_inv_def callbacks_ts_def)
    ultimately show ?thesis by (simp add: ts_inv_def)
  qed (use inv d ts_inv_setThreadNum ts_inv_start ts_inv_run_start ts_inv_start_elsewhere ts_inv_set_callback ts_inv_leap
      in \<open>auto split: if_splits\<close>)
qed

interpretation tcp_server_threads: inductive_invariant ts_init "ts_step sp" ts_inv
proof
  show "ts_inv s" if "ts_init s" for s using that ts_inv_new by (simp add: ts_init_def)
qed (rule ts_inv_step)

section \<open>Properties\<close>

text \<open>
  C9. Starting a server with several threads, in every interleaving: the list of loops is
  never accessed out of range; when \<^verbatim>\<open>startInLoop\<close> is done, all threads exist, are kept to be
  joined, and have published their own loop at their own index; each thread calls the
  initialisation callback and starts its server at most once; all servers are started with the
  same callbacks, also if the setters are called again afterwards; and when the destructor is
  done no thread is left.
\<close>

theorem server_start_and_destroy:
  assumes "reach ts_init (ts_step sp) s"
  shows "main s \<noteq> MOutOfBounds
    \<and> (m_started_ts s \<and> \<not> start_queued s \<and> main s = MIdle \<longrightarrow> m_threadPtrList s = [1..<m_threadNum s]
        \<and> (\<forall>i. 1 \<le> i \<and> i < m_threadNum s \<longrightarrow> m_eventLoopList s ! i = Some i \<and> workers s i \<in> {KNotify, KInit, KListen, KLoop}))
    \<and> (distinct (map snd (init_calls s)) \<and> distinct (listening s) \<and> set (listening s) \<subseteq> snd ` set (init_calls s))
    \<and> (\<forall>i \<in> set (listening s). configured s i = configured s 0 \<and> configured s 0 \<noteq> None)
    \<and> (main s = MGone \<longrightarrow> (\<forall>i. workers s i \<in> {KNone, KDone}))"
proof -
  have inv: "ts_inv s" by (rule tcp_server_threads.reach_inv[OF assms])
  have 1: "main s \<noteq> MOutOfBounds" using inv by (simp add: ts_inv_def frontier_inv_def)
  have c: "calls_inv s" using inv by (simp add: ts_inv_def)
  have "i \<in> snd ` set (init_calls s)" if "i \<in> set (listening s)" for i
    using c that unfolding calls_inv_def by (cases "i = 0") auto
  with c have 2: "distinct (map snd (init_calls s)) \<and> distinct (listening s) \<and> set (listening s) \<subseteq> snd ` set (init_calls s)"
    by (auto simp: calls_inv_def)
  have 5: "\<forall>i \<in> set (listening s). configured s i = configured s 0 \<and> configured s 0 \<noteq> None"
    using configured_listening[OF inv] by blast
  have 3: "m_started_ts s \<and> \<not> start_queued s \<and> main s = MIdle \<longrightarrow> m_threadPtrList s = [1..<m_threadNum s]
        \<and> (\<forall>i. 1 \<le> i \<and> i < m_threadNum s \<longrightarrow> m_eventLoopList s ! i = Some i \<and> workers s i \<in> {KNotify, KInit, KListen, KLoop})"
  proof (intro impI)
    assume m: "m_started_ts s \<and> \<not> start_queued s \<and> main s = MIdle"
    then have f: "frontier s = m_threadNum s" by (simp add: frontier_def)
    have w: "workers s i \<noteq> KDone \<and> workers s i \<noteq> KDestroy" for i
      using ts_invD(5)[OF inv] m by (auto simp: quit_inv_def)
    have p: "published s i" if "1 \<le> i" "i < m_threadNum s" for i
      using ts_invD(2)[OF inv] f that by (simp add: frontier_inv_def)
    have "m_eventLoopList s ! i = Some i \<and> workers s i \<in> {KNotify, KInit, KListen, KLoop}"
      if "1 \<le> i" "i < m_threadNum s" for i
    proof
      have "i < length (m_eventLoopList s)" using ts_invD(1)[OF inv] that by (auto simp: list_inv_def)
      with p[OF that] ts_invD(1)[OF inv] show "m_eventLoopList s ! i = Some i" by (simp add: list_inv_def)
      from p[OF that] w[of i] show "workers s i \<in> {KNotify, KInit, KListen, KLoop}" by (simp add: published_def)
    qed
    moreover have "m_threadPtrList s = [1..<m_threadNum s]" using ts_invD(2)[OF inv] f by (simp add: frontier_inv_def)
    ultimately show "m_threadPtrList s = [1..<m_threadNum s]
        \<and> (\<forall>i. 1 \<le> i \<and> i < m_threadNum s \<longrightarrow> m_eventLoopList s ! i = Some i \<and> workers s i \<in> {KNotify, KInit, KListen, KLoop})"
      by blast
  qed
  have 4: "main s = MGone \<longrightarrow> (\<forall>i. workers s i \<in> {KNone, KDone})"
  proof (intro impI allI)
    fix i assume m: "main s = MGone"
    have f: "frontier_inv s" and q: "quit_inv s" using inv by (simp_all add: ts_inv_def)
    have lv: "loop_var (main s) = None" by (simp add: m)
    from destroying_workers[OF f lv, of i] q m show "workers s i \<in> {KNone, KDone}"
      by (auto simp: quit_inv_def)
  qed
  from 1 3 2 5 4 show ?thesis by blast
qed

lemma server_start_and_destroy_witness:
  "\<exists>s. ts_run [CallSetThreadNum 2, CallStart, DoMain, DoMain, DoMain, DoMain, DoWorker 1, DoWorker 1, DoWorker 1, DoMain,
        DoMain, DoMain, DoMain] new_TCPServer = Some s
     \<and> main s = MIdle \<and> m_threadPtrList s = [1] \<and> m_eventLoopList s = [None, Some 1]"
proof -
  let ?chs = "[CallSetThreadNum 2, CallStart, DoMain, DoMain, DoMain, DoMain, DoWorker 1, DoWorker 1, DoWorker 1, DoMain,
        DoMain, DoMain, DoMain]"
  have "\<exists>s. ts_run ?chs new_TCPServer = Some s \<and> main s = MIdle \<and> m_started_ts s \<and> \<not> start_queued s \<and> m_threadNum s = 2
      \<and> m_eventLoopList s = [None, Some 1]"
    by (simp add: new_TCPServer_def setThreadNum_def start_defs main_defs runInThread_ts_def notify_main_def
        numeral_2_eq_2)
  then obtain s where s: "ts_run ?chs new_TCPServer = Some s" "main s = MIdle" "m_started_ts s" "\<not> start_queued s" "m_threadNum s = 2"
    "m_eventLoopList s = [None, Some 1]" by blast
  have "reach ts_init (ts_step False) s"
    by (rule ts_run_reach[OF s(1)]) (auto intro: reach_init simp: ts_init_def)
  from server_start_and_destroy[OF this] s have "m_threadPtrList s = [1..<2]" by simp
  with s show ?thesis by (auto simp: numeral_2_eq_2)
qed

text \<open>
  C37. \<^verbatim>\<open>runInThread\<close> stores its loop and notifies without the mutex: between the main thread's
  test of the slot and its \<^verbatim>\<open>wait\<close> the notification is lost, and \<^verbatim>\<open>startInLoop\<close>, with it the
  main loop, sleeps forever although the thread it waits for is looping.
\<close>

theorem server_start_lost_wakeup:
  "\<exists>s. reach ts_init (ts_step False) s \<and> main s = MWaiting 1 \<and> m_eventLoopList s ! 1 = Some 1
     \<and> main ` {t. (ts_step False)\<^sup>*\<^sup>* s t} = {MWaiting 1}"
proof -
  define hung where "hung s \<longleftrightarrow> main s = MWaiting 1 \<and> workers s 1 \<in> {KInit, KListen, KLoop} \<and> \<not> quits s 1
    \<and> (\<forall>j. j \<noteq> 1 \<longrightarrow> workers s j = KNone)" for s :: tcp_server
  have stays: "hung t" if "(ts_step False)\<^sup>*\<^sup>* s t" "hung s" for s t
    using that
  proof (induction rule: rtranclp_induct)
    case (step t u)
    then obtain ch where ch: "server_do ch t = Some u" "ch \<noteq> WakeSpuriously" and h: "hung t" by (auto elim: ts_stepE)
    show ?case
    proof (cases ch)
      case (DoWorker i)
      with ch have w: "runInThread_ts i t = Some u" by (simp split: if_splits)
      then have "i = 1" using h by (cases "i = 1") (simp_all add: hung_def runInThread_ts_def)
      with w h show ?thesis by (auto simp: hung_def runInThread_ts_def)
    next
      case (ConnectionsChange i b)
      with ch h show ?thesis by (auto simp: hung_def connections_change_def split: if_splits)
    next
      case StartElsewhere
      with ch h show ?thesis
        by (cases "m_started_ts t") (auto simp: hung_def destroying_def start_elsewhere_def)
    qed (use ch h in \<open>simp_all add: hung_def main_defs run_start_def split: if_splits\<close>)
  qed
  let ?chs = "[CallSetThreadNum 2, CallStart, DoMain, DoMain, DoMain, DoWorker 1, DoWorker 1, DoWorker 1, DoMain]"
  have "\<exists>s. ts_run ?chs new_TCPServer = Some s \<and> hung s \<and> m_eventLoopList s ! 1 = Some 1"
    by (simp add: new_TCPServer_def setThreadNum_def start_defs main_defs runInThread_ts_def notify_main_def
        numeral_2_eq_2 hung_def)
  then obtain s where s: "ts_run ?chs new_TCPServer = Some s" "hung s" "m_eventLoopList s ! 1 = Some 1" by blast
  have "reach ts_init (ts_step False) s"
    by (rule ts_run_reach[OF s(1)]) (auto intro: reach_init simp: ts_init_def)
  moreover have "main t = MWaiting 1" if "(ts_step False)\<^sup>*\<^sup>* s t" for t
    using stays[OF that s(2)] by (simp add: hung_def)
  moreover from this have "main ` {t. (ts_step False)\<^sup>*\<^sup>* s t} = {MWaiting 1}"
    by (intro equalityI subsetI) (auto intro: rev_image_eqI[of s])
  ultimately show ?thesis using s(2,3) by (intro exI[of _ s]) (simp add: hung_def)
qed

text \<open>
  The closure that \<^verbatim>\<open>start\<close> queues when another thread calls it captures the plain pointer: if
  the server is destroyed before the main loop runs the closure, the closure outlives it; the
  destructor of the server, which is not started yet, aborts first.
\<close>

lemma queued_start_server_aborts:
  "\<exists>s. ts_run [StartElsewhere, CallDestroy, DoMain, DoMain, DoMain] new_TCPServer = Some s
     \<and> main s = MAborted \<and> start_queued s"
  by (simp add: new_TCPServer_def start_elsewhere_def destroying_def main_defs)

text \<open>So does the thread whose server has an open connection when it is told to quit.\<close>

lemma open_connection_aborts:
  "\<exists>s. ts_run ([CallSetThreadNum 2, CallStart, DoMain, DoMain, DoMain, DoMain, DoWorker 1, DoWorker 1, DoWorker 1, DoMain,
      DoMain, DoMain, DoMain, DoWorker 1, DoWorker 1, ConnectionsChange 1 True, CallDestroy, DoMain, DoMain, DoMain]
      @ [DoWorker 1, DoWorker 1]) new_TCPServer = Some s \<and> main s = MAborted"
  by (simp add: new_TCPServer_def setThreadNum_def start_defs main_defs runInThread_ts_def notify_main_def
      connections_change_def numeral_2_eq_2)

text \<open>The moves a thread has left, and a measure of the destructor.\<close>

fun work :: "worker_pc \<Rightarrow> nat" where
  "work KMake = 7"
| "work KPublish = 6"
| "work KNotify = 5"
| "work KInit = 4"
| "work KListen = 3"
| "work KLoop = 2"
| "work KDestroy = 1"
| "work _ = 0"

definition destroy_measure :: "tcp_server \<Rightarrow> nat" where
  "destroy_measure s =
     (case main s of
        MQuit i \<Rightarrow> (length (m_eventLoopList s) - i) + length (m_threadPtrList s) + 4
      | MJoin k \<Rightarrow> (length (m_threadPtrList s) - k) + 2
      | MMember \<Rightarrow> 1
      | _ \<Rightarrow> 0) + sum_list (map (\<lambda>i. work (workers s i)) (m_threadPtrList s))"

lemma work_decreases: "runInThread_ts i s = Some t \<Longrightarrow> main t \<noteq> MOutOfBounds \<Longrightarrow> main t \<noteq> MAborted \<Longrightarrow>
    \<exists>b. workers t = (workers s)(i := b) \<and> work b < work (workers s i) \<and> m_threadPtrList t = m_threadPtrList s
      \<and> length (m_eventLoopList t) = length (m_eventLoopList s)"
  by (erule runInThread_cases) auto

lemma sum_list_pointwise_less:
  assumes "i \<in> set ps" and "f i < (g i :: nat)" and "\<And>j. j \<noteq> i \<Longrightarrow> f j = g j"
  shows "sum_list (map f ps) < sum_list (map g ps)"
  using assms(1)
proof (induction ps)
  case (Cons p ps)
  have le: "sum_list (map f ps) \<le> sum_list (map g ps)"
    using assms(2,3) by (intro sum_list_mono) (metis less_imp_le order_refl)
  show ?case
  proof (cases "i \<in> set ps")
    case True
    have "f p \<le> g p" using assms(2,3) by (metis less_imp_le order_refl)
    with Cons True show ?thesis by simp
  next
    case False
    with Cons.prems assms(2) le show ?thesis by simp
  qed
qed simp

text \<open>What makes the process abort: a server that is destroyed, not started or with an open connection.\<close>

definition destroyed_badly :: "tcp_server \<Rightarrow> bool" where
  "destroyed_badly s \<longleftrightarrow> main s = MMember \<and> (0 \<notin> set (listening s) \<or> open_conns s 0)
     \<or> (\<exists>i. workers s i = KDestroy \<and> open_conns s i)"

lemma destroy_worker_step:
  assumes inv: "ts_inv s" and d: "destroying (main s)" and h: "runInThread_ts i s = Some t"
  shows "(destroying (main t) \<or> main t = MAborted \<and> destroyed_badly s) \<and> destroy_measure t < destroy_measure s"
proof (cases "main t = MAborted")
  case True
  have n: "main s \<noteq> MAborted" using d by (auto simp: destroying_def)
  from h True n have "workers s i = KDestroy \<and> open_conns s i \<and> t = s\<lparr>main := MAborted\<rparr>"
    by (cases rule: runInThread_cases) simp_all
  then have w: "workers s i = KDestroy" "open_conns s i" "t = s\<lparr>main := MAborted\<rparr>" by blast+
  have "main s \<noteq> MGone" using leaving_destroying(2)[OF inv w(1) n] .
  with d have "destroy_measure t < destroy_measure s"
    by (simp add: w(3) destroy_measure_def destroying_def split: main_pc.splits)
  with w show ?thesis by (auto simp: destroyed_badly_def)
next
  case False
  note D = ts_invD[OF inv]
  have lv: "loop_var (main s) = None" using no_current[OF d] by simp
  have "main s \<noteq> MAborted" using d by (auto simp: destroying_def)
  from ts_inv_worker[OF inv h this] have "main t \<noteq> MOutOfBounds" by (simp add: ts_inv_def frontier_inv_def)
  from work_decreases[OF h this False] obtain b where b: "workers t = (workers s)(i := b)" "work b < work (workers s i)"
    "m_threadPtrList t = m_threadPtrList s" "length (m_eventLoopList t) = length (m_eventLoopList s)" by blast
  have "workers s i \<noteq> KNone" using h by (auto simp: runInThread_ts_def)
  then have "i \<in> set (m_threadPtrList s)" using destroying_workers[OF D(2) lv, of i] by blast
  then have less: "sum_list (map (\<lambda>i. work (workers t i)) (m_threadPtrList s))
      < sum_list (map (\<lambda>i. work (workers s i)) (m_threadPtrList s))"
    by (rule sum_list_pointwise_less) (use b in simp_all)
  have "main t = main s \<or> main t = MOutOfBounds"
    using h lv False by (cases rule: runInThread_cases) simp_all
  with \<open>main t \<noteq> MOutOfBounds\<close> have "main t = main s" by blast
  with d less b(3,4) show ?thesis by (simp add: destroy_measure_def destroying_def split: main_pc.splits)
qed

lemma destroy_main_step:
  assumes inv: "ts_inv s" and d: "destroying (main s)" and h: "main_step s = Some t"
  shows "(destroying (main t) \<or> main t = MAborted \<and> destroyed_badly s) \<and> destroy_measure t < destroy_measure s"
  using h
proof (cases rule: main_step_cases)
  case (twice i p)
  from twice ts_invD(1)[OF inv] have "p = i" by (auto simp: list_inv_def split: if_splits)
  with twice ts_invD(5)[OF inv] show ?thesis by (simp add: quit_inv_def)
qed (use d in \<open>auto simp: destroying_def destroy_measure_def destroyed_badly_def\<close>)

lemma destroy_progress:
  assumes inv: "ts_inv s" and d: "destroying (main s)" "main s \<noteq> MGone"
  shows "\<exists>t. main_step s = Some t \<or> (\<exists>i. runInThread_ts i s = Some t)"
proof (cases "main s")
  case (MQuit i)
  then have "\<exists>t. main_step s = Some t" by (simp add: main_defs)
  then show ?thesis by blast
next
  case (MJoin k)
  show ?thesis
  proof (cases "k < length (m_threadPtrList s) \<and> workers s (m_threadPtrList s ! k) \<noteq> KDone")
    case True
    let ?p = "m_threadPtrList s ! k"
    have lv: "loop_var (main s) = None" by (simp add: MJoin)
    have p: "published s ?p" using True destroying_workers(2)[OF ts_invD(2)[OF inv] lv] by simp
    with ts_invD(5)[OF inv] MJoin have "quits s ?p" by (simp add: quit_inv_def)
    with p True have "\<exists>t. runInThread_ts ?p s = Some t" by (auto simp: published_def runInThread_ts_def)
    then show ?thesis by blast
  qed (auto simp: MJoin main_defs)
next
  case MMember
  then have "\<exists>t. main_step s = Some t" by (simp add: main_defs)
  then show ?thesis by blast
qed (use d in \<open>simp_all add: destroying_def\<close>)

text \<open>While a server is destroyed its threads move, and connections come and go.\<close>

lemma destroying_moves:
  assumes inv: "ts_inv s" and d: "destroying (main s)" and ch: "server_do ch s = Some t"
  shows "main_step s = Some t \<or> (\<exists>i. runInThread_ts i s = Some t) \<or> (\<exists>f. t = s\<lparr>open_conns := f\<rparr>)"
proof -
  have m: "main s \<noteq> MIdle" "\<forall>i. main s \<noteq> MWaiting i" using d by (auto simp: destroying_def)
  have q: "\<not> (main s = MGone \<and> start_queued s)"
    using ts_invD(4,5)[OF inv] by (auto simp: calls_inv_def quit_inv_def)
  show ?thesis
  proof (cases ch)
    case RunStart
    with ch m q d show ?thesis by (simp add: run_start_def destroying_def split: if_splits main_pc.splits)
  next
    case (ConnectionsChange i b)
    with ch show ?thesis by (auto simp: connections_change_def split: if_splits)
  qed (use ch m d in \<open>auto split: main_pc.splits if_splits\<close>)
qed

lemma destroy_measure_open_conns: "destroy_measure (s\<lparr>open_conns := f\<rparr>) = destroy_measure s"
  by (simp add: destroy_measure_def split: main_pc.splits)



end
