(* ===== verification/Loop_Thread.thy ===== *)
theory Loop_Thread
  imports Prelude
begin

text \<open>
  The class \<^verbatim>\<open>EventLoopThread\<close> (\<^verbatim>\<open>EventLoopThread.hpp\<close>, \<^verbatim>\<open>EventLoopThread.cpp\<close>) as a
  step relation: the thread that owns the object and the thread it starts, each with a
  program counter. Waiting on the condition variable releases the mutex in the same step;
  a spurious wakeup is a step of its own, so that it can be left out.
\<close>

section \<open>State\<close>

text \<open>
  The owner: before a call, at the assertion of \<^verbatim>\<open>startLoop\<close>, creating the thread, acquiring
  the mutex, about to wait, waiting, woken, returned with a pointer, aborted; in the
  destructor waiting for the thread, gone.
\<close>

datatype owner = OIdle | OAssert | OSpawn | OLock | OPre | OWaiting | OWoken | OReturned "nat option"
  | OAborted | OJoin | OGone

text \<open>
  The new thread: not there, constructing its loop, about to publish its address, about to
  notify, looping, returned (its loop is destroyed).
\<close>

datatype loop_thread = TNone | TMake | TPublish | TNotify | TLoop | TDone

text \<open>A pointer is \<open>None\<close> or the address of the loop, which is \<open>Some 1\<close>.\<close>

record elt =
  m_started :: bool
  m_loop :: "nat option"
  m_locked :: bool
  owner :: owner
  m_thread :: loop_thread
  loop_quit :: bool

definition new_EventLoopThread :: elt where
  "new_EventLoopThread = \<lparr>m_started = False, m_loop = None, m_locked = False, owner = OIdle,
     m_thread = TNone, loop_quit = False\<rparr>"

section \<open>Steps\<close>

text \<open>\<^verbatim>\<open>startLoop\<close>, and the end of the destructor. No result means that the thread is blocked.\<close>

definition owner_step :: "elt \<Rightarrow> elt option" where
  "owner_step s =
     (case owner s of
        OAssert \<Rightarrow> Some (if m_started s then s\<lparr>owner := OAborted\<rparr> else s\<lparr>m_started := True, owner := OSpawn\<rparr>)
      | OSpawn \<Rightarrow> Some (s\<lparr>m_thread := TMake, owner := OLock\<rparr>)
      | OLock \<Rightarrow> if \<not> m_locked s then Some (s\<lparr>m_locked := True, owner := OPre\<rparr>) else None
      | OPre \<Rightarrow> Some (s\<lparr>m_locked := False, owner := OWaiting\<rparr>)
      | OWoken \<Rightarrow> if \<not> m_locked s then Some (s\<lparr>owner := OReturned (m_loop s)\<rparr>) else None
      | OJoin \<Rightarrow> if m_thread s = TDone then Some (s\<lparr>owner := OGone\<rparr>) else None
      | _ \<Rightarrow> None)"

text \<open>\<^verbatim>\<open>runInThread\<close>: the mutex is not taken.\<close>

definition runInThread :: "elt \<Rightarrow> elt option" where
  "runInThread s =
     (case m_thread s of
        TMake \<Rightarrow> Some (s\<lparr>m_thread := TPublish\<rparr>)
      | TPublish \<Rightarrow> Some (s\<lparr>m_loop := Some 1, m_thread := TNotify\<rparr>)
      | TNotify \<Rightarrow> Some (s\<lparr>owner := (if owner s = OWaiting then OWoken else owner s), m_thread := TLoop\<rparr>)
      | TLoop \<Rightarrow> if loop_quit s then Some (s\<lparr>m_thread := TDone\<rparr>) else None
      | _ \<Rightarrow> None)"

text \<open>
  The choices of the environment: a call of \<^verbatim>\<open>startLoop\<close>, the destructor, \<^verbatim>\<open>quit\<close> through the
  returned pointer, a spurious wakeup.
\<close>

datatype elt_choice = DoOwner | DoThread | CallStartLoop | CallDestructor | CallQuit | SpuriousWakeup

fun elt_do :: "elt_choice \<Rightarrow> elt \<Rightarrow> elt option" where
  "elt_do DoOwner s = owner_step s"
| "elt_do DoThread s = runInThread s"
| "elt_do CallStartLoop s =
     (case owner s of OIdle \<Rightarrow> Some (s\<lparr>owner := OAssert\<rparr>) | OReturned v \<Rightarrow> Some (s\<lparr>owner := OAssert\<rparr>) | _ \<Rightarrow> None)"
| "elt_do CallDestructor s =
     (case owner s of
        OIdle \<Rightarrow> Some (s\<lparr>owner := (if m_started s then OJoin else OGone)\<rparr>)
      | OReturned v \<Rightarrow> Some (s\<lparr>owner := (if m_started s then OJoin else OGone)\<rparr>)
      | _ \<Rightarrow> None)"
| "elt_do CallQuit s = (case owner s of OReturned (Some p) \<Rightarrow> Some (s\<lparr>loop_quit := True\<rparr>) | _ \<Rightarrow> None)"
| "elt_do SpuriousWakeup s = (if owner s = OWaiting then Some (s\<lparr>owner := OWoken\<rparr>) else None)"

inductive elt_step :: "bool \<Rightarrow> elt \<Rightarrow> elt \<Rightarrow> bool" for spurious :: bool where
  elt_step: "elt_do ch s = Some s' \<Longrightarrow> ch = SpuriousWakeup \<longrightarrow> spurious \<Longrightarrow> elt_step spurious s s'"

inductive_cases elt_stepE: "elt_step spurious s s'"

definition elt_init :: "elt \<Rightarrow> bool" where
  "elt_init s \<longleftrightarrow> s = new_EventLoopThread"

fun elt_run :: "elt_choice list \<Rightarrow> elt \<Rightarrow> elt option" where
  "elt_run [] s = Some s"
| "elt_run (ch # chs) s = (case elt_do ch s of None \<Rightarrow> None | Some s' \<Rightarrow> elt_run chs s')"

lemma elt_run_reach:
  "elt_run chs s = Some s' \<Longrightarrow> SpuriousWakeup \<in> set chs \<longrightarrow> sp \<Longrightarrow> reach elt_init (elt_step sp) s
     \<Longrightarrow> reach elt_init (elt_step sp) s'"
proof (induction chs arbitrary: s)
  case (Cons ch chs)
  then obtain t where t: "elt_do ch s = Some t" "elt_run chs t = Some s'" by (auto split: option.splits)
  have "elt_step sp s t" using t(1) Cons.prems(2) by (auto intro: elt_step.intros)
  with Cons t show ?case by (auto intro: reach_step)
qed simp

section \<open>Invariant\<close>

text \<open>
  Without spurious wakeups: the loop's address is published exactly when the thread is past
  publishing, the owner is woken and returns only after that, and the thread ends only after
  \<^verbatim>\<open>quit\<close>.
\<close>

definition elt_inv :: "elt \<Rightarrow> bool" where
  "elt_inv s \<longleftrightarrow> m_loop s = (if m_thread s \<in> {TNotify, TLoop, TDone} then Some 1 else None)
     \<and> (owner s = OWoken \<or> owner s = OJoin \<longrightarrow> m_thread s \<in> {TLoop, TDone})
     \<and> (\<forall>v. owner s = OReturned v \<longrightarrow> v = Some 1 \<and> m_thread s \<in> {TLoop, TDone})
     \<and> (owner s = OIdle \<longrightarrow> \<not> m_started s)
     \<and> (owner s = OAssert \<and> m_started s \<longrightarrow> m_thread s \<in> {TLoop, TDone})
     \<and> (owner s = OSpawn \<longrightarrow> m_started s \<and> m_thread s = TNone)
     \<and> (\<not> m_started s \<longrightarrow> m_thread s = TNone)
     \<and> (owner s = OGone \<longrightarrow> m_thread s \<in> {TNone, TDone})
     \<and> (m_locked s \<longleftrightarrow> owner s = OPre)
     \<and> (m_thread s = TDone \<longrightarrow> loop_quit s)"

lemma owner_step_inv: "owner_step s = Some t \<Longrightarrow> elt_inv s \<Longrightarrow> elt_inv t"
  by (cases "owner s"; cases "m_thread s"; clarsimp simp: owner_step_def elt_inv_def split: if_splits)

lemma runInThread_inv: "runInThread s = Some t \<Longrightarrow> elt_inv s \<Longrightarrow> elt_inv t"
  by (cases "m_thread s"; cases "owner s"; clarsimp simp: runInThread_def elt_inv_def split: if_splits)

lemma elt_inv_step: "elt_inv s \<Longrightarrow> elt_step False s t \<Longrightarrow> elt_inv t"
proof (erule elt_stepE)
  fix ch
  assume inv: "elt_inv s" and d: "elt_do ch s = Some t" "ch = SpuriousWakeup \<longrightarrow> False"
  show "elt_inv t"
  proof (cases ch)
    case DoOwner
    with inv d owner_step_inv show ?thesis by simp
  next
    case DoThread
    with inv d runInThread_inv show ?thesis by simp
  next
    case CallStartLoop
    with inv d show ?thesis by (cases "owner s"; clarsimp simp: elt_inv_def; force)
  next
    case CallDestructor
    with inv d show ?thesis by (cases "owner s"; clarsimp simp: elt_inv_def; force)
  next
    case CallQuit
    with inv d show ?thesis by (auto simp: elt_inv_def split: owner.splits option.splits)
  qed (use d in simp)
qed

interpretation loop_thread: inductive_invariant elt_init "elt_step False" elt_inv
proof
  show "elt_inv s" if "elt_init s" for s
    using that by (simp add: elt_init_def new_EventLoopThread_def elt_inv_def)
qed (rule elt_inv_step)

section \<open>Properties\<close>

text \<open>
  C19. When no wakeup is spurious, \<^verbatim>\<open>startLoop\<close> returns the address of the loop of the new
  thread, published and notified, and that loop lives until \<^verbatim>\<open>quit\<close> is called on it; and the
  destructor is only through when there is no thread any more.
\<close>

theorem startLoop_returns_loop:
  assumes "reach elt_init (elt_step False) s"
  shows "(owner s = OReturned v \<longrightarrow> v = Some 1 \<and> m_loop s = v \<and> (m_thread s = TLoop \<or> loop_quit s))
    \<and> (owner s = OGone \<longrightarrow> m_thread s \<in> {TNone, TDone})"
  using loop_thread.reach_inv[OF assms] by (auto simp: elt_inv_def)

lemma startLoop_returns_loop_witness:
  "\<exists>s. elt_run [CallStartLoop, DoOwner, DoOwner, DoOwner, DoOwner, DoThread, DoThread, DoThread, DoOwner]
       new_EventLoopThread = Some s \<and> owner s = OReturned (Some 1) \<and> m_thread s = TLoop"
proof -
  let ?chs = "[CallStartLoop, DoOwner, DoOwner, DoOwner, DoOwner, DoThread, DoThread, DoThread, DoOwner]"
  obtain s v where s: "elt_run ?chs new_EventLoopThread = Some s" "owner s = OReturned v" "\<not> loop_quit s"
    by (simp add: new_EventLoopThread_def owner_step_def runInThread_def)
  have "reach elt_init (elt_step False) s"
    by (rule elt_run_reach[OF s(1)]) (auto intro: reach_init simp: elt_init_def)
  from startLoop_returns_loop[OF this, of v] s show ?thesis by auto
qed

text \<open>
  C38. \<^verbatim>\<open>startLoop\<close> waits without looking at \<^verbatim>\<open>m_loop\<close>, and the new thread notifies without
  the mutex. When it is faster than the owner, its notification is lost and the owner sleeps
  forever; and a spurious wakeup makes \<^verbatim>\<open>startLoop\<close> return the null pointer.
\<close>

theorem startLoop_hangs_or_returns_null:
  "(\<exists>s. reach elt_init (elt_step False) s \<and> owner s = OWaiting \<and> m_loop s = Some 1
      \<and> owner ` {t. (elt_step False)\<^sup>*\<^sup>* s t} = {OWaiting})
    \<and> (\<exists>s. reach elt_init (elt_step True) s \<and> owner s = OReturned None)"
proof
  define hung where "hung s \<longleftrightarrow> owner s = OWaiting \<and> m_thread s = TLoop \<and> \<not> loop_quit s" for s :: elt
  have stays: "hung t" if "(elt_step False)\<^sup>*\<^sup>* s t" "hung s" for s t
    using that
  proof (induction rule: rtranclp_induct)
    case (step t u)
    then obtain ch where "elt_do ch t = Some u" "ch \<noteq> SpuriousWakeup" "hung t" by (auto elim: elt_stepE)
    then show ?case by (cases ch) (auto simp: hung_def owner_step_def runInThread_def)
  qed
  obtain s where s: "elt_run [CallStartLoop, DoOwner, DoOwner, DoThread, DoThread, DoThread, DoOwner, DoOwner]
      new_EventLoopThread = Some s" "hung s" "m_loop s = Some 1"
    by (simp add: new_EventLoopThread_def owner_step_def runInThread_def hung_def)
  have "reach elt_init (elt_step False) s"
    by (rule elt_run_reach[OF s(1)]) (auto intro: reach_init simp: elt_init_def)
  moreover have "owner t = OWaiting" if "(elt_step False)\<^sup>*\<^sup>* s t" for t
    using stays[OF that s(2)] by (simp add: hung_def)
  moreover from this have "owner ` {t. (elt_step False)\<^sup>*\<^sup>* s t} = {OWaiting}"
    by (intro equalityI subsetI) (auto intro: rev_image_eqI[of s])
  ultimately show "\<exists>s. reach elt_init (elt_step False) s \<and> owner s = OWaiting \<and> m_loop s = Some 1
      \<and> owner ` {t. (elt_step False)\<^sup>*\<^sup>* s t} = {OWaiting}"
    using s(2,3) by (intro exI[of _ s]) (simp add: hung_def)
next
  obtain s where s: "elt_run [CallStartLoop, DoOwner, DoOwner, DoOwner, DoOwner, SpuriousWakeup, DoOwner]
      new_EventLoopThread = Some s" "owner s = OReturned None"
    by (simp add: new_EventLoopThread_def owner_step_def)
  have "reach elt_init (elt_step True) s"
    by (rule elt_run_reach[OF s(1)]) (auto intro: reach_init simp: elt_init_def)
  with s(2) show "\<exists>s. reach elt_init (elt_step True) s \<and> owner s = OReturned None" by blast
qed

end
