(* ===== verification/Loop_Wakeup.thy ===== *)
theory Loop_Wakeup
  imports Prelude
begin

text \<open>
  How other threads talk to an \<^verbatim>\<open>EventLoop\<close> (\<^verbatim>\<open>EventLoop.cpp\<close>): \<^verbatim>\<open>queueInLoop\<close>,
  \<^verbatim>\<open>wakeup\<close>, \<^verbatim>\<open>quit\<close> and \<^verbatim>\<open>loop\<close> as a step relation, the loop thread and any number of
  callers with a program counter each. A critical section of \<^verbatim>\<open>m_mutex\<close> is a single
  statement, so it is a single step. (What one thread does is in the theory \<open>Event_Loop\<close>.)
\<close>

section \<open>State\<close>

text \<open>
  The loop thread: at the test of \<^verbatim>\<open>while (!m_quit)\<close>, in \<^verbatim>\<open>epoll_wait\<close>, handling the events
  (whether the wakeup descriptor is among them), at the swap of the task queue, running the
  tasks it took, returned, aborted (in a task). A caller: idle, about to queue a task, to wake the loop
  up for it, at the assertion of \<^verbatim>\<open>quit\<close>, about to set the flag, to wake the loop up for it.
\<close>

datatype 't loop_pc = LTest | LPoll | LHandle bool | LSwap | LRun "'t list" | LLeft | LAborted "'t list"

datatype 't caller = CIdle | CPush 't | CWake | CQuit | CQuitSet | CQuitWake | CAborted

record 't shared_loop =
  pending :: "'t list"
  quit_flag :: bool
  wakeup_fd :: nat
  loop_at :: "'t loop_pc"
  callers :: "'t caller list"
  queued :: "'t list"
  executed :: "'t list"

definition new_shared_loop :: "nat \<Rightarrow> 't shared_loop" where
  "new_shared_loop n = \<lparr>pending = [], quit_flag = False, wakeup_fd = 0, loop_at = LTest,
     callers = replicate n CIdle, queued = [], executed = []\<rparr>"

section \<open>Steps\<close>

text \<open>
  A task run by the loop may itself queue tasks (\<open>spawn\<close>) and quit the loop (\<open>stops\<close>), in
  the loop thread, where \<^verbatim>\<open>quit\<close> does not write to the descriptor.
\<close>

definition run_shared :: "('t \<Rightarrow> 't list) \<Rightarrow> ('t \<Rightarrow> bool) \<Rightarrow> 't \<Rightarrow> 't list \<Rightarrow> 't shared_loop \<Rightarrow> 't shared_loop" where
  "run_shared spawn stops t ts s =
     s\<lparr>pending := pending s @ spawn t, queued := queued s @ spawn t,
       wakeup_fd := wakeup_fd s + length (spawn t), executed := executed s @ [t],
       quit_flag := quit_flag s \<or> stops t,
       loop_at := (if stops t \<and> quit_flag s then LAborted ts else LRun ts)\<rparr>"

text \<open>\<open>others\<close> says whether another descriptor or the timeout ends \<^verbatim>\<open>epoll_wait\<close>.\<close>

definition loop_step :: "('t \<Rightarrow> 't list) \<Rightarrow> ('t \<Rightarrow> bool) \<Rightarrow> bool \<Rightarrow> 't shared_loop \<Rightarrow> 't shared_loop option" where
  "loop_step spawn stops others s =
     (case loop_at s of
        LTest \<Rightarrow> Some (s\<lparr>loop_at := (if quit_flag s then LLeft else LPoll)\<rparr>)
      | LPoll \<Rightarrow> if wakeup_fd s > 0 then Some (s\<lparr>loop_at := LHandle True\<rparr>)
                 else if others then Some (s\<lparr>loop_at := LHandle False\<rparr>) else None
      | LHandle b \<Rightarrow> Some (s\<lparr>wakeup_fd := (if b then 0 else wakeup_fd s), loop_at := LSwap\<rparr>)
      | LSwap \<Rightarrow> Some (s\<lparr>pending := [], loop_at := LRun (pending s)\<rparr>)
      | LRun ts \<Rightarrow> (case ts of [] \<Rightarrow> Some (s\<lparr>loop_at := LTest\<rparr>) | t # ts \<Rightarrow> Some (run_shared spawn stops t ts s))
      | _ \<Rightarrow> None)"

definition set_caller :: "nat \<Rightarrow> 't caller \<Rightarrow> 't shared_loop \<Rightarrow> 't shared_loop" where
  "set_caller i c s = s\<lparr>callers := (callers s)[i := c]\<rparr>"

definition caller_step :: "nat \<Rightarrow> 't shared_loop \<Rightarrow> 't shared_loop option" where
  "caller_step i s =
     (case callers s ! i of
        CPush t \<Rightarrow> Some (set_caller i CWake (s\<lparr>pending := pending s @ [t], queued := queued s @ [t]\<rparr>))
      | CWake \<Rightarrow> Some (set_caller i CIdle (s\<lparr>wakeup_fd := wakeup_fd s + 1\<rparr>))
      | CQuit \<Rightarrow> Some (set_caller i (if quit_flag s then CAborted else CQuitSet) s)
      | CQuitSet \<Rightarrow> Some (set_caller i CQuitWake (s\<lparr>quit_flag := True\<rparr>))
      | CQuitWake \<Rightarrow> Some (set_caller i CIdle (s\<lparr>wakeup_fd := wakeup_fd s + 1\<rparr>))
      | _ \<Rightarrow> None)"

datatype 't loop_choice = LoopMoves bool | CallerMoves nat | CallQueueInLoop nat 't | CallQuitLoop nat

fun shared_do :: "('t \<Rightarrow> 't list) \<Rightarrow> ('t \<Rightarrow> bool) \<Rightarrow> 't loop_choice \<Rightarrow> 't shared_loop \<Rightarrow> 't shared_loop option" where
  "shared_do spawn stops (LoopMoves others) s = loop_step spawn stops others s"
| "shared_do spawn stops (CallerMoves i) s = (if i < length (callers s) then caller_step i s else None)"
| "shared_do spawn stops (CallQueueInLoop i t) s =
     (if i < length (callers s) then (case callers s ! i of CIdle \<Rightarrow> Some (set_caller i (CPush t) s) | _ \<Rightarrow> None) else None)"
| "shared_do spawn stops (CallQuitLoop i) s =
     (if i < length (callers s) then (case callers s ! i of CIdle \<Rightarrow> Some (set_caller i CQuit s) | _ \<Rightarrow> None) else None)"

inductive shared_step :: "('t \<Rightarrow> 't list) \<Rightarrow> ('t \<Rightarrow> bool) \<Rightarrow> 't shared_loop \<Rightarrow> 't shared_loop \<Rightarrow> bool"
  for spawn stops where
  shared_step: "shared_do spawn stops ch s = Some s' \<Longrightarrow> shared_step spawn stops s s'"

inductive_cases shared_stepE: "shared_step spawn stops s s'"

definition shared_init :: "'t shared_loop \<Rightarrow> bool" where
  "shared_init s \<longleftrightarrow> (\<exists>n. s = new_shared_loop n)"

fun shared_run :: "('t \<Rightarrow> 't list) \<Rightarrow> ('t \<Rightarrow> bool) \<Rightarrow> 't loop_choice list \<Rightarrow> 't shared_loop \<Rightarrow> 't shared_loop option" where
  "shared_run spawn stops [] s = Some s"
| "shared_run spawn stops (ch # chs) s =
     (case shared_do spawn stops ch s of None \<Rightarrow> None | Some s' \<Rightarrow> shared_run spawn stops chs s')"

lemma shared_run_reach:
  "shared_run spawn stops chs s = Some s' \<Longrightarrow> reach shared_init (shared_step spawn stops) s
     \<Longrightarrow> reach shared_init (shared_step spawn stops) s'"
proof (induction chs arbitrary: s)
  case (Cons ch chs)
  then obtain t where t: "shared_do spawn stops ch s = Some t" "shared_run spawn stops chs t = Some s'"
    by (auto split: option.splits)
  have "shared_step spawn stops s t" using t(1) by (rule shared_step.intros)
  with Cons t show ?case by (auto intro: reach_step)
qed simp

section \<open>Invariant\<close>

fun batch :: "'t loop_pc \<Rightarrow> 't list" where
  "batch (LRun ts) = ts"
| "batch (LAborted ts) = ts"
| "batch _ = []"

text \<open>The points from which the queue is swapped before \<^verbatim>\<open>epoll_wait\<close> is called again.\<close>

fun swap_ahead :: "'t loop_pc \<Rightarrow> bool" where
  "swap_ahead (LHandle b) = True"
| "swap_ahead LSwap = True"
| "swap_ahead _ = False"

definition shared_inv :: "'t shared_loop \<Rightarrow> bool" where
  "shared_inv s \<longleftrightarrow> queued s = executed s @ batch (loop_at s) @ pending s
     \<and> (pending s \<noteq> [] \<and> \<not> swap_ahead (loop_at s) \<longrightarrow> 0 < wakeup_fd s \<or> CWake \<in> set (callers s))
     \<and> (quit_flag s \<and> loop_at s = LPoll \<longrightarrow> 0 < wakeup_fd s \<or> CQuitWake \<in> set (callers s))"

lemma stays_member: "x \<in> set xs \<Longrightarrow> i < length xs \<Longrightarrow> xs ! i \<noteq> x \<Longrightarrow> x \<in> set (xs[i := y])"
  by (metis in_set_conv_nth length_list_update nth_list_update_neq)

lemma enters: "i < length xs \<Longrightarrow> y \<in> set (xs[i := y])"
  by (rule set_update_memI)

lemma loop_step_inv:
  assumes inv: "shared_inv s" and h: "loop_step spawn stops others s = Some t"
  shows "shared_inv t"
proof (cases "loop_at s")
  case (LRun ts)
  show ?thesis
  proof (cases ts)
    case Nil
    with LRun inv h show ?thesis by (auto simp: loop_step_def shared_inv_def)
  next
    case (Cons a as)
    with LRun inv h show ?thesis
      by (cases "stops a \<and> quit_flag s") (auto simp: loop_step_def shared_inv_def run_shared_def)
  qed
qed (use inv h in \<open>auto simp: loop_step_def shared_inv_def split: if_splits\<close>)

lemma caller_step_inv:
  assumes inv: "shared_inv s" and i: "i < length (callers s)" and h: "caller_step i s = Some t"
  shows "shared_inv t"
proof (cases "callers s ! i")
  case (CPush x)
  with inv i h stays_member[OF _ i, of CQuitWake CWake] enters[OF i, of CWake] show ?thesis
    by (auto simp: caller_step_def shared_inv_def set_caller_def)
next
  case CQuit
  with inv i h stays_member[OF _ i, of CQuitWake] stays_member[OF _ i, of CWake] show ?thesis
    by (auto simp: caller_step_def shared_inv_def set_caller_def)
next
  case CQuitSet
  with inv i h stays_member[OF _ i, of CWake CQuitWake] enters[OF i, of CQuitWake] show ?thesis
    by (auto simp: caller_step_def shared_inv_def set_caller_def)
qed (use inv i h in \<open>auto simp: caller_step_def shared_inv_def set_caller_def\<close>)

lemma shared_inv_step: "shared_inv s \<Longrightarrow> shared_step spawn stops s t \<Longrightarrow> shared_inv t"
proof (erule shared_stepE)
  fix ch
  assume inv: "shared_inv s" and d: "shared_do spawn stops ch s = Some t"
  have call: "shared_inv (set_caller i c s)" if "i < length (callers s)" "callers s ! i = CIdle" for i c
    using inv that stays_member[OF _ that(1), of CWake c] stays_member[OF _ that(1), of CQuitWake c]
    by (auto simp: shared_inv_def set_caller_def)
  show "shared_inv t"
  proof (cases ch)
    case (LoopMoves others)
    with inv d loop_step_inv show ?thesis by fastforce
  next
    case (CallerMoves i)
    with inv d caller_step_inv show ?thesis by (auto split: if_splits)
  qed (use d call in \<open>auto split: if_splits caller.splits\<close>)
qed

interpretation shared_loop: inductive_invariant shared_init "shared_step spawn stops" shared_inv
proof
  show "shared_inv s" if "shared_init s" for s :: "'a shared_loop"
    using that by (auto simp: shared_init_def new_shared_loop_def shared_inv_def)
qed (rule shared_inv_step)

section \<open>Property\<close>

text \<open>
  C6. No wakeup of a loop is lost: when the loop is blocked in \<^verbatim>\<open>epoll_wait\<close>, a task in its
  queue has a caller of \<^verbatim>\<open>queueInLoop\<close> still on its way to the descriptor, and a set quit
  flag a caller of \<^verbatim>\<open>quit\<close>; and whatever threads and tasks queue, the loop executes in the
  order queued, nothing twice and nothing lost while it runs.
\<close>

theorem loop_no_lost_wakeup:
  assumes "reach shared_init (shared_step spawn stops) s"
  shows "(loop_at s = LPoll \<and> wakeup_fd s = 0 \<longrightarrow>
      (pending s \<noteq> [] \<longrightarrow> CWake \<in> set (callers s)) \<and> (quit_flag s \<longrightarrow> CQuitWake \<in> set (callers s)))
    \<and> queued s = executed s @ batch (loop_at s) @ pending s"
  using shared_loop.reach_inv[OF assms] by (auto simp: shared_inv_def)

lemma loop_no_lost_wakeup_witness:
  "\<exists>s. shared_run (\<lambda>_. []) (\<lambda>_. False) [LoopMoves False, CallQueueInLoop 0 7, CallerMoves 0] (new_shared_loop 1) = Some s
     \<and> loop_at s = LPoll \<and> wakeup_fd s = 0 \<and> pending s = [7 :: nat] \<and> CWake \<in> set (callers s)"
proof -
  let ?chs = "[LoopMoves False, CallQueueInLoop 0 7, CallerMoves 0]"
  have "\<exists>s. shared_run (\<lambda>_. []) (\<lambda>_. False) ?chs (new_shared_loop 1) = Some s
      \<and> loop_at s = LPoll \<and> wakeup_fd s = 0 \<and> pending s = [7 :: nat]"
    by (simp add: new_shared_loop_def loop_step_def caller_step_def set_caller_def)
  then obtain s where s: "shared_run (\<lambda>_. []) (\<lambda>_. False) ?chs (new_shared_loop 1) = Some s"
    "loop_at s = LPoll" "wakeup_fd s = 0" "pending s = [7 :: nat]" by blast
  have "reach shared_init (shared_step (\<lambda>_. []) (\<lambda>_. False)) s"
    by (rule shared_run_reach[OF s(1)], rule reach_init) (auto simp: shared_init_def)
  from loop_no_lost_wakeup[OF this] s show ?thesis by auto
qed

end
