(* ===== verification/Loop_Spec.thy ===== *)
theory Loop_Spec
  imports Loop_Wakeup
begin

text \<open>
  What an \<^verbatim>\<open>EventLoop\<close> promises to the threads that use it, without mutex, descriptor and
  program counters: a queue of tasks, run one at a time in the order queued, the tasks a task
  queues after all those already there, until it has been told to quit. The step relation of
  \<open>Loop_Wakeup\<close> is shown to refine it.
\<close>

section \<open>Specification\<close>

record 't task_spec =
  given :: "'t list"
  todo :: "'t list"
  performed :: "'t list"
  told_to_quit :: bool
  ended :: bool

inductive task_step :: "('t \<Rightarrow> 't list) \<Rightarrow> ('t \<Rightarrow> bool) \<Rightarrow> 't task_spec \<Rightarrow> 't task_spec \<Rightarrow> bool"
  for spawn stops where
  give: "task_step spawn stops a (a\<lparr>given := given a @ [t], todo := todo a @ [t]\<rparr>)"
| perform: "\<not> ended a \<Longrightarrow> todo a = t # ts
     \<Longrightarrow> task_step spawn stops a (a\<lparr>given := given a @ spawn t, todo := ts @ spawn t, performed := performed a @ [t],
           told_to_quit := told_to_quit a \<or> stops t, ended := told_to_quit a \<and> stops t\<rparr>)"
| tell: "task_step spawn stops a (a\<lparr>told_to_quit := True\<rparr>)"
| return: "told_to_quit a \<Longrightarrow> task_step spawn stops a (a\<lparr>ended := True\<rparr>)"

inductive_cases task_stepE: "task_step spawn stops a b"

definition task_init :: "'t task_spec \<Rightarrow> bool" where
  "task_init a \<longleftrightarrow> a = \<lparr>given = [], todo = [], performed = [], told_to_quit = False, ended = False\<rparr>"

definition task_inv :: "'t task_spec \<Rightarrow> bool" where
  "task_inv a \<longleftrightarrow> given a = performed a @ todo a \<and> (ended a \<longrightarrow> told_to_quit a)"

interpretation task_spec: inductive_invariant task_init "task_step spawn stops" task_inv
proof
  fix a b :: "'a task_spec"
  show "task_init a \<Longrightarrow> task_inv a" by (simp add: task_init_def task_inv_def)
  show "task_inv a \<Longrightarrow> task_step spawn stops a b \<Longrightarrow> task_inv b"
    by (auto simp: task_inv_def elim!: task_stepE)
qed

section \<open>Refinement\<close>

fun is_over :: "'t loop_pc \<Rightarrow> bool" where
  "is_over LLeft = True"
| "is_over (LAborted ts) = True"
| "is_over _ = False"

definition loop_view :: "'t shared_loop \<Rightarrow> 't task_spec" where
  "loop_view s = \<lparr>given = queued s, todo = batch (loop_at s) @ pending s, performed = executed s,
     told_to_quit = quit_flag s, ended = is_over (loop_at s)\<rparr>"

lemma loop_step_view:
  assumes h: "loop_step spawn stops others s = Some s'"
  shows "loop_view s' = loop_view s \<or> task_step spawn stops (loop_view s) (loop_view s')"
proof (cases "loop_at s")
  case LTest
  show ?thesis
  proof (cases "quit_flag s")
    case True
    then have "task_step spawn stops (loop_view s) (loop_view s\<lparr>ended := True\<rparr>)"
      by (intro task_step.return) (simp add: loop_view_def)
    with True LTest h show ?thesis by (auto simp: loop_view_def loop_step_def)
  qed (use LTest h in \<open>auto simp: loop_view_def loop_step_def\<close>)
next
  case (LRun ts)
  show ?thesis
  proof (cases ts)
    case (Cons t us)
    with LRun h have s': "s' = run_shared spawn stops t us s" by (simp add: loop_step_def)
    have "\<not> ended (loop_view s)" "todo (loop_view s) = t # us @ pending s"
      using LRun Cons by (simp_all add: loop_view_def)
    note step = task_step.perform[OF this, of spawn stops]
    have "loop_view s' = loop_view s\<lparr>given := given (loop_view s) @ spawn t, todo := (us @ pending s) @ spawn t,
        performed := performed (loop_view s) @ [t], told_to_quit := told_to_quit (loop_view s) \<or> stops t,
        ended := told_to_quit (loop_view s) \<and> stops t\<rparr>"
      by (auto simp: s' loop_view_def run_shared_def)
    with step show ?thesis by simp
  qed (use LRun h in \<open>auto simp: loop_view_def loop_step_def\<close>)
qed (use h in \<open>auto simp: loop_view_def loop_step_def split: if_splits\<close>)

lemma caller_step_view:
  assumes h: "caller_step i s = Some s'"
  shows "loop_view s' = loop_view s \<or> task_step spawn stops (loop_view s) (loop_view s')"
proof (cases "callers s ! i")
  case (CPush t)
  with h have "loop_view s' = loop_view s\<lparr>given := given (loop_view s) @ [t], todo := todo (loop_view s) @ [t]\<rparr>"
    by (auto simp: loop_view_def caller_step_def set_caller_def)
  with task_step.give show ?thesis by metis
next
  case CQuitSet
  with h have "loop_view s' = loop_view s\<lparr>told_to_quit := True\<rparr>"
    by (auto simp: loop_view_def caller_step_def set_caller_def)
  with task_step.tell show ?thesis by metis
qed (use h in \<open>auto simp: loop_view_def caller_step_def set_caller_def\<close>)

interpretation loop_refines: refinement shared_init "shared_step spawn stops" shared_inv
  task_init "task_step spawn stops" loop_view
proof
  fix s s' :: "'a shared_loop"
  show "shared_init s \<Longrightarrow> task_init (loop_view s)"
    by (auto simp: shared_init_def new_shared_loop_def task_init_def loop_view_def)
  assume "shared_step spawn stops s s'"
  then obtain ch where h: "shared_do spawn stops ch s = Some s'" by (auto elim: shared_stepE)
  have calls: "loop_view (set_caller i c s) = loop_view s" for i c by (simp add: loop_view_def set_caller_def)
  show "loop_view s' = loop_view s \<or> task_step spawn stops (loop_view s) (loop_view s')"
  proof (cases ch)
    case (LoopMoves others)
    with h have "loop_step spawn stops others s = Some s'" by simp
    then show ?thesis by (rule loop_step_view)
  next
    case (CallerMoves i)
    with h have "caller_step i s = Some s'" by (simp split: if_splits)
    then show ?thesis by (rule caller_step_view)
  qed (use h calls in \<open>auto split: if_splits caller.splits\<close>)
qed

section \<open>Property\<close>

text \<open>
  C7. A loop used by several threads refines its specification: every state it reaches, with
  any number of callers of \<^verbatim>\<open>queueInLoop\<close> and \<^verbatim>\<open>quit\<close> in any interleaving and tasks that queue
  tasks and quit themselves, shows a state that the sequential executor of a task list reaches,
  and so does every run from there; the tasks run are the first ones given, in order, and the
  loop is over only if it was told to quit.
\<close>

theorem loop_refines_spec:
  assumes "reach shared_init (shared_step spawn stops) s"
  shows "reach task_init (task_step spawn stops) (loop_view s)
    \<and> (\<forall>s'. (shared_step spawn stops)\<^sup>*\<^sup>* s s' \<longrightarrow> (task_step spawn stops)\<^sup>*\<^sup>* (loop_view s) (loop_view s'))
    \<and> queued s = executed s @ batch (loop_at s) @ pending s \<and> (is_over (loop_at s) \<longrightarrow> quit_flag s)"
proof -
  have inv: "task_inv (loop_view s)"
    by (rule loop_refines.invariant_transfer[OF assms task_spec.reach_inv])
  have runs: "(task_step spawn stops)\<^sup>*\<^sup>* (loop_view s) (loop_view s')" if "(shared_step spawn stops)\<^sup>*\<^sup>* s s'" for s'
    by (rule loop_refines.run_view[OF that shared_loop.reach_inv[OF assms]])
  from inv runs loop_refines.reach_view[OF assms] show ?thesis by (simp add: task_inv_def loop_view_def)
qed

text \<open>A task is queued, taken by the loop and run; it queues another one and quits the loop.\<close>

lemma loop_refines_spec_witness:
  "\<exists>s. shared_run (\<lambda>t. if t = 7 then [8] else []) (\<lambda>t. t = (7 :: nat))
       [CallQueueInLoop 0 7, CallerMoves 0, CallerMoves 0, LoopMoves False, LoopMoves False, LoopMoves False,
        LoopMoves False, LoopMoves False, LoopMoves False, LoopMoves False] (new_shared_loop 1) = Some s
     \<and> reach task_init (task_step (\<lambda>t. if t = 7 then [8] else []) (\<lambda>t. t = (7 :: nat)))
         \<lparr>given = [7, 8], todo = [8], performed = [7], told_to_quit = True, ended = True\<rparr>"
proof -
  let ?spawn = "\<lambda>t :: nat. if t = 7 then [8 :: nat] else []" and ?stops = "\<lambda>t :: nat. t = 7"
  let ?chs = "[CallQueueInLoop 0 7, CallerMoves 0, CallerMoves 0, LoopMoves False, LoopMoves False, LoopMoves False,
        LoopMoves False, LoopMoves False, LoopMoves False, LoopMoves False]"
  have "\<exists>s. shared_run ?spawn ?stops ?chs (new_shared_loop 1) = Some s
      \<and> loop_view s = \<lparr>given = [7, 8], todo = [8], performed = [7], told_to_quit = True, ended = True\<rparr>"
    by (simp add: new_shared_loop_def loop_step_def caller_step_def set_caller_def run_shared_def loop_view_def)
  then obtain s where s: "shared_run ?spawn ?stops ?chs (new_shared_loop 1) = Some s"
    "loop_view s = \<lparr>given = [7, 8], todo = [8], performed = [7], told_to_quit = True, ended = True\<rparr>" by blast
  have "reach shared_init (shared_step ?spawn ?stops) s"
    by (rule shared_run_reach[OF s(1)], rule reach_init) (auto simp: shared_init_def)
  from loop_refines_spec[OF this] s(2) have "reach task_init (task_step ?spawn ?stops)
      \<lparr>given = [7, 8], todo = [8], performed = [7], told_to_quit = True, ended = True\<rparr>" by simp
  with s(1) show ?thesis by blast
qed

end
