(* ===== verification/Thread_Pool.thy ===== *)
theory Thread_Pool
  imports Prelude "HOL-Library.Multiset"
begin

text \<open>
  The class \<^verbatim>\<open>ThreadPool\<close> (\<^verbatim>\<open>ThreadPool.hpp\<close>, \<^verbatim>\<open>ThreadPool.cpp\<close>) as a step relation: any
  number of workers, of threads that call \<^verbatim>\<open>runTask\<close>, and one that calls \<^verbatim>\<open>stop\<close>, each
  with a program counter. The mutex is explicit; the flag \<^verbatim>\<open>m_running\<close> is read and written
  outside of it where the code does so. Waiting on a condition variable releases the mutex
  in the same step, a waiting thread may wake up spuriously, \<^verbatim>\<open>notify_one\<close> wakes some
  waiting thread if there is one. The lists \<open>pushed\<close>, \<open>popped\<close> and \<open>executed\<close> record
  the history.
\<close>

section \<open>State\<close>

text \<open>
  A worker: in its initialisation, at the test of \<^verbatim>\<open>while (m_running)\<close>, acquiring the mutex
  (on entry of \<^verbatim>\<open>takeTask\<close> or after a wakeup), at the test of the inner loop, about to wait,
  waiting, about to take a task, about to run what it took, returned.
\<close>

datatype 't worker = WInit | WTest | WLock | WCheck | WPre | WWaiting | WTake | WRun "'t option" | WDone

text \<open>A caller of \<^verbatim>\<open>runTask\<close>; \<open>PAborted\<close> is the failed assertion.\<close>

datatype 't producer = PIdle | PAssert 't | PLock 't | PCheck 't | PPre 't | PWaiting 't | PAborted

text \<open>The caller of \<^verbatim>\<open>stop\<close>.\<close>

datatype stopper = SIdle | SAssert | SLoop | SLook | SSet | SNotify | SNotifyAll | SJoin nat | SDone | SAborted

datatype party = Worker nat | Producer nat | Stopper

record 't pool =
  m_maxQueueSize :: nat
  m_taskQueue :: "'t list"
  m_running :: bool
  m_mutex :: "party option"
  m_threadList :: "'t worker list"
  producers :: "'t producer list"
  stopping :: stopper
  pushed :: "'t list"
  popped :: "'t list"
  executed :: "'t list"
  run_inline :: "'t list"

definition new_ThreadPool :: "nat \<Rightarrow> nat \<Rightarrow> nat \<Rightarrow> 't pool res" where
  "new_ThreadPool numThread maxQueueSize callers =
     assertR (maxQueueSize > 0) ''maxQueueSize > 0'' (
     Inr \<lparr>m_maxQueueSize = maxQueueSize, m_taskQueue = [], m_running = True, m_mutex = None,
       m_threadList = replicate numThread WInit, producers = replicate callers PIdle, stopping = SIdle,
       pushed = [], popped = [], executed = [], run_inline = []\<rparr>)"

section \<open>Steps\<close>

definition set_worker :: "nat \<Rightarrow> 't worker \<Rightarrow> 't pool \<Rightarrow> 't pool" where
  "set_worker i w s = s\<lparr>m_threadList := (m_threadList s)[i := w]\<rparr>"

definition set_producer :: "nat \<Rightarrow> 't producer \<Rightarrow> 't pool \<Rightarrow> 't pool" where
  "set_producer j p s = s\<lparr>producers := (producers s)[j := p]\<rparr>"

definition is_waiting :: "'t producer \<Rightarrow> bool" where
  "is_waiting p \<longleftrightarrow> (case p of PWaiting t \<Rightarrow> True | _ \<Rightarrow> False)"

fun woken :: "'t producer \<Rightarrow> 't producer" where
  "woken (PWaiting t) = PLock t"
| "woken p = p"

text \<open>\<^verbatim>\<open>notify_one\<close>: \<open>k\<close> is the waiting thread chosen, any number when there is none.\<close>

definition notify_notEmpty :: "nat \<Rightarrow> 't pool \<Rightarrow> 't pool option" where
  "notify_notEmpty k s =
     (if WWaiting \<in> set (m_threadList s)
      then if k < length (m_threadList s) \<and> m_threadList s ! k = WWaiting then Some (set_worker k WLock s) else None
      else Some s)"

definition notify_notFull :: "nat \<Rightarrow> 't pool \<Rightarrow> 't pool option" where
  "notify_notFull k s =
     (if list_ex is_waiting (producers s)
      then if k < length (producers s) \<and> is_waiting (producers s ! k)
           then Some (set_producer k (woken (producers s ! k)) s) else None
      else Some s)"

text \<open>\<^verbatim>\<open>runInThread\<close> and \<^verbatim>\<open>takeTask\<close>. No result means that the thread is blocked.\<close>

definition worker_step :: "nat \<Rightarrow> nat \<Rightarrow> 't pool \<Rightarrow> 't pool option" where
  "worker_step i k s =
     (case m_threadList s ! i of
        WInit \<Rightarrow> Some (set_worker i WTest s)
      | WTest \<Rightarrow> Some (set_worker i (if m_running s then WLock else WDone) s)
      | WLock \<Rightarrow> if m_mutex s = None then Some (set_worker i WCheck (s\<lparr>m_mutex := Some (Worker i)\<rparr>)) else None
      | WCheck \<Rightarrow> Some (set_worker i (if m_taskQueue s = [] \<and> m_running s then WPre else WTake) s)
      | WPre \<Rightarrow> Some (set_worker i WWaiting (s\<lparr>m_mutex := None\<rparr>))
      | WWaiting \<Rightarrow> Some (set_worker i WLock s)
      | WTake \<Rightarrow>
          (case m_taskQueue s of
             [] \<Rightarrow> Some (set_worker i (WRun None) (s\<lparr>m_mutex := None\<rparr>))
           | t # ts \<Rightarrow> notify_notFull k (set_worker i (WRun (Some t))
                (s\<lparr>m_taskQueue := ts, popped := popped s @ [t], m_mutex := None\<rparr>)))
      | WRun task \<Rightarrow> Some (set_worker i WTest
          (case task of None \<Rightarrow> s | Some t \<Rightarrow> s\<lparr>executed := executed s @ [t]\<rparr>))
      | WDone \<Rightarrow> None)"

text \<open>\<^verbatim>\<open>runTask\<close>\<close>

definition producer_step :: "nat \<Rightarrow> nat \<Rightarrow> 't pool \<Rightarrow> 't pool option" where
  "producer_step j k s =
     (case producers s ! j of
        PIdle \<Rightarrow> None
      | PAssert t \<Rightarrow>
          if \<not> m_running s then Some (set_producer j PAborted s)
          else if m_threadList s = [] then Some (set_producer j PIdle (s\<lparr>run_inline := run_inline s @ [t]\<rparr>))
          else Some (set_producer j (PLock t) s)
      | PLock t \<Rightarrow> if m_mutex s = None then Some (set_producer j (PCheck t) (s\<lparr>m_mutex := Some (Producer j)\<rparr>)) else None
      | PCheck t \<Rightarrow>
          if length (m_taskQueue s) \<ge> m_maxQueueSize s then Some (set_producer j (PPre t) s)
          else notify_notEmpty k (set_producer j PIdle
                 (s\<lparr>m_taskQueue := m_taskQueue s @ [t], pushed := pushed s @ [t], m_mutex := None\<rparr>))
      | PPre t \<Rightarrow> Some (set_producer j (PWaiting t) (s\<lparr>m_mutex := None\<rparr>))
      | PWaiting t \<Rightarrow> Some (set_producer j (PLock t) s)
      | PAborted \<Rightarrow> None)"

text \<open>\<^verbatim>\<open>stop\<close>, also called by the destructor of a running pool.\<close>

definition stop_step :: "'t pool \<Rightarrow> 't pool option" where
  "stop_step s =
     (case stopping s of
        SIdle \<Rightarrow> None
      | SAssert \<Rightarrow> Some (s\<lparr>stopping := (if m_running s then SLoop else SAborted)\<rparr>)
      | SLoop \<Rightarrow> if m_mutex s = None then Some (s\<lparr>m_mutex := Some Stopper, stopping := SLook\<rparr>) else None
      | SLook \<Rightarrow> Some (s\<lparr>m_mutex := None, stopping := (if m_taskQueue s = [] then SSet else SLoop)\<rparr>)
      | SSet \<Rightarrow> Some (s\<lparr>m_running := False, stopping := SNotify\<rparr>)
      | SNotify \<Rightarrow> if m_mutex s = None then Some (s\<lparr>m_mutex := Some Stopper, stopping := SNotifyAll\<rparr>) else None
      | SNotifyAll \<Rightarrow> Some (s\<lparr>m_threadList := map (\<lambda>w. if w = WWaiting then WLock else w) (m_threadList s),
                       m_mutex := None, stopping := SJoin 0\<rparr>)
      | SJoin n \<Rightarrow>
          if n < length (m_threadList s)
          then (if m_threadList s ! n = WDone then Some (s\<lparr>stopping := SJoin (n + 1)\<rparr>) else None)
          else Some (s\<lparr>stopping := SDone\<rparr>)
      | SDone \<Rightarrow> None
      | SAborted \<Rightarrow> None)"

text \<open>One step of the system: some thread moves, or a caller enters \<^verbatim>\<open>runTask\<close> or \<^verbatim>\<open>stop\<close>.\<close>

datatype 't choice = DoWorker nat nat | DoProducer nat nat | DoStop | CallRunTask nat 't | CallStop

fun pool_do :: "'t choice \<Rightarrow> 't pool \<Rightarrow> 't pool option" where
  "pool_do (DoWorker i k) s = (if i < length (m_threadList s) then worker_step i k s else None)"
| "pool_do (DoProducer j k) s = (if j < length (producers s) then producer_step j k s else None)"
| "pool_do DoStop s = stop_step s"
| "pool_do (CallRunTask j t) s =
     (if j < length (producers s) \<and> (case producers s ! j of PIdle \<Rightarrow> True | _ \<Rightarrow> False)
      then Some (set_producer j (PAssert t) s) else None)"
| "pool_do CallStop s = (case stopping s of SIdle \<Rightarrow> Some (s\<lparr>stopping := SAssert\<rparr>) | _ \<Rightarrow> None)"

inductive pool_step :: "'t pool \<Rightarrow> 't pool \<Rightarrow> bool" where
  pool_step: "pool_do ch s = Some s' \<Longrightarrow> pool_step s s'"

definition pool_init :: "'t pool \<Rightarrow> bool" where
  "pool_init s \<longleftrightarrow> (\<exists>n m p. new_ThreadPool n m p = Inr s)"

fun pool_run :: "'t choice list \<Rightarrow> 't pool \<Rightarrow> 't pool option" where
  "pool_run [] s = Some s"
| "pool_run (ch # chs) s = (case pool_do ch s of None \<Rightarrow> None | Some s' \<Rightarrow> pool_run chs s')"

section \<open>Counting threads\<close>

definition cnt :: "('a \<Rightarrow> bool) \<Rightarrow> 'a list \<Rightarrow> nat" where
  "cnt P xs = length (filter P xs)"

lemma cnt_update:
  "i < length xs \<Longrightarrow> cnt P (xs[i := y]) + (if P (xs ! i) then 1 else 0) = cnt P xs + (if P y then 1 else 0)"
proof (induction xs arbitrary: i)
  case (Cons x xs)
  then show ?case by (cases i) (auto simp: cnt_def)
qed simp

lemma cnt_pos: "0 < cnt P xs \<longleftrightarrow> (\<exists>x \<in> set xs. P x)"
  by (auto simp: cnt_def filter_empty_conv)

lemma mset_concat_update:
  "i < length xs \<Longrightarrow>
     mset (concat (map f (xs[i := y]))) + mset (f (xs ! i)) = mset (concat (map f xs)) + mset (f y)"
proof (induction xs arbitrary: i)
  case (Cons x xs)
  then show ?case by (cases i) auto
qed simp

section \<open>Invariant\<close>

definition worker_holds :: "'t worker \<Rightarrow> bool" where
  "worker_holds w \<longleftrightarrow> w \<in> {WCheck, WPre, WTake}"

definition producer_holds :: "'t producer \<Rightarrow> bool" where
  "producer_holds p \<longleftrightarrow> (case p of PCheck t \<Rightarrow> True | PPre t \<Rightarrow> True | _ \<Rightarrow> False)"

text \<open>The mutex is held by the thread that is inside a critical section, and by no other.\<close>

definition mutex_inv :: "'t pool \<Rightarrow> bool" where
  "mutex_inv s \<longleftrightarrow>
     (\<forall>i < length (m_threadList s). worker_holds (m_threadList s ! i) \<longleftrightarrow> m_mutex s = Some (Worker i))
   \<and> (\<forall>j < length (producers s). producer_holds (producers s ! j) \<longleftrightarrow> m_mutex s = Some (Producer j))
   \<and> (stopping s \<in> {SLook, SNotifyAll} \<longleftrightarrow> m_mutex s = Some Stopper)
   \<and> (\<forall>i. m_mutex s = Some (Worker i) \<longrightarrow> i < length (m_threadList s))
   \<and> (\<forall>j. m_mutex s = Some (Producer j) \<longrightarrow> j < length (producers s))"

lemmas pool_defs = set_worker_def set_producer_def notify_notEmpty_def notify_notFull_def
  worker_step_def producer_step_def stop_step_def

lemma woken_holds: "producer_holds (woken p) = producer_holds p" "is_waiting p \<Longrightarrow> \<not> producer_holds p"
  by (cases p; simp add: producer_holds_def is_waiting_def)+

lemma mutex_cong:
  "mutex_inv s \<Longrightarrow> m_threadList s' = m_threadList s \<Longrightarrow> producers s' = producers s
     \<Longrightarrow> m_mutex s' = m_mutex s \<Longrightarrow> stopping s' = stopping s \<Longrightarrow> mutex_inv s'"
  by (simp add: mutex_inv_def)

lemma mutex_same_worker:
  "mutex_inv s \<Longrightarrow> i < length (m_threadList s) \<Longrightarrow> worker_holds w = worker_holds (m_threadList s ! i)
     \<Longrightarrow> mutex_inv (set_worker i w s)"
  by (auto simp: mutex_inv_def set_worker_def nth_list_update)

lemma mutex_take_worker:
  "mutex_inv s \<Longrightarrow> m_mutex s = None \<Longrightarrow> i < length (m_threadList s) \<Longrightarrow> worker_holds w
     \<Longrightarrow> mutex_inv (set_worker i w (s\<lparr>m_mutex := Some (Worker i)\<rparr>))"
  by (auto simp: mutex_inv_def set_worker_def nth_list_update)

lemma mutex_release_worker:
  "mutex_inv s \<Longrightarrow> i < length (m_threadList s) \<Longrightarrow> worker_holds (m_threadList s ! i) \<Longrightarrow> \<not> worker_holds w
     \<Longrightarrow> mutex_inv (set_worker i w (s\<lparr>m_mutex := None\<rparr>))"
  by (auto simp: mutex_inv_def set_worker_def nth_list_update)

lemma mutex_same_producer:
  "mutex_inv s \<Longrightarrow> j < length (producers s) \<Longrightarrow> producer_holds p = producer_holds (producers s ! j)
     \<Longrightarrow> mutex_inv (set_producer j p s)"
  by (auto simp: mutex_inv_def set_producer_def nth_list_update)

lemma mutex_take_producer:
  "mutex_inv s \<Longrightarrow> m_mutex s = None \<Longrightarrow> j < length (producers s) \<Longrightarrow> producer_holds p
     \<Longrightarrow> mutex_inv (set_producer j p (s\<lparr>m_mutex := Some (Producer j)\<rparr>))"
  by (auto simp: mutex_inv_def set_producer_def nth_list_update)

lemma mutex_release_producer:
  "mutex_inv s \<Longrightarrow> j < length (producers s) \<Longrightarrow> producer_holds (producers s ! j) \<Longrightarrow> \<not> producer_holds p
     \<Longrightarrow> mutex_inv (set_producer j p (s\<lparr>m_mutex := None\<rparr>))"
  by (auto simp: mutex_inv_def set_producer_def nth_list_update)

lemma mutex_notify:
  "mutex_inv s \<Longrightarrow> notify_notEmpty k s = Some s' \<Longrightarrow> mutex_inv s'"
  "mutex_inv s \<Longrightarrow> notify_notFull k s = Some s' \<Longrightarrow> mutex_inv s'"
  by (auto simp: notify_notEmpty_def notify_notFull_def woken_holds worker_holds_def
      intro!: mutex_same_worker mutex_same_producer split: if_splits)

text \<open>What a step of each thread is, one case per program counter.\<close>

lemma worker_step_cases:
  assumes "worker_step i k s = Some s'"
  obtains (init) "m_threadList s ! i = WInit" "s' = set_worker i WTest s"
  | (loop) "m_threadList s ! i = WTest" "m_running s" "s' = set_worker i WLock s"
  | (leave) "m_threadList s ! i = WTest" "\<not> m_running s" "s' = set_worker i WDone s"
  | (lock) "m_threadList s ! i = WLock" "m_mutex s = None" "s' = set_worker i WCheck (s\<lparr>m_mutex := Some (Worker i)\<rparr>)"
  | (empty) "m_threadList s ! i = WCheck" "m_taskQueue s = []" "m_running s" "s' = set_worker i WPre s"
  | (go) "m_threadList s ! i = WCheck" "m_taskQueue s \<noteq> [] \<or> \<not> m_running s" "s' = set_worker i WTake s"
  | (sleep) "m_threadList s ! i = WPre" "s' = set_worker i WWaiting (s\<lparr>m_mutex := None\<rparr>)"
  | (wake) "m_threadList s ! i = WWaiting" "s' = set_worker i WLock s"
  | (idle) "m_threadList s ! i = WTake" "m_taskQueue s = []" "s' = set_worker i (WRun None) (s\<lparr>m_mutex := None\<rparr>)"
  | (taken) t ts where "m_threadList s ! i = WTake" "m_taskQueue s = t # ts"
    "notify_notFull k (set_worker i (WRun (Some t)) (s\<lparr>m_taskQueue := ts, popped := popped s @ [t], m_mutex := None\<rparr>)) = Some s'"
  | (again) "m_threadList s ! i = WRun None" "s' = set_worker i WTest s"
  | (run) t where "m_threadList s ! i = WRun (Some t)" "s' = set_worker i WTest (s\<lparr>executed := executed s @ [t]\<rparr>)"
proof (cases "m_threadList s ! i")
  case WTake
  with assms that(9,10) show thesis by (cases "m_taskQueue s") (simp_all add: worker_step_def)
next
  case (WRun task)
  with assms that(11,12) show thesis by (cases task) (simp_all add: worker_step_def)
qed (use assms that in \<open>simp_all add: worker_step_def split: if_splits\<close>)

lemma producer_step_cases:
  assumes "producer_step j k s = Some s'"
  obtains (aborts) t where "producers s ! j = PAssert t" "\<not> m_running s" "s' = set_producer j PAborted s"
  | (in_place) t where "producers s ! j = PAssert t" "m_running s" "m_threadList s = []"
      "s' = set_producer j PIdle (s\<lparr>run_inline := run_inline s @ [t]\<rparr>)"
  | (enter) t where "producers s ! j = PAssert t" "m_running s" "m_threadList s \<noteq> []" "s' = set_producer j (PLock t) s"
  | (lock) t where "producers s ! j = PLock t" "m_mutex s = None"
      "s' = set_producer j (PCheck t) (s\<lparr>m_mutex := Some (Producer j)\<rparr>)"
  | (full) t where "producers s ! j = PCheck t" "m_maxQueueSize s \<le> length (m_taskQueue s)" "s' = set_producer j (PPre t) s"
  | (push) t where "producers s ! j = PCheck t" "length (m_taskQueue s) < m_maxQueueSize s"
      "notify_notEmpty k (set_producer j PIdle
         (s\<lparr>m_taskQueue := m_taskQueue s @ [t], pushed := pushed s @ [t], m_mutex := None\<rparr>)) = Some s'"
  | (sleep) t where "producers s ! j = PPre t" "s' = set_producer j (PWaiting t) (s\<lparr>m_mutex := None\<rparr>)"
  | (wake) t where "producers s ! j = PWaiting t" "s' = set_producer j (PLock t) s"
proof (cases "producers s ! j")
  case (PAssert t)
  with assms that(1-3) show thesis by (simp add: producer_step_def split: if_splits)
next
  case (PCheck t)
  with assms that(5,6) show thesis
    by (cases "m_maxQueueSize s \<le> length (m_taskQueue s)") (simp_all add: producer_step_def)
qed (use assms that in \<open>simp_all add: producer_step_def split: if_splits\<close>)

lemma stop_step_cases:
  assumes "stop_step s = Some s'"
  obtains (begin_stop) "stopping s = SAssert" "m_running s" "s' = s\<lparr>stopping := SLoop\<rparr>"
  | (aborts) "stopping s = SAssert" "\<not> m_running s" "s' = s\<lparr>stopping := SAborted\<rparr>"
  | (lock) "stopping s = SLoop" "m_mutex s = None" "s' = s\<lparr>m_mutex := Some Stopper, stopping := SLook\<rparr>"
  | (drained) "stopping s = SLook" "m_taskQueue s = []" "s' = s\<lparr>m_mutex := None, stopping := SSet\<rparr>"
  | (again) "stopping s = SLook" "m_taskQueue s \<noteq> []" "s' = s\<lparr>m_mutex := None, stopping := SLoop\<rparr>"
  | (clear) "stopping s = SSet" "s' = s\<lparr>m_running := False, stopping := SNotify\<rparr>"
  | (lock2) "stopping s = SNotify" "m_mutex s = None" "s' = s\<lparr>m_mutex := Some Stopper, stopping := SNotifyAll\<rparr>"
  | (wake_all) "stopping s = SNotifyAll"
      "s' = s\<lparr>m_threadList := map (\<lambda>w. if w = WWaiting then WLock else w) (m_threadList s), m_mutex := None, stopping := SJoin 0\<rparr>"
  | (joined) n where "stopping s = SJoin n" "n < length (m_threadList s)" "m_threadList s ! n = WDone"
      "s' = s\<lparr>stopping := SJoin (n + 1)\<rparr>"
  | (finish) n where "stopping s = SJoin n" "length (m_threadList s) \<le> n" "s' = s\<lparr>stopping := SDone\<rparr>"
proof (cases "stopping s")
  case SAssert
  with assms that(1,2) show thesis by (cases "m_running s") (simp_all add: stop_step_def)
next
  case SLoop
  with assms that(3) show thesis by (simp add: stop_step_def split: if_splits)
next
  case SLook
  with assms that(4,5) show thesis by (cases "m_taskQueue s = []") (simp_all add: stop_step_def)
next
  case SSet
  with assms that(6) show thesis by (simp add: stop_step_def)
next
  case SNotify
  with assms that(7) show thesis by (simp add: stop_step_def split: if_splits)
next
  case SNotifyAll
  with assms that(8) show thesis by (simp add: stop_step_def)
next
  case (SJoin n)
  with assms that(9,10) show thesis by (cases "n < length (m_threadList s)") (simp_all add: stop_step_def split: if_splits)
qed (use assms in \<open>simp_all add: stop_step_def\<close>)

lemma pool_do_cases:
  assumes "pool_do ch s = Some s'"
  obtains (worker) i k where "i < length (m_threadList s)" "worker_step i k s = Some s'"
  | (producer) j k where "j < length (producers s)" "producer_step j k s = Some s'"
  | (stop) "stop_step s = Some s'"
  | (call) j t where "j < length (producers s)" "producers s ! j = PIdle" "s' = set_producer j (PAssert t) s"
  | (call_stop) "stopping s = SIdle" "s' = s\<lparr>stopping := SAssert\<rparr>"
proof (cases ch)
  case (DoWorker i k)
  with assms that(1) show thesis by (simp split: if_splits)
next
  case (DoProducer j k)
  with assms that(2) show thesis by (simp split: if_splits)
next
  case DoStop
  with assms that(3) show thesis by simp
next
  case (CallRunTask j t)
  with assms that(4)[of j t] show thesis by (cases "producers s ! j") (simp_all split: if_splits)
next
  case CallStop
  with assms that(5) show thesis by (cases "stopping s") simp_all
qed

lemma mutex_step:
  assumes inv: "mutex_inv s" and step: "pool_do ch s = Some s'"
  shows "mutex_inv s'"
  using step
proof (cases rule: pool_do_cases)
  case (worker i k)
  note w = mutex_same_worker[OF inv worker(1)] mutex_take_worker[OF inv _ worker(1)]
    mutex_release_worker[OF inv worker(1)]
  from worker(2) show ?thesis
  proof (cases rule: worker_step_cases)
    case (idle)
    with w(3) show ?thesis by (simp add: worker_holds_def)
  next
    case (taken t ts)
    let ?s = "set_worker i (WRun (Some t)) (s\<lparr>m_mutex := None\<rparr>)"
    have "mutex_inv ?s" using w(3) taken(1) by (simp add: worker_holds_def)
    then have "mutex_inv (set_worker i (WRun (Some t)) (s\<lparr>m_taskQueue := ts, popped := popped s @ [t], m_mutex := None\<rparr>))"
      by (rule mutex_cong) (simp_all add: set_worker_def)
    with taken(3) show ?thesis by (rule mutex_notify(2)[rotated])
  next
    case (run t)
    have "mutex_inv (set_worker i WTest s)" using w(1) run(1) by (simp add: worker_holds_def)
    then show ?thesis by (rule mutex_cong) (simp_all add: set_worker_def run(2))
  qed (use w in \<open>simp_all add: worker_holds_def\<close>)
next
  case (producer j k)
  note p = mutex_same_producer[OF inv producer(1)] mutex_take_producer[OF inv _ producer(1)]
    mutex_release_producer[OF inv producer(1)]
  from producer(2) show ?thesis
  proof (cases rule: producer_step_cases)
    case (in_place t)
    have "mutex_inv (set_producer j PIdle s)" using p(1) in_place(1) by (simp add: producer_holds_def)
    then show ?thesis by (rule mutex_cong) (simp_all add: set_producer_def in_place(4))
  next
    case (push t)
    have "mutex_inv (set_producer j PIdle (s\<lparr>m_mutex := None\<rparr>))"
      using p(3) push(1) by (simp add: producer_holds_def)
    then have "mutex_inv (set_producer j PIdle
         (s\<lparr>m_taskQueue := m_taskQueue s @ [t], pushed := pushed s @ [t], m_mutex := None\<rparr>))"
      by (rule mutex_cong) (simp_all add: set_producer_def)
    with push(3) show ?thesis by (rule mutex_notify(1)[rotated])
  qed (use p in \<open>simp_all add: producer_holds_def\<close>)
next
  case stop
  from stop show ?thesis
  proof (cases rule: stop_step_cases)
    case wake_all
    with inv show ?thesis by (auto simp: mutex_inv_def worker_holds_def)
  qed (use inv in \<open>auto simp: mutex_inv_def\<close>)
next
  case (call j t)
  with mutex_same_producer[OF inv] show ?thesis by (simp add: producer_holds_def)
next
  case call_stop
  with inv show ?thesis by (simp add: mutex_inv_def)
qed

text \<open>
  The rest of the invariant. The queue is bounded, tasks leave it in the order they came,
  what was executed or is about to be is what left it. While a worker sleeps, every queued
  task has a worker on its way to it; while a producer sleeps, every free place of the queue
  has one. Once \<^verbatim>\<open>stop\<close> has woken the workers, none of them goes to sleep again.
\<close>

definition coming_worker :: "'t worker \<Rightarrow> bool" where
  "coming_worker w \<longleftrightarrow> w \<in> {WLock, WCheck, WTake}"

definition sleeping_worker :: "'t worker \<Rightarrow> bool" where
  "sleeping_worker w \<longleftrightarrow> w \<in> {WPre, WWaiting}"

definition coming_producer :: "'t producer \<Rightarrow> bool" where
  "coming_producer p \<longleftrightarrow> (case p of PLock t \<Rightarrow> True | PCheck t \<Rightarrow> True | _ \<Rightarrow> False)"

definition sleeping_producer :: "'t producer \<Rightarrow> bool" where
  "sleeping_producer p \<longleftrightarrow> (case p of PPre t \<Rightarrow> True | PWaiting t \<Rightarrow> True | _ \<Rightarrow> False)"

fun running_task :: "'t worker \<Rightarrow> 't list" where
  "running_task (WRun (Some t)) = [t]"
| "running_task _ = []"

definition queue_inv :: "'t pool \<Rightarrow> bool" where
  "queue_inv s \<longleftrightarrow> length (m_taskQueue s) \<le> m_maxQueueSize s \<and> pushed s = popped s @ m_taskQueue s
     \<and> mset (executed s) + mset (concat (map running_task (m_threadList s))) = mset (popped s)"

definition wakeup_inv :: "'t pool \<Rightarrow> bool" where
  "wakeup_inv s \<longleftrightarrow>
     (0 < cnt sleeping_worker (m_threadList s) \<longrightarrow> length (m_taskQueue s) \<le> cnt coming_worker (m_threadList s))
   \<and> (0 < cnt sleeping_producer (producers s) \<longrightarrow>
        m_maxQueueSize s \<le> length (m_taskQueue s) + cnt coming_producer (producers s))"

definition stop_inv :: "'t pool \<Rightarrow> bool" where
  "stop_inv s \<longleftrightarrow>
     (stopping s \<in> {SNotify, SNotifyAll, SDone} \<union> range SJoin \<longrightarrow> \<not> m_running s)
   \<and> (stopping s \<in> {SDone} \<union> range SJoin \<longrightarrow> cnt sleeping_worker (m_threadList s) = 0)
   \<and> (\<forall>n. stopping s = SJoin n \<longrightarrow> (\<forall>i < n. i < length (m_threadList s) \<longrightarrow> m_threadList s ! i = WDone))
   \<and> (stopping s = SDone \<longrightarrow> (\<forall>i < length (m_threadList s). m_threadList s ! i = WDone))"

text \<open>Notification, for the parts of the invariant.\<close>

lemma notify_notEmpty_cases:
  assumes "notify_notEmpty k s = Some s'"
  obtains (one) "k < length (m_threadList s)" "m_threadList s ! k = WWaiting" "s' = set_worker k WLock s"
  | (none) "WWaiting \<notin> set (m_threadList s)" "s' = s"
proof (cases "WWaiting \<in> set (m_threadList s)")
  case True
  with assms have "k < length (m_threadList s)" "m_threadList s ! k = WWaiting" "s' = set_worker k WLock s"
    by (simp_all add: notify_notEmpty_def split: if_splits)
  then show thesis by (rule one)
next
  case False
  with assms have "s' = s" by (simp add: notify_notEmpty_def)
  with False show thesis by (rule none)
qed

lemma notify_notFull_cases:
  assumes "notify_notFull k s = Some s'"
  obtains (one) t where "k < length (producers s)" "producers s ! k = PWaiting t" "s' = set_producer k (PLock t) s"
  | (none) "\<And>t. PWaiting t \<notin> set (producers s)" "s' = s"
proof (cases "list_ex is_waiting (producers s)")
  case True
  with assms have k: "k < length (producers s)" "is_waiting (producers s ! k)"
    "s' = set_producer k (woken (producers s ! k)) s"
    by (simp_all add: notify_notFull_def split: if_splits)
  then show thesis by (cases "producers s ! k") (simp_all add: is_waiting_def one)
next
  case False
  with assms have "s' = s" by (simp add: notify_notFull_def)
  moreover have "PWaiting t \<notin> set (producers s)" for t
    using False by (auto simp: list_ex_iff is_waiting_def split: producer.splits)
  ultimately show thesis by (rule none[rotated])
qed

lemma notify_frame:
  assumes "notify_notEmpty k s = Some s' \<or> notify_notFull k s = Some s'"
  shows "m_taskQueue s' = m_taskQueue s" "m_maxQueueSize s' = m_maxQueueSize s" "pushed s' = pushed s"
    "popped s' = popped s" "executed s' = executed s" "m_running s' = m_running s" "stopping s' = stopping s"
  using assms
  by (auto simp: notify_notEmpty_def notify_notFull_def set_worker_def set_producer_def split: if_splits)

lemma wake_all_none_sleep:
  assumes m: "mutex_inv s" and st: "stopping s = SNotifyAll"
  shows "cnt sleeping_worker (map (\<lambda>w. if w = WWaiting then WLock else w) (m_threadList s)) = 0"
proof -
  have "\<not> sleeping_worker (if w = WWaiting then WLock else w)" if "w \<in> set (m_threadList s)" for w
  proof -
    from that obtain i where "i < length (m_threadList s)" "w = m_threadList s ! i" by (metis in_set_conv_nth)
    then have "w \<noteq> WPre" using m st by (auto simp: mutex_inv_def worker_holds_def)
    then show ?thesis by (auto simp: sleeping_worker_def)
  qed
  then show ?thesis by (simp add: cnt_def filter_map comp_def)
qed

text \<open>While a thread of the other kind is in its critical section, sleeping threads really wait.\<close>

lemma sleeping_workers_wait:
  assumes "mutex_inv s" and "\<And>i. m_mutex s \<noteq> Some (Worker i)" and "0 < cnt sleeping_worker (m_threadList s)"
  shows "WWaiting \<in> set (m_threadList s)"
proof -
  from assms(3) obtain i where i: "i < length (m_threadList s)" "sleeping_worker (m_threadList s ! i)"
    unfolding cnt_pos by (metis in_set_conv_nth)
  with assms(1,2) have "m_threadList s ! i = WWaiting"
    by (auto simp: mutex_inv_def worker_holds_def sleeping_worker_def)
  with i(1) show ?thesis by (metis nth_mem)
qed

lemma sleeping_producers_wait:
  assumes "mutex_inv s" and "\<And>j. m_mutex s \<noteq> Some (Producer j)" and "0 < cnt sleeping_producer (producers s)"
  shows "\<exists>t. PWaiting t \<in> set (producers s)"
proof -
  from assms(3) obtain j where j: "j < length (producers s)" "sleeping_producer (producers s ! j)"
    unfolding cnt_pos by (metis in_set_conv_nth)
  then have "\<not> producer_holds (producers s ! j)" using assms(1,2) by (simp add: mutex_inv_def)
  with j have "\<exists>t. producers s ! j = PWaiting t"
    by (auto simp: sleeping_producer_def producer_holds_def split: producer.splits)
  with j(1) show ?thesis by (metis nth_mem)
qed

lemma stop_inv_step:
  assumes m: "mutex_inv s" and inv: "stop_inv s" and step: "pool_do ch s = Some s'"
  shows "stop_inv s'"
proof -
  have same: "stop_inv t" if "stopping t = stopping s" "m_running t = m_running s" "m_threadList t = m_threadList s" for t
    using inv that by (simp add: stop_inv_def)
  have upd: "stop_inv t" if "stopping t = stopping s" "m_running t = m_running s"
    "m_threadList t = (m_threadList s)[i := w]" "i < length (m_threadList s)" "m_threadList s ! i \<noteq> WDone"
    "sleeping_worker w \<longrightarrow> sleeping_worker (m_threadList s ! i) \<or> m_running s" for t i w
  proof -
    have c: "cnt sleeping_worker (m_threadList t) = 0"
      if "cnt sleeping_worker (m_threadList s) = 0" "\<not> m_running s"
    proof -
      have "\<not> sleeping_worker (m_threadList s ! i)"
        using that(1) cnt_pos[of sleeping_worker "m_threadList s"] nth_mem[OF \<open>i < length (m_threadList s)\<close>] by auto
      with \<open>sleeping_worker w \<longrightarrow> _\<close> that(2) have "\<not> sleeping_worker w" by blast
      with cnt_update[OF \<open>i < length (m_threadList s)\<close>, of sleeping_worker w] that(1)
        \<open>m_threadList t = _\<close> show ?thesis by (auto split: if_splits)
    qed
    have "m_threadList t ! k = WDone" if "m_threadList s ! k = WDone" for k
      using that \<open>m_threadList t = _\<close> \<open>m_threadList s ! i \<noteq> WDone\<close> by (metis nth_list_update_neq)
    with inv that(1-3) c show ?thesis by (auto simp: stop_inv_def)
  qed
  from step show ?thesis
  proof (cases rule: pool_do_cases)
    case (worker i k)
    from worker(2) show ?thesis
    proof (cases rule: worker_step_cases)
      case (taken t ts)
      then have "\<exists>u. m_threadList s' = (m_threadList s)[i := WRun (Some t)] \<and> stopping s' = stopping s \<and> m_running s' = m_running s"
        by (cases rule: notify_notFull_cases[OF taken(3)]) (auto simp: set_worker_def set_producer_def)
      with upd[of s' i "WRun (Some t)"] worker(1) taken(1) show ?thesis by (simp add: sleeping_worker_def)
    qed (use worker(1) in \<open>auto simp: set_worker_def sleeping_worker_def intro!: upd[of _ i]\<close>)
  next
    case (producer j k)
    from producer(2) show ?thesis
    proof (cases rule: producer_step_cases)
      case (push t)
      from push(3) show ?thesis
      proof (cases rule: notify_notEmpty_cases)
        case one
        with upd[of s' k WLock] show ?thesis by (simp add: set_worker_def set_producer_def sleeping_worker_def)
      next
        case none
        with same[of s'] show ?thesis by (simp add: set_producer_def)
      qed
    qed (simp_all add: same set_producer_def)
  next
    case stop
    from stop show ?thesis
    proof (cases rule: stop_step_cases)
      case wake_all
      with inv wake_all_none_sleep[OF m wake_all(1)] show ?thesis by (simp add: stop_inv_def)
    next
      case (joined n)
      with inv show ?thesis by (auto simp: stop_inv_def less_Suc_eq)
    next
      case (finish n)
      with inv show ?thesis by (auto simp: stop_inv_def)
    qed (use inv in \<open>auto simp: stop_inv_def\<close>)
  next
    case (call j t)
    then show ?thesis by (simp add: same set_producer_def)
  next
    case call_stop
    with inv show ?thesis by (auto simp: stop_inv_def)
  qed
qed

lemma queue_inv_step:
  assumes inv: "queue_inv s" and step: "pool_do ch s = Some s'"
  shows "queue_inv s'"
proof -
  have upd: "queue_inv t" if "m_taskQueue t = m_taskQueue s" "m_maxQueueSize t = m_maxQueueSize s" "pushed t = pushed s"
    "popped t = popped s" "executed t = executed s @ running_task (m_threadList s ! i)"
    "m_threadList t = (m_threadList s)[i := w]" "running_task w = []" "i < length (m_threadList s)" for t i w
    using inv that mset_concat_update[OF that(8), of running_task w]
    by (auto simp: queue_inv_def ac_simps)
  have same: "queue_inv t" if "m_taskQueue t = m_taskQueue s" "m_maxQueueSize t = m_maxQueueSize s" "pushed t = pushed s"
    "popped t = popped s" "executed t = executed s" "m_threadList t = m_threadList s" for t
    using inv that by (simp add: queue_inv_def)
  from step show ?thesis
  proof (cases rule: pool_do_cases)
    case (worker i k)
    from worker(2) show ?thesis
    proof (cases rule: worker_step_cases)
      case (taken t ts)
      note fr = notify_frame[OF disjI2[OF taken(3)]]
      have "m_threadList s' = (m_threadList s)[i := WRun (Some t)]"
        by (cases rule: notify_notFull_cases[OF taken(3)]) (auto simp: set_worker_def set_producer_def)
      with fr inv taken(1,2) mset_concat_update[OF worker(1), of running_task "WRun (Some t)"] show ?thesis
        by (auto simp: queue_inv_def set_worker_def)
    qed (use worker(1) in \<open>auto simp: set_worker_def intro!: upd[of _ i]\<close>)
  next
    case (producer j k)
    from producer(2) show ?thesis
    proof (cases rule: producer_step_cases)
      case (push t)
      note fr = notify_frame[OF disjI1[OF push(3)]]
      from push(3) have "mset (concat (map running_task (m_threadList s'))) = mset (concat (map running_task (m_threadList s)))"
      proof (cases rule: notify_notEmpty_cases)
        case one
        then show ?thesis
          using mset_concat_update[of k "m_threadList s" running_task WLock]
          by (simp add: set_worker_def set_producer_def)
      next
        case none
        then show ?thesis by (simp add: set_producer_def)
      qed
      with fr inv push(2) show ?thesis by (simp add: queue_inv_def set_producer_def)
    qed (simp_all add: same set_producer_def)
  next
    case stop
    from stop show ?thesis
    proof (cases rule: stop_step_cases)
      case wake_all
      have "running_task \<circ> (\<lambda>w. if w = WWaiting then WLock else w) = (running_task :: 'a worker \<Rightarrow> 'a list)"
        by (rule ext) simp
      with inv show ?thesis by (simp add: queue_inv_def wake_all(2))
    qed (simp_all add: same)
  next
    case (call j t)
    then show ?thesis by (simp add: same set_producer_def)
  next
    case call_stop
    then show ?thesis by (simp add: same)
  qed
qed

lemma wakeup_inv_step:
  assumes m: "mutex_inv s" and inv: "wakeup_inv s" and step: "pool_do ch s = Some s'"
  shows "wakeup_inv s'"
proof -
  note k = sleeping_worker_def coming_worker_def sleeping_producer_def coming_producer_def
  have same: "wakeup_inv t" if "m_taskQueue t = m_taskQueue s" "m_maxQueueSize t = m_maxQueueSize s"
    "producers t = producers s" "m_threadList t = m_threadList s" for t
    using inv that by (simp add: wakeup_inv_def)
  have wupd: "wakeup_inv t" if t: "m_taskQueue t = m_taskQueue s" "m_maxQueueSize t = m_maxQueueSize s"
    "producers t = producers s" "m_threadList t = (m_threadList s)[i := w]" and i: "i < length (m_threadList s)"
    and w: "m_taskQueue s = [] \<or> (sleeping_worker w \<longrightarrow> sleeping_worker (m_threadList s ! i))
      \<and> (coming_worker (m_threadList s ! i) \<longrightarrow> coming_worker w)" for t i w
    using inv t w cnt_update[OF i, of sleeping_worker w] cnt_update[OF i, of coming_worker w]
    by (auto simp: wakeup_inv_def split: if_splits)
  have pupd: "wakeup_inv t" if t: "m_taskQueue t = m_taskQueue s" "m_maxQueueSize t = m_maxQueueSize s"
    "m_threadList t = m_threadList s" "producers t = (producers s)[j := p]" and j: "j < length (producers s)"
    and p: "m_maxQueueSize s \<le> length (m_taskQueue s) \<or> (sleeping_producer p \<longrightarrow> sleeping_producer (producers s ! j))
      \<and> (coming_producer (producers s ! j) \<longrightarrow> coming_producer p)" for t j p
    using inv t p cnt_update[OF j, of sleeping_producer p] cnt_update[OF j, of coming_producer p]
    by (auto simp: wakeup_inv_def split: if_splits)
  from step show ?thesis
  proof (cases rule: pool_do_cases)
    case (worker i c)
    from worker(2) show ?thesis
    proof (cases rule: worker_step_cases)
      case (taken t ts)
      let ?s = "set_worker i (WRun (Some t)) (s\<lparr>m_taskQueue := ts, popped := popped s @ [t], m_mutex := None\<rparr>)"
      have own: "m_mutex s = Some (Worker i)"
        using m worker(1) taken(1) unfolding mutex_inv_def by (metis insertCI worker_holds_def)
      have ws: "m_threadList s' = (m_threadList s)[i := WRun (Some t)]"
        using taken(3) by (auto simp: notify_notFull_def set_worker_def set_producer_def split: if_splits)
      note fr = notify_frame[OF disjI2[OF taken(3)]]
      from taken(3) have "0 < cnt sleeping_producer (producers s') \<longrightarrow>
          m_maxQueueSize s \<le> length ts + cnt coming_producer (producers s')"
      proof (cases rule: notify_notFull_cases)
        case (one u)
        then have j: "c < length (producers s)" "producers s ! c = PWaiting u" "producers s' = (producers s)[c := PLock u]"
          by (simp_all add: set_worker_def set_producer_def)
        have "0 < cnt sleeping_producer (producers s)"
          using j(2) nth_mem[OF j(1)] by (auto simp: cnt_pos k intro!: bexI[of _ "PWaiting u"])
        with inv taken(2) have "m_maxQueueSize s \<le> Suc (length ts) + cnt coming_producer (producers s)"
          by (simp add: wakeup_inv_def)
        with cnt_update[OF j(1), of coming_producer "PLock u"] j show ?thesis by (simp add: k)
      next
        case none
        then have "cnt sleeping_producer (producers s) = 0"
          using sleeping_producers_wait[OF m] own by (force simp: set_worker_def)
        with none show ?thesis by (simp add: set_worker_def)
      qed
      moreover have "cnt coming_worker (m_threadList s') + 1 = cnt coming_worker (m_threadList s)"
        "cnt sleeping_worker (m_threadList s') = cnt sleeping_worker (m_threadList s)"
        using cnt_update[OF worker(1), of coming_worker "WRun (Some t)"]
          cnt_update[OF worker(1), of sleeping_worker "WRun (Some t)"] taken(1) by (simp_all add: ws k)
      ultimately show ?thesis
        using inv fr(1,2) taken(2) by (auto simp: wakeup_inv_def set_worker_def)
    qed (use worker(1) in \<open>simp_all add: set_worker_def k wupd[of _ i]\<close>)
  next
    case (producer j c)
    from producer(2) show ?thesis
    proof (cases rule: producer_step_cases)
      case (push t)
      have "producer_holds (producers s ! j)" by (simp add: push(1) producer_holds_def)
      then have own: "m_mutex s = Some (Producer j)" using m producer(1) by (simp add: mutex_inv_def)
      have ps: "producers s' = (producers s)[j := PIdle]"
        using push(3) by (auto simp: notify_notEmpty_def set_worker_def set_producer_def split: if_splits)
      note fr = notify_frame[OF disjI1[OF push(3)]]
      from push(3) have "0 < cnt sleeping_worker (m_threadList s') \<longrightarrow>
          Suc (length (m_taskQueue s)) \<le> cnt coming_worker (m_threadList s')"
      proof (cases rule: notify_notEmpty_cases)
        case one
        then have i: "c < length (m_threadList s)" "m_threadList s ! c = WWaiting"
          "m_threadList s' = (m_threadList s)[c := WLock]" by (simp_all add: set_worker_def set_producer_def)
        have "0 < cnt sleeping_worker (m_threadList s)"
          using i(2) nth_mem[OF i(1)] by (auto simp: cnt_pos k intro!: bexI[of _ WWaiting])
        with inv have "length (m_taskQueue s) \<le> cnt coming_worker (m_threadList s)"
          by (simp add: wakeup_inv_def)
        with cnt_update[OF i(1), of coming_worker WLock] i show ?thesis by (simp add: k)
      next
        case none
        then have "cnt sleeping_worker (m_threadList s) = 0"
          using sleeping_workers_wait[OF m] own by (force simp: set_producer_def)
        with none show ?thesis by (simp add: set_producer_def)
      qed
      moreover have "cnt coming_producer (producers s') + 1 = cnt coming_producer (producers s)"
        "cnt sleeping_producer (producers s') = cnt sleeping_producer (producers s)"
        using cnt_update[OF producer(1), of coming_producer PIdle]
          cnt_update[OF producer(1), of sleeping_producer PIdle] push(1) by (simp_all add: ps k)
      ultimately show ?thesis
        using inv fr(1,2) by (auto simp: wakeup_inv_def set_producer_def)
    qed (use producer(1) in \<open>simp_all add: set_producer_def k pupd[of _ j]\<close>)
  next
    case stop
    from stop show ?thesis
    proof (cases rule: stop_step_cases)
      case wake_all
      with inv wake_all_none_sleep[OF m wake_all(1)] show ?thesis by (simp add: wakeup_inv_def)
    qed (simp_all add: same)
  next
    case (call j t)
    then show ?thesis by (simp add: set_producer_def k pupd[of _ j "PAssert t"])
  next
    case call_stop
    then show ?thesis by (simp add: same)
  qed
qed

text \<open>The whole invariant, and its induction.\<close>

definition pool_inv :: "'t pool \<Rightarrow> bool" where
  "pool_inv s \<longleftrightarrow> mutex_inv s \<and> queue_inv s \<and> wakeup_inv s \<and> stop_inv s"

lemma pool_inv_init: "pool_init s \<Longrightarrow> pool_inv s"
  by (auto simp: pool_init_def new_ThreadPool_def pool_inv_def mutex_inv_def queue_inv_def wakeup_inv_def stop_inv_def
      res_iffs worker_holds_def producer_holds_def cnt_def sleeping_worker_def sleeping_producer_def)

lemma pool_inv_step: "pool_inv s \<Longrightarrow> pool_step s s' \<Longrightarrow> pool_inv s'"
  by (elim pool_step.cases)
    (auto simp: pool_inv_def intro: mutex_step queue_inv_step wakeup_inv_step stop_inv_step)

interpretation pool: inductive_invariant pool_init pool_step pool_inv
  by unfold_locales (auto intro: pool_inv_init pool_inv_step)

section \<open>Stopping\<close>

text \<open>How far a worker is from returning once \<^verbatim>\<open>m_running\<close> is false.\<close>

fun distance :: "'t worker \<Rightarrow> nat" where
  "distance WDone = 0"
| "distance WTest = 1"
| "distance (WRun _) = 2"
| "distance WInit = 2"
| "distance WTake = 3"
| "distance WCheck = 4"
| "distance WLock = 5"
| "distance WWaiting = 6"
| "distance WPre = 7"

definition way_to_go :: "'t pool \<Rightarrow> nat" where
  "way_to_go s = sum_list (map distance (m_threadList s))"

lemma sum_list_update_less:
  "i < length xs \<Longrightarrow> f y < f (xs ! i) \<Longrightarrow> sum_list (map f (xs[i := y])) < sum_list (map (f :: 'a \<Rightarrow> nat) xs)"
proof (induction xs arbitrary: i)
  case (Cons x xs)
  then show ?case by (cases i) auto
qed simp

lemma worker_step_nearer:
  assumes "worker_step i k s = Some s'" and i: "i < length (m_threadList s)" and "\<not> m_running s"
  shows "way_to_go s' < way_to_go s"
proof -
  have upd: "way_to_go t < way_to_go s" if "m_threadList t = (m_threadList s)[i := w]"
    "distance w < distance (m_threadList s ! i)" for t w
    using sum_list_update_less[OF i, of distance w] that by (simp add: way_to_go_def)
  from assms(1) show ?thesis
  proof (cases rule: worker_step_cases)
    case (taken t ts)
    have "m_threadList s' = (m_threadList s)[i := WRun (Some t)]"
      using taken(3) by (auto simp: notify_notFull_def set_worker_def set_producer_def split: if_splits)
    from upd[OF this] taken(1) show ?thesis by simp
  qed (use assms(3) in \<open>simp_all add: set_worker_def upd\<close>)
qed

lemma notify_possible:
  "\<exists>k s'. notify_notEmpty k s = Some s'" "\<exists>k s'. notify_notFull k s = Some s'"
proof -
  show "\<exists>k s'. notify_notEmpty k s = Some s'"
    by (auto simp: notify_notEmpty_def in_set_conv_nth)
  show "\<exists>k s'. notify_notFull k s = Some s'"
    by (auto simp: notify_notFull_def list_ex_length)
qed

lemma holding_worker_moves:
  assumes "worker_holds (m_threadList s ! i)"
  shows "\<exists>k s'. worker_step i k s = Some s'"
proof -
  have *: "\<exists>k s'. notify_notFull k t = Some s'" for t :: "'a pool" by (rule notify_possible(2))
  from assms consider "m_threadList s ! i = WCheck" | "m_threadList s ! i = WPre" | "m_threadList s ! i = WTake"
    by (auto simp: worker_holds_def)
  then show ?thesis
  proof cases
    case 3
    then show ?thesis by (cases "m_taskQueue s") (auto simp: worker_step_def *)
  qed (simp_all add: worker_step_def)
qed

lemma holding_producer_moves:
  assumes "producer_holds (producers s ! j)"
  shows "\<exists>k s'. producer_step j k s = Some s'"
proof -
  have *: "\<exists>k s'. notify_notEmpty k t = Some s'" for t :: "'a pool" by (rule notify_possible(1))
  from assms consider t where "producers s ! j = PCheck t" | t where "producers s ! j = PPre t"
    by (auto simp: producer_holds_def split: producer.splits)
  then show ?thesis by cases (auto simp: producer_step_def *)
qed

text \<open>
  A run in which nobody is inside \<^verbatim>\<open>runTask\<close> from the call of \<^verbatim>\<open>stop\<close> on: then the queue
  that \<^verbatim>\<open>stop\<close> saw empty stays empty.
\<close>

definition quiet :: "'t pool \<Rightarrow> bool" where
  "quiet s \<longleftrightarrow> set (producers s) \<subseteq> {PIdle, PAborted}"

definition quiet_step :: "'t pool \<Rightarrow> 't pool \<Rightarrow> bool" where
  "quiet_step s s' \<longleftrightarrow> pool_step s s' \<and> (stopping s' \<noteq> SIdle \<longrightarrow> quiet s')"

definition drained_inv :: "'t pool \<Rightarrow> bool" where
  "drained_inv s \<longleftrightarrow> pool_inv s \<and> (stopping s \<noteq> SIdle \<longrightarrow> quiet s)
     \<and> (stopping s \<in> {SSet, SNotify, SNotifyAll, SDone} \<union> range SJoin \<longrightarrow> m_taskQueue s = [])"

lemma drained_inv_step:
  assumes inv: "drained_inv s" and step: "quiet_step s s'"
  shows "drained_inv s'"
proof -
  let ?late = "\<lambda>s :: 'a pool. stopping s \<in> {SSet, SNotify, SNotifyAll, SDone} \<union> range SJoin"
  have "m_taskQueue s' = []" if late: "?late s'"
  proof -
    from step obtain ch where "pool_do ch s = Some s'" by (auto simp: quiet_step_def elim: pool_step.cases)
    then show ?thesis
    proof (cases rule: pool_do_cases)
      case (worker i k)
      from worker(2) show ?thesis
      proof (cases rule: worker_step_cases)
        case (taken t ts)
        have "?late s" using late notify_frame(7)[OF disjI2[OF taken(3)]] by (simp add: set_worker_def)
        with inv taken(2) show ?thesis by (simp add: drained_inv_def)
      qed (use inv late in \<open>auto simp: drained_inv_def set_worker_def\<close>)
    next
      case (producer j k)
      from producer(2) show ?thesis
      proof (cases rule: producer_step_cases)
        case (push t)
        have "stopping s \<noteq> SIdle"
          using late notify_frame(7)[OF disjI1[OF push(3)]] by (auto simp: set_producer_def)
        with inv have "producers s ! j \<in> {PIdle, PAborted}"
          using nth_mem[OF producer(1)] by (auto simp: drained_inv_def quiet_def)
        with push(1) show ?thesis by simp
      qed (use inv late in \<open>auto simp: drained_inv_def set_producer_def\<close>)
    next
      case stop
      from stop show ?thesis
        by (cases rule: stop_step_cases) (use inv late in \<open>auto simp: drained_inv_def\<close>)
    next
      case (call j t)
      with inv late show ?thesis by (auto simp: drained_inv_def set_producer_def)
    next
      case call_stop
      with late show ?thesis by auto
    qed
  qed
  with inv step pool_inv_step show ?thesis by (auto simp: drained_inv_def quiet_step_def)
qed

interpretation quiet_pool: inductive_invariant pool_init quiet_step drained_inv
proof
  fix s s' :: "'a pool"
  show "pool_init s \<Longrightarrow> drained_inv s"
    using pool_inv_init[of s] by (auto simp: drained_inv_def pool_init_def new_ThreadPool_def res_iffs)
  show "drained_inv s \<Longrightarrow> quiet_step s s' \<Longrightarrow> drained_inv s'" by (rule drained_inv_step)
qed

section \<open>Properties\<close>

text \<open>
  A pool with one worker and one caller, whose caller submits a task; the worker takes and
  runs it.
\<close>

definition tiny_pool :: "nat pool" where
  "tiny_pool = \<lparr>m_maxQueueSize = 1, m_taskQueue = [], m_running = True, m_mutex = None,
     m_threadList = [WInit], producers = [PIdle], stopping = SIdle, pushed = [], popped = [], executed = [],
     run_inline = []\<rparr>"

lemma tiny_pool_init: "pool_init tiny_pool"
  by (auto simp: pool_init_def new_ThreadPool_def tiny_pool_def intro!: exI[of _ 1])

lemma pool_run_reach: "pool_run chs s = Some s' \<Longrightarrow> reach pool_init pool_step s \<Longrightarrow> reach pool_init pool_step s'"
proof (induction chs arbitrary: s)
  case (Cons ch chs)
  then obtain s1 where s1: "pool_do ch s = Some s1" "pool_run chs s1 = Some s'" by (auto split: option.splits)
  from Cons.IH[OF s1(2) reach_step[OF Cons.prems(2) pool_step[OF s1(1)]]] show ?case .
qed simp

lemma tiny_pool_reach: "pool_run chs tiny_pool = Some s \<Longrightarrow> reach pool_init pool_step s"
  by (erule pool_run_reach) (rule reach_init, rule tiny_pool_init)

lemmas pool_eval = tiny_pool_def pool_defs is_waiting_def

text \<open>
  C2. No wakeup is lost. In every reachable state, if some worker sleeps (or is about to),
  every task in the queue has a worker that is awake and on its way to the queue; if some
  caller of \<^verbatim>\<open>runTask\<close> sleeps, every free place of the queue has a caller on its way to it.
  So the workers never all sleep on a task, nor the callers on a free place.
\<close>

theorem pool_no_lost_wakeup:
  assumes "reach pool_init pool_step s"
  shows "((\<exists>w \<in> set (m_threadList s). sleeping_worker w) \<longrightarrow>
      length (m_taskQueue s) \<le> length (filter coming_worker (m_threadList s)))
    \<and> ((\<exists>p \<in> set (producers s). sleeping_producer p) \<longrightarrow>
      m_maxQueueSize s \<le> length (m_taskQueue s) + length (filter coming_producer (producers s)))"
  using pool.reach_inv[OF assms] unfolding pool_inv_def wakeup_inv_def cnt_pos by (simp add: cnt_def)

text \<open>A worker has gone to sleep, a task is submitted, and the worker is woken for it.\<close>

lemma pool_no_lost_wakeup_witness:
  "\<exists>s. pool_run [DoWorker 0 0, DoWorker 0 0, DoWorker 0 0, DoWorker 0 0, DoWorker 0 0,
       CallRunTask 0 7, DoProducer 0 0, DoProducer 0 0] tiny_pool = Some s
     \<and> m_threadList s = [WWaiting] \<and> length (m_taskQueue s) \<le> length (filter coming_worker (m_threadList s))"
proof -
  have "\<exists>s. pool_run [DoWorker 0 0, DoWorker 0 0, DoWorker 0 0, DoWorker 0 0, DoWorker 0 0,
       CallRunTask 0 7, DoProducer 0 0, DoProducer 0 0] tiny_pool = Some s \<and> m_threadList s = [WWaiting]"
    by (simp add: pool_eval)
  then obtain s where s: "pool_run [DoWorker 0 0, DoWorker 0 0, DoWorker 0 0, DoWorker 0 0, DoWorker 0 0,
       CallRunTask 0 7, DoProducer 0 0, DoProducer 0 0] tiny_pool = Some s" "m_threadList s = [WWaiting]" by blast
  then have "\<exists>w \<in> set (m_threadList s). sleeping_worker w" by (simp add: sleeping_worker_def)
  with pool_no_lost_wakeup[OF tiny_pool_reach[OF s(1)]] s show ?thesis by blast
qed

text \<open>
  C27. \<^verbatim>\<open>stop\<close> returns: once it has woken the workers and joins them, no worker sleeps or
  will sleep; while one has not returned, a worker can move, or the mutex is held by a
  caller of \<^verbatim>\<open>runTask\<close>, which can move; and every move of a worker brings the workers
  nearer to their end, so there are finitely many.
\<close>

theorem pool_stop_joins:
  assumes r: "reach pool_init pool_step s" and st: "stopping s = SJoin n"
  shows "\<not> m_running s \<and> filter sleeping_worker (m_threadList s) = []
    \<and> (set (m_threadList s) \<subseteq> {WDone}
       \<or> (\<exists>i k s'. pool_do (DoWorker i k) s = Some s')
       \<or> (\<exists>j k s'. m_mutex s = Some (Producer j) \<and> pool_do (DoProducer j k) s = Some s'))
    \<and> (\<forall>i k s'. pool_do (DoWorker i k) s = Some s' \<longrightarrow> way_to_go s' < way_to_go s)"
proof -
  have m: "mutex_inv s" and "stop_inv s" using pool.reach_inv[OF r] by (simp_all add: pool_inv_def)
  then have run: "\<not> m_running s" and sl: "filter sleeping_worker (m_threadList s) = []"
    using st by (auto simp: stop_inv_def cnt_def)
  have near: "way_to_go s' < way_to_go s" if "pool_do (DoWorker i k) s = Some s'" for i k s'
    using that worker_step_nearer[OF _ _ run] by (simp split: if_splits)
  have move: "(\<exists>i k s'. pool_do (DoWorker i k) s = Some s')
       \<or> (\<exists>j k s'. m_mutex s = Some (Producer j) \<and> pool_do (DoProducer j k) s = Some s')"
    if "\<not> set (m_threadList s) \<subseteq> {WDone}"
  proof (cases "m_mutex s")
    case None
    from that obtain i where i: "i < length (m_threadList s)" "m_threadList s ! i \<noteq> WDone"
      by (metis in_set_conv_nth singletonI subsetI)
    moreover have "\<not> worker_holds (m_threadList s ! i)" using m i(1) None by (simp add: mutex_inv_def)
    ultimately have "\<exists>s'. worker_step i 0 s = Some s'"
      using None by (cases "m_threadList s ! i") (auto simp: worker_step_def worker_holds_def)
    with i(1) have "pool_do (DoWorker i 0) s \<noteq> None" by auto
    then show ?thesis by blast
  next
    case (Some q)
    show ?thesis
    proof (cases q)
      case (Worker i)
      then have i: "i < length (m_threadList s)" "worker_holds (m_threadList s ! i)"
        using m Some by (auto simp: mutex_inv_def)
      from holding_worker_moves[OF i(2)] obtain k s' where "worker_step i k s = Some s'" by blast
      with i(1) have "pool_do (DoWorker i k) s = Some s'" by simp
      then show ?thesis by blast
    next
      case (Producer j)
      then have j: "j < length (producers s)" "producer_holds (producers s ! j)"
        using m Some by (auto simp: mutex_inv_def)
      from holding_producer_moves[OF j(2)] obtain k s' where "producer_step j k s = Some s'" by blast
      with j(1) have "pool_do (DoProducer j k) s = Some s'" by simp
      then show ?thesis using Some Producer by blast
    next
      case Stopper
      with Some m st show ?thesis by (auto simp: mutex_inv_def)
    qed
  qed
  show ?thesis using run sl near move by blast
qed

lemma pool_stop_joins_witness:
  "\<exists>s. pool_run [DoWorker 0 0, DoWorker 0 0, DoWorker 0 0, DoWorker 0 0, DoWorker 0 0, CallStop, DoStop, DoStop,
       DoStop, DoStop, DoStop, DoStop] tiny_pool = Some s
     \<and> m_threadList s = [WLock] \<and> filter sleeping_worker (m_threadList s) = []"
proof -
  let ?chs = "[DoWorker 0 0, DoWorker 0 0, DoWorker 0 0, DoWorker 0 0, DoWorker 0 0, CallStop, DoStop, DoStop,
       DoStop, DoStop, DoStop, DoStop]"
  have "\<exists>s. pool_run ?chs tiny_pool = Some s \<and> m_threadList s = [WLock] \<and> stopping s = SJoin 0"
    by (simp add: pool_eval)
  then obtain s where s: "pool_run ?chs tiny_pool = Some s" "m_threadList s = [WLock]" "stopping s = SJoin 0" by blast
  from pool_stop_joins[OF tiny_pool_reach[OF s(1)] s(3)] s show ?thesis by blast
qed

text \<open>
  C28. When nobody is inside \<^verbatim>\<open>runTask\<close> from the call of \<^verbatim>\<open>stop\<close> on, \<^verbatim>\<open>stop\<close> returns only
  after all workers have returned and every task that was ever queued has been executed,
  each exactly once.
\<close>

theorem pool_stop_completes:
  assumes r: "reach pool_init quiet_step s" and st: "stopping s = SDone"
  shows "set (m_threadList s) \<subseteq> {WDone} \<and> m_taskQueue s = [] \<and> mset (executed s) = mset (pushed s)"
proof -
  have inv: "drained_inv s" by (rule quiet_pool.reach_inv[OF r])
  then have q: "m_taskQueue s = []" and p: "pool_inv s" using st by (auto simp: drained_inv_def)
  from p st have d: "set (m_threadList s) \<subseteq> {WDone}"
    by (auto simp: pool_inv_def stop_inv_def in_set_conv_nth)
  then have "concat (map running_task (m_threadList s)) = []" by (auto dest!: subsetD)
  with p q d show ?thesis by (simp add: pool_inv_def queue_inv_def)
qed

lemma quiet_run_reach:
  assumes "reach pool_init quiet_step s" and "pool_do ch s = Some s'" and "stopping s' \<noteq> SIdle \<longrightarrow> quiet s'"
  shows "reach pool_init quiet_step s'"
  using assms by (intro reach_step[OF assms(1)]) (auto simp: quiet_step_def intro: pool_step)

fun quiet_run :: "'t choice list \<Rightarrow> 't pool \<Rightarrow> 't pool option" where
  "quiet_run [] s = Some s"
| "quiet_run (ch # chs) s = (case pool_do ch s of None \<Rightarrow> None
     | Some s' \<Rightarrow> if stopping s' = SIdle \<or> quiet s' then quiet_run chs s' else None)"

lemma quiet_run_reaches:
  "quiet_run chs s = Some s' \<Longrightarrow> reach pool_init quiet_step s \<Longrightarrow> reach pool_init quiet_step s'"
proof (induction chs arbitrary: s)
  case (Cons ch chs)
  then obtain s1 where s1: "pool_do ch s = Some s1" "stopping s1 \<noteq> SIdle \<longrightarrow> quiet s1" "quiet_run chs s1 = Some s'"
    by (auto split: option.splits if_splits)
  from Cons.IH[OF s1(3) quiet_run_reach[OF Cons.prems(2) s1(1,2)]] show ?case .
qed simp

lemma pool_stop_completes_witness:
  "\<exists>s. quiet_run [CallRunTask 0 7, DoProducer 0 0, DoProducer 0 0, DoProducer 0 0, DoWorker 0 0, DoWorker 0 0,
       DoWorker 0 0, DoWorker 0 0, DoWorker 0 0, CallStop, DoStop, DoStop, DoStop, DoStop, DoWorker 0 0,
       DoWorker 0 0, DoStop, DoStop, DoStop, DoStop] tiny_pool = Some s
     \<and> mset (executed s) = {#7#}"
proof -
  let ?chs = "[CallRunTask 0 7, DoProducer 0 0, DoProducer 0 0, DoProducer 0 0, DoWorker 0 0, DoWorker 0 0,
       DoWorker 0 0, DoWorker 0 0, DoWorker 0 0, CallStop, DoStop, DoStop, DoStop, DoStop, DoWorker 0 0,
       DoWorker 0 0, DoStop, DoStop, DoStop, DoStop]"
  have "\<exists>s. quiet_run ?chs tiny_pool = Some s \<and> stopping s = SDone \<and> pushed s = [7]"
    by (simp add: pool_eval quiet_def)
  then obtain s where s: "quiet_run ?chs tiny_pool = Some s" "stopping s = SDone" "pushed s = [7]" by blast
  have "reach pool_init quiet_step s"
    by (rule quiet_run_reaches[OF s(1)]) (rule reach_init, rule tiny_pool_init)
  from pool_stop_completes[OF this s(2)] s show ?thesis by auto
qed

text \<open>
  C39. Without that condition a task can be lost: a caller that has passed the assertion of
  \<^verbatim>\<open>runTask\<close> queues its task after \<^verbatim>\<open>stop\<close> has seen the queue empty; the workers have
  returned, \<^verbatim>\<open>stop\<close> returns, and the task is never run.
\<close>

theorem pool_stop_loses_task:
  "\<exists>s. reach pool_init pool_step s \<and> stopping s = SDone \<and> m_threadList s = [WDone] \<and> producers s = [PIdle]
     \<and> m_taskQueue s = [7 :: nat] \<and> executed s = []"
proof -
  let ?chs = "[CallRunTask 0 7, DoProducer 0 0, CallStop, DoStop, DoStop, DoStop, DoStop, DoProducer 0 0,
    DoProducer 0 0, DoStop, DoStop, DoWorker 0 0, DoWorker 0 0, DoStop, DoStop]"
  have "\<exists>s. pool_run ?chs tiny_pool = Some s \<and> stopping s = SDone \<and> m_threadList s = [WDone]
      \<and> producers s = [PIdle] \<and> m_taskQueue s = [7] \<and> executed s = []"
    by (simp add: pool_eval)
  with tiny_pool_reach show ?thesis by blast
qed

end
