(* ===== verification/Pool_Spec.thy ===== *)
theory Pool_Spec
  imports Thread_Pool
begin

text \<open>
  What a \<^verbatim>\<open>ThreadPool\<close> promises, without mutex, condition variables and program counters: a
  bounded queue of tasks, started in the order of submission by at most as many at once as
  there are threads, each finished once. The step relation of \<open>Thread_Pool\<close> is shown to
  refine it.
\<close>

section \<open>Specification\<close>

record 't pool_spec =
  capacity :: nat
  threads :: nat
  submitted :: "'t list"
  waiting :: "'t list"
  running :: "'t multiset"
  finished :: "'t list"
  in_caller :: "'t list"

inductive spec_step :: "'t pool_spec \<Rightarrow> 't pool_spec \<Rightarrow> bool" where
  submit: "length (waiting a) < capacity a
     \<Longrightarrow> spec_step a (a\<lparr>submitted := submitted a @ [t], waiting := waiting a @ [t]\<rparr>)"
| start: "waiting a = t # ts \<Longrightarrow> size (running a) < threads a
     \<Longrightarrow> spec_step a (a\<lparr>waiting := ts, running := add_mset t (running a)\<rparr>)"
| finish: "t \<in># running a \<Longrightarrow> spec_step a (a\<lparr>running := running a - {#t#}, finished := finished a @ [t]\<rparr>)"
| direct: "threads a = 0 \<Longrightarrow> spec_step a (a\<lparr>in_caller := in_caller a @ [t]\<rparr>)"

inductive_cases spec_stepE: "spec_step a b"

definition spec_init :: "'t pool_spec \<Rightarrow> bool" where
  "spec_init a \<longleftrightarrow> capacity a > 0 \<and> submitted a = [] \<and> waiting a = [] \<and> running a = {#} \<and> finished a = [] \<and> in_caller a = []"

text \<open>What the specification gives its users.\<close>

definition spec_inv :: "'t pool_spec \<Rightarrow> bool" where
  "spec_inv a \<longleftrightarrow> length (waiting a) \<le> capacity a \<and> size (running a) \<le> threads a
     \<and> (\<exists>started. submitted a = started @ waiting a \<and> mset started = running a + mset (finished a))"

interpretation pool_spec: inductive_invariant spec_init spec_step spec_inv
proof
  fix a b :: "'a pool_spec"
  show "spec_init a \<Longrightarrow> spec_inv a" by (simp add: spec_init_def spec_inv_def)
  assume inv: "spec_inv a"
  then obtain started where st: "submitted a = started @ waiting a" "mset started = running a + mset (finished a)"
    by (auto simp: spec_inv_def)
  assume "spec_step a b"
  then show "spec_inv b"
  proof cases
    case (submit t)
    with inv st show ?thesis by (auto simp: spec_inv_def)
  next
    case (start t ts)
    with inv st show ?thesis
      unfolding spec_inv_def by (intro conjI exI[of _ "started @ [t]"]) auto
  next
    case (finish t)
    moreover from inv have "size (running a) - Suc 0 \<le> threads a"
      unfolding spec_inv_def by linarith
    ultimately show ?thesis using inv st
      unfolding spec_inv_def by (intro conjI exI[of _ started]) (auto simp: size_Diff_singleton)
  next
    case (direct t)
    then show ?thesis using inv by (auto simp: spec_inv_def)
  qed
qed

section \<open>Refinement\<close>

definition in_progress :: "'t worker list \<Rightarrow> 't multiset" where
  "in_progress ws = mset (concat (map running_task ws))"

definition pool_view :: "'t pool \<Rightarrow> 't pool_spec" where
  "pool_view s = \<lparr>capacity = m_maxQueueSize s, threads = length (m_threadList s), submitted = pushed s,
     waiting = m_taskQueue s, running = in_progress (m_threadList s), finished = executed s, in_caller = run_inline s\<rparr>"

lemma in_progress_update:
  "i < length ws \<Longrightarrow> in_progress (ws[i := w]) + mset (running_task (ws ! i)) = in_progress ws + mset (running_task w)"
  unfolding in_progress_def by (rule mset_concat_update)

lemma in_progress_size:
  "size (in_progress ws) \<le> length ws"
  "i < length ws \<Longrightarrow> running_task (ws ! i) = [] \<Longrightarrow> size (in_progress ws) < length ws"
proof -
  have one: "length (running_task w) \<le> 1" for w :: "'a worker" by (cases w rule: running_task.cases) auto
  show le: "size (in_progress ws) \<le> length ws" for ws :: "'a worker list"
    unfolding in_progress_def
  proof (induction ws)
    case (Cons w ws)
    with one[of w] show ?case by simp
  qed simp
  show "i < length ws \<Longrightarrow> running_task (ws ! i) = [] \<Longrightarrow> size (in_progress ws) < length ws"
  proof (induction ws arbitrary: i)
    case (Cons w ws)
    show ?case
    proof (cases i)
      case 0
      with Cons.prems le[of ws] show ?thesis by (simp add: in_progress_def)
    next
      case (Suc j)
      with Cons.IH[of j] Cons.prems one[of w] show ?thesis by (simp add: in_progress_def)
    qed
  qed simp
qed

text \<open>Threads that are woken go on waiting for the mutex: nothing visible changes.\<close>

lemma pool_view_set_worker:
  "i < length (m_threadList s) \<Longrightarrow> running_task (m_threadList s ! i) = running_task w
     \<Longrightarrow> pool_view (set_worker i w s) = pool_view s"
  using in_progress_update[of i "m_threadList s" w] by (simp add: pool_view_def set_worker_def)

lemma pool_view_set_producer [simp]: "pool_view (set_producer j p s) = pool_view s"
  by (simp add: pool_view_def set_producer_def)

lemma pool_view_mutex [simp]: "pool_view (s\<lparr>m_mutex := m\<rparr>) = pool_view s"
  by (simp add: pool_view_def)

lemma pool_view_notify:
  "notify_notEmpty k s = Some s' \<Longrightarrow> pool_view s' = pool_view s"
  "notify_notFull k s = Some s' \<Longrightarrow> pool_view s' = pool_view s"
  by (auto simp: notify_notEmpty_def notify_notFull_def pool_view_set_worker split: if_splits)

lemma worker_step_view:
  assumes i: "i < length (m_threadList s)" and h: "worker_step i k s = Some s'"
  shows "pool_view s' = pool_view s \<or> spec_step (pool_view s) (pool_view s')"
proof -
  have still: "pool_view (set_worker i w (s\<lparr>m_mutex := m\<rparr>)) = pool_view s"
    if "running_task (m_threadList s ! i) = []" "running_task w = []" for w m
    using pool_view_set_worker[of i "s\<lparr>m_mutex := m\<rparr>" w] that i by simp
  have still': "pool_view (set_worker i w s) = pool_view s"
    if "running_task (m_threadList s ! i) = []" "running_task w = []" for w
    using pool_view_set_worker[of i s w] that i by simp
  from h show ?thesis
  proof (cases rule: worker_step_cases)
    case (taken t ts)
    let ?s = "set_worker i (WRun (Some t)) (s\<lparr>m_taskQueue := ts, popped := popped s @ [t], m_mutex := None\<rparr>)"
    have "in_progress ((m_threadList s)[i := WRun (Some t)]) = add_mset t (in_progress (m_threadList s))"
      using in_progress_update[OF i, of "WRun (Some t)"] taken(1) by simp
    then have "pool_view ?s = (pool_view s)\<lparr>waiting := ts, running := add_mset t (running (pool_view s))\<rparr>"
      by (simp add: pool_view_def set_worker_def)
    moreover have "waiting (pool_view s) = t # ts" "size (running (pool_view s)) < threads (pool_view s)"
      using taken(1,2) in_progress_size(2)[OF i] by (simp_all add: pool_view_def)
    ultimately show ?thesis using pool_view_notify(2)[OF taken(3)] spec_step.start by metis
  next
    case (run t)
    let ?s = "set_worker i WTest (s\<lparr>executed := executed s @ [t]\<rparr>)"
    have e: "add_mset t (in_progress ((m_threadList s)[i := WTest])) = in_progress (m_threadList s)"
      using in_progress_update[OF i, of WTest] run(1) by simp
    then have "t \<in># running (pool_view s)"
      "in_progress ((m_threadList s)[i := WTest]) = in_progress (m_threadList s) - {#t#}"
      by (simp_all add: pool_view_def flip: e)
    moreover from this(2) have "pool_view ?s = (pool_view s)\<lparr>running := running (pool_view s) - {#t#}, finished := finished (pool_view s) @ [t]\<rparr>"
      by (simp add: pool_view_def set_worker_def)
    ultimately show ?thesis using run(2) spec_step.finish by metis
  qed (simp_all add: still still')
qed

lemma producer_step_view:
  assumes h: "producer_step j k s = Some s'"
  shows "pool_view s' = pool_view s \<or> spec_step (pool_view s) (pool_view s')"
  using h
proof (cases rule: producer_step_cases)
  case (in_place t)
  then have "pool_view s' = (pool_view s)\<lparr>in_caller := in_caller (pool_view s) @ [t]\<rparr>" "threads (pool_view s) = 0"
    by (simp_all add: pool_view_def set_producer_def)
  with spec_step.direct show ?thesis by metis
next
  case (push t)
  have "pool_view s' = (pool_view s)\<lparr>submitted := submitted (pool_view s) @ [t], waiting := waiting (pool_view s) @ [t]\<rparr>"
    unfolding pool_view_notify(1)[OF push(3)] pool_view_set_producer by (simp add: pool_view_def)
  moreover have "length (waiting (pool_view s)) < capacity (pool_view s)" using push(2) by (simp add: pool_view_def)
  ultimately show ?thesis using spec_step.submit by metis
qed simp_all

lemma stop_step_view: "stop_step s = Some s' \<Longrightarrow> pool_view s' = pool_view s"
proof (erule stop_step_cases, goal_cases)
  case 8
  have "running_task \<circ> (\<lambda>w. if w = WWaiting then WLock else w) = (running_task :: 'a worker \<Rightarrow> 'a list)"
    by (simp add: fun_eq_iff)
  with 8 show ?case by (simp add: pool_view_def in_progress_def)
qed (simp_all add: pool_view_def)

interpretation pool_refines: refinement pool_init pool_step pool_inv spec_init spec_step pool_view
proof
  fix s s' :: "'a pool"
  show "pool_init s \<Longrightarrow> spec_init (pool_view s)"
    by (auto simp: pool_init_def new_ThreadPool_def spec_init_def pool_view_def in_progress_def assertR_eq_Inr)
  assume "pool_step s s'"
  then obtain ch where h: "pool_do ch s = Some s'" by (auto elim: pool_step.cases)
  show "pool_view s' = pool_view s \<or> spec_step (pool_view s) (pool_view s')"
  proof (cases ch)
    case (DoWorker i k)
    with h worker_step_view show ?thesis by (simp split: if_splits)
  next
    case (DoProducer j k)
    with h producer_step_view show ?thesis by (simp split: if_splits)
  next
    case DoStop
    with h have "stop_step s = Some s'" by simp
    then show ?thesis by (intro disjI1 stop_step_view)
  next
    case (CallRunTask j t)
    with h have "s' = set_producer j (PAssert t) s" by (auto split: if_splits producer.splits)
    then show ?thesis by (simp only: pool_view_set_producer simp_thms)
  next
    case CallStop
    with h have "s' = s\<lparr>stopping := SAssert\<rparr>" by (auto split: if_splits stopper.splits)
    then show ?thesis by (simp add: pool_view_def)
  qed
qed

section \<open>Property\<close>

text \<open>
  C8. A thread pool refines its specification: every state it reaches, with any number of
  workers, callers of \<^verbatim>\<open>runTask\<close> and a caller of \<^verbatim>\<open>stop\<close> in any interleaving, shows a state that
  the bounded FIFO executor reaches; so the tasks submitted are, in order, the ones started
  followed by the ones waiting, never more wait than the bound and never more run than there
  are threads, and every task started is running or finished once.
\<close>

theorem pool_refines_spec:
  assumes "reach pool_init pool_step s"
  shows "reach spec_init spec_step (pool_view s)
    \<and> length (m_taskQueue s) \<le> m_maxQueueSize s \<and> size (in_progress (m_threadList s)) \<le> length (m_threadList s)
    \<and> (\<exists>started. pushed s = started @ m_taskQueue s
        \<and> mset started = in_progress (m_threadList s) + mset (executed s))"
proof -
  have "spec_inv (pool_view s)" by (rule pool_refines.invariant_transfer[OF assms pool_spec.reach_inv])
  with pool_refines.reach_view[OF assms] show ?thesis by (simp add: spec_inv_def pool_view_def)
qed

lemma pool_refines_spec_witness:
  "\<exists>s. pool_run [CallRunTask 0 7, DoProducer 0 0, DoProducer 0 0, DoProducer 0 0, DoWorker 0 0, DoWorker 0 0,
       DoWorker 0 0, DoWorker 0 0, DoWorker 0 0] tiny_pool = Some s
     \<and> reach spec_init spec_step (pool_view s) \<and> running (pool_view s) = {#7#}"
proof -
  have "\<exists>s. pool_run [CallRunTask 0 7, DoProducer 0 0, DoProducer 0 0, DoProducer 0 0, DoWorker 0 0, DoWorker 0 0,
       DoWorker 0 0, DoWorker 0 0, DoWorker 0 0] tiny_pool = Some s \<and> m_threadList s = [WRun (Some 7)]"
    by (simp add: pool_eval)
  then obtain s where s: "pool_run [CallRunTask 0 7, DoProducer 0 0, DoProducer 0 0, DoProducer 0 0, DoWorker 0 0,
       DoWorker 0 0, DoWorker 0 0, DoWorker 0 0, DoWorker 0 0] tiny_pool = Some s" "m_threadList s = [WRun (Some 7)]"
    by blast
  then have "running (pool_view s) = {#7#}" by (simp add: pool_view_def in_progress_def)
  with pool_refines_spec[OF tiny_pool_reach[OF s(1)]] s(1) show ?thesis by blast
qed

end
