(* ===== verification/Timer_Program.thy ===== *)
theory Timer_Program
  imports Timer_Queue
begin

text \<open>
  The whole program \<^verbatim>\<open>src/test/testTimerLoop.cpp\<close>: a loop with a timer that quits it after
  four seconds and a timer that writes a line every second. Its property composes the
  construction of the timers, the timer queue, the dispatch of the timer channel, \<^verbatim>\<open>quit\<close>
  from a closure and the loop.
\<close>

section \<open>The program\<close>

text \<open>The two closures; the extension of the loop counts the lines written.\<close>

datatype program_cb = QuitLoop | Hello

type_synonym program_loop = "(program_cb, nat) event_loop_scheme"

fun program_exec :: "tid \<Rightarrow> program_cb \<Rightarrow> program_loop \<Rightarrow> program_loop res" where
  "program_exec gettid QuitLoop L = quit gettid L"
| "program_exec gettid Hello L = Inr (L\<lparr>event_loop.more := event_loop.more L + 1\<rparr>)"

text \<open>
  The events of the loop: its timer descriptor at a time, and its wakeup descriptor. \<open>p1\<close> and
  \<open>p2\<close> are the addresses of the timers, \<open>t0\<close> and \<open>t1\<close> the times at which they are made.
\<close>

datatype program_channel = TimerEvent time_point | WakeupEvent

fun program_mark :: "program_channel \<Rightarrow> 32 word \<Rightarrow> program_loop \<Rightarrow> program_loop" where
  "program_mark (TimerEvent now) ev L = L\<lparr>m_timerChannel := setRevents ev (m_timerChannel L), clock_now := now\<rparr>"
| "program_mark WakeupEvent ev L = L\<lparr>m_wakeupChannel := setRevents ev (m_wakeupChannel L)\<rparr>"

fun program_handle :: "program_channel \<Rightarrow> program_loop \<Rightarrow> program_loop res" where
  "program_handle (TimerEvent now) L =
     handleEvents (m_tid L) (m_tid L) True m_timerChannel (reads (handleRead_timer (program_exec (m_tid L)) (m_tid L))) L"
| "program_handle WakeupEvent L =
     handleEvents (m_tid L) (m_tid L) True m_wakeupChannel (reads (handleRead_wakeup (m_tid L))) L"

definition program_timers :: "tid \<Rightarrow> time_point \<Rightarrow> time_point \<Rightarrow> addr \<Rightarrow> addr \<Rightarrow> program_loop \<Rightarrow> program_loop res" where
  "program_timers gettid t0 t1 p1 p2 L =
     bindR (nowAfter t0 4000000000) (\<lambda>when.
     bindR (runAt (program_exec gettid) gettid p1 when (Some QuitLoop) (L\<lparr>clock_now := t0\<rparr>)) (\<lambda>(_, L).
     bindR (runEvery (program_exec gettid) gettid p2 1000000000 (Some Hello) (L\<lparr>clock_now := t1\<rparr>)) (\<lambda>(_, L).
     Inr L)))"

definition main_timerLoop :: "tid \<Rightarrow> time_point \<Rightarrow> time_point \<Rightarrow> addr \<Rightarrow> addr
    \<Rightarrow> (int + (program_channel \<times> 32 word) list) list \<Rightarrow> program_loop \<Rightarrow> program_loop res" where
  "main_timerLoop gettid t0 t1 p1 p2 ews L =
     bindR (program_timers gettid t0 t1 p1 p2 L)
       (loop program_mark program_handle (run_task (program_exec gettid)) (\<lambda>_. Inr) gettid ews)"

section \<open>The timers while the loop runs\<close>

definition quit_timer :: "time_point \<Rightarrow> program_cb timer" where
  "quit_timer t0 = new_Timer (Some QuitLoop) (t0 + 4000000000) 0"

text \<open>The time of the next line when \<open>h\<close> have been written, and the state of its timer.\<close>

definition due_at :: "time_point \<Rightarrow> nat \<Rightarrow> time_point" where
  "due_at t1 h = t1 + (int h + 1) * 1000000000"

definition hello_timer :: "time_point \<Rightarrow> nat \<Rightarrow> program_cb timer" where
  "hello_timer t1 h = new_Timer (Some Hello) (due_at t1 h) 1000000000"

definition program_at :: "tid \<Rightarrow> time_point \<Rightarrow> time_point \<Rightarrow> addr \<Rightarrow> addr \<Rightarrow> nat \<Rightarrow> program_loop \<Rightarrow> bool" where
  "program_at g t0 t1 p1 p2 h L \<longleftrightarrow> m_tid L = g \<and> \<not> m_quit L \<and> m_pendingTasks L = [] \<and> \<not> m_tied (m_timerChannel L)
     \<and> event_loop.more L = h \<and> m_timers L = insort (t0 + 4000000000, p1) [(due_at t1 h, p2)]
     \<and> timer_heap L = [p1 \<mapsto> quit_timer t0, p2 \<mapsto> hello_timer t1 h]"

text \<open>Clock readings at which nothing overflows: the years 1970 to 2116.\<close>

definition sane :: "time_point \<Rightarrow> bool" where
  "sane t \<longleftrightarrow> 0 \<le> t \<and> t < 2 ^ 62"

lemma sane_int64:
  "sane t \<Longrightarrow> int64_ok (t + 1)" "sane t \<Longrightarrow> int64_ok (t + 1000000000)" "sane t \<Longrightarrow> int64_ok (t + 4000000000)"
  "sane t \<Longrightarrow> 0 \<le> x \<Longrightarrow> x \<le> 2 ^ 62 + 4000000000 \<Longrightarrow> int64_ok (x - t)"
  by (simp_all add: sane_def int64_ok_def)

lemma quit_entry:
  assumes "timer_heap M p1 = Some (quit_timer t0)" and "p1 \<noteq> 0" and "\<not> m_quit M" and "m_tid M = g" and "t0 + 4000000000 \<le> now"
  shows "handleEntry (program_exec g) now (t0 + 4000000000, p1) M = Inr (delete_timer p1 (M\<lparr>m_quit := True\<rparr>))"
proof -
  have "entry_ok M (t0 + 4000000000, p1)" using assms by (simp add: entry_ok_def quit_timer_def new_Timer_def)
  from handleEntry_settle[OF this, of now] assms show ?thesis
    by (simp add: run_timer_def quit_timer_def new_Timer_def quit_def isInLoopThread_def settle_def deref_def)
qed

lemma due_at_Suc: "due_at t1 (Suc h) = due_at t1 h + 1000000000"
  by (simp add: due_at_def)

lemma hello_entry:
  assumes "timer_heap M p2 = Some (hello_timer t1 h)" and "p2 \<noteq> 0" and "sane t1" and "due_at t1 h \<le> now" and "sane now"
  shows "handleEntry (program_exec g) now (due_at t1 h, p2) M = Inr (M\<lparr>event_loop.more := event_loop.more M + 1,
     timer_heap := (timer_heap M)(p2 \<mapsto> hello_timer t1 (Suc h)), m_timers := set_insert (due_at t1 (Suc h), p2) (m_timers M)\<rparr>)"
proof -
  have e: "entry_ok M (due_at t1 h, p2)" using assms(1,2) by (simp add: entry_ok_def hello_timer_def new_Timer_def)
  have "int64_ok (due_at t1 (Suc h))" using assms(3-5) by (simp add: due_at_def sane_def int64_ok_def)
  then have "restart (hello_timer t1 h) = Inr (hello_timer t1 (Suc h))"
    by (simp add: restart_def hello_timer_def new_Timer_def due_at_Suc int64_def)
  moreover have "m_callback (hello_timer t1 k) = Some Hello" "m_repeat (hello_timer t1 k)" "\<not> m_canceled (hello_timer t1 k)"
    "m_when (hello_timer t1 k) = due_at t1 k" for k by (simp_all add: hello_timer_def new_Timer_def)
  ultimately show ?thesis
    using handleEntry_settle[OF e, of now "program_exec g"] assms(1,2,4) by (simp add: run_timer_def settle_def deref_def)
qed

text \<open>What one expiry at the time \<open>now\<close> comes to.\<close>

definition lines_after :: "time_point \<Rightarrow> time_point \<Rightarrow> nat \<Rightarrow> nat" where
  "lines_after t1 now h = (if due_at t1 h \<le> now then Suc h else h)"

lemma program_batch:
  assumes at: "program_at g t0 t1 p1 p2 h L" and p: "p1 \<noteq> 0" "p2 \<noteq> 0" "p1 \<noteq> p2" and t: "sane t1" "sane now"
  obtains L1 where "run_all (map (handleEntry (program_exec g) now) (filter (\<lambda>e. fst e \<le> now) (m_timers L)))
      (L\<lparr>m_timers := filter (\<lambda>e. now < fst e) (m_timers L)\<rparr>) = Inr L1"
    "m_tid L1 = g" "m_pendingTasks L1 = []" "clock_now L1 = clock_now L" "event_loop.more L1 = lines_after t1 now h"
    "set (m_timers L1) \<subseteq> {(t0 + 4000000000, p1), (due_at t1 (lines_after t1 now h), p2)}"
    "if t0 + 4000000000 \<le> now then m_quit L1 \<and> timer_heap L1 p1 = None
     else program_at g t0 t1 p1 p2 (lines_after t1 now h) L1"
proof -
  let ?a = "(t0 + 4000000000, p1)" and ?b = "(due_at t1 h, p2)" and ?b' = "(due_at t1 (Suc h), p2)"
  note at' = at[unfolded program_at_def]
  have ts: "m_timers L = (if ?a \<le> ?b then [?a, ?b] else [?b, ?a])" using at' by simp
  have L: "m_tid L = g" "\<not> m_quit L" "m_pendingTasks L = []" "event_loop.more L = h" using at' by simp_all
  have heap: "timer_heap L p1 = Some (quit_timer t0)" "timer_heap L p2 = Some (hello_timer t1 h)" using at' p by simp_all
  consider (none) "now < fst ?a" "now < fst ?b" | (line) "now < fst ?a" "fst ?b \<le> now"
    | (end_only) "fst ?a \<le> now" "now < fst ?b" | (both) "fst ?a \<le> now" "fst ?b \<le> now" by fastforce
  then show thesis
  proof cases
    case none
    then have "filter (\<lambda>e. fst e \<le> now) (m_timers L) = []" "filter (\<lambda>e. now < fst e) (m_timers L) = m_timers L"
      by (simp_all add: ts)
    with none at show thesis by (intro that[of L]) (auto simp: program_at_def lines_after_def ts)
  next
    case line
    let ?M = "L\<lparr>m_timers := [?a]\<rparr>"
    let ?L1 = "?M\<lparr>event_loop.more := event_loop.more ?M + 1, timer_heap := (timer_heap ?M)(p2 \<mapsto> hello_timer t1 (Suc h)),
       m_timers := set_insert ?b' (m_timers ?M)\<rparr>"
    have f: "filter (\<lambda>e. fst e \<le> now) (m_timers L) = [?b]" "filter (\<lambda>e. now < fst e) (m_timers L) = [?a]"
      using line by (auto simp: ts)
    have "insort ?b' [?a] = insort ?a [?b']" using insort_left_comm[of ?b' ?a "[]"] by simp
    then have s: "set_insert ?b' [?a] = insort ?a [?b']" using p by (simp add: set_insert_def del: insort_key.simps)
    have h: "handleEntry (program_exec g) now ?b ?M = Inr ?L1"
      by (rule hello_entry) (use heap p t line in simp_all)
    have "program_at g t0 t1 p1 p2 (Suc h) ?L1"
      using at' s p by (simp add: program_at_def fun_upd_twist del: insort_key.simps)
    moreover have "set (m_timers ?L1) = {?a, ?b'}" by (simp add: s set_insort_key del: insort_key.simps)
    ultimately show thesis using h f line L
      by (intro that[of ?L1]) (simp_all add: lines_after_def del: insort_key.simps)
  next
    case end_only
    let ?M = "L\<lparr>m_timers := [?b]\<rparr>"
    let ?L1 = "delete_timer p1 (?M\<lparr>m_quit := True\<rparr>)"
    have f: "filter (\<lambda>e. fst e \<le> now) (m_timers L) = [?a]" "filter (\<lambda>e. now < fst e) (m_timers L) = [?b]"
      using end_only by (auto simp: ts)
    have h: "handleEntry (program_exec g) now ?a ?M = Inr ?L1"
      by (rule quit_entry) (use heap p L end_only in simp_all)
    with f end_only L show thesis by (intro that[of ?L1]) (simp_all add: lines_after_def delete_timer_def)
  next
    case both
    let ?M = "L\<lparr>m_timers := []\<rparr>"
    have f: "filter (\<lambda>e. now < fst e) (m_timers L) = []" "filter (\<lambda>e. fst e \<le> now) (m_timers L) = m_timers L"
      using both by (simp_all add: ts)
    have q: "handleEntry (program_exec g) now ?a M = Inr (delete_timer p1 (M\<lparr>m_quit := True\<rparr>))"
      if "timer_heap M p1 = Some (quit_timer t0)" "\<not> m_quit M" "m_tid M = g" for M
      by (rule quit_entry) (use that p both in simp_all)
    have h: "handleEntry (program_exec g) now ?b M = Inr (M\<lparr>event_loop.more := event_loop.more M + 1,
       timer_heap := (timer_heap M)(p2 \<mapsto> hello_timer t1 (Suc h)), m_timers := set_insert ?b' (m_timers M)\<rparr>)"
      if "timer_heap M p2 = Some (hello_timer t1 h)" for M
      by (rule hello_entry) (use that p t both in simp_all)
    show thesis
    proof (cases "?a \<le> ?b")
      case True
      let ?N = "delete_timer p1 (?M\<lparr>m_quit := True\<rparr>)"
      have "handleEntry (program_exec g) now ?a ?M = Inr ?N" by (rule q) (use L heap in simp_all)
      moreover have "handleEntry (program_exec g) now ?b ?N = Inr (?N\<lparr>event_loop.more := event_loop.more ?N + 1,
         timer_heap := (timer_heap ?N)(p2 \<mapsto> hello_timer t1 (Suc h)), m_timers := set_insert ?b' (m_timers ?N)\<rparr>)"
        by (rule h) (use heap p in \<open>simp add: delete_timer_def\<close>)
      moreover have "m_timers L = [?a, ?b]" using ts True by (simp only: if_True)
      ultimately show thesis using f both L p
        by (intro that[of "?N\<lparr>event_loop.more := event_loop.more ?N + 1,
           timer_heap := (timer_heap ?N)(p2 \<mapsto> hello_timer t1 (Suc h)), m_timers := set_insert ?b' (m_timers ?N)\<rparr>"])
          (simp_all add: lines_after_def delete_timer_def set_insert_def)
    next
      case False
      let ?N = "?M\<lparr>event_loop.more := event_loop.more ?M + 1, timer_heap := (timer_heap ?M)(p2 \<mapsto> hello_timer t1 (Suc h)),
         m_timers := set_insert ?b' (m_timers ?M)\<rparr>"
      have "handleEntry (program_exec g) now ?b ?M = Inr ?N" by (rule h) (use heap in simp)
      moreover have "handleEntry (program_exec g) now ?a ?N = Inr (delete_timer p1 (?N\<lparr>m_quit := True\<rparr>))"
        by (rule q) (use heap p L in simp_all)
      moreover have "m_timers L = [?b, ?a]" using ts False by (simp only: if_False)
      ultimately show thesis using f both L p
        by (intro that[of "delete_timer p1 (?N\<lparr>m_quit := True\<rparr>)"]) (simp_all add: lines_after_def delete_timer_def set_insert_def)
    qed
  qed
qed

lemma program_at_frame:
  "program_at g t0 t1 p1 p2 h L \<Longrightarrow> program_at g t0 t1 p1 p2 h (L\<lparr>timerfd_sets := x\<rparr>)"
  "program_at g t0 t1 p1 p2 h L \<Longrightarrow> program_at g t0 t1 p1 p2 h (L\<lparr>m_poller := ep\<rparr>)"
  "program_at g t0 t1 p1 p2 h L \<Longrightarrow> program_at g t0 t1 p1 p2 h (program_mark ch ev L)"
  by (cases ch; simp add: program_at_def setRevents_def)+

lemma program_expiry:
  assumes at: "program_at g t0 t1 p1 p2 h L" and p: "p1 \<noteq> 0" "p2 \<noteq> 0" "p1 \<noteq> p2"
    and t: "sane t0" "sane t1" "t1 + int h * 1000000000 < 2 ^ 62" and now: "clock_now L = now" "sane now"
  obtains L' where "handleRead_timer (program_exec g) g L = Inr L'" "m_tid L' = g" "m_pendingTasks L' = []"
    "event_loop.more L' = lines_after t1 now h"
    "if t0 + 4000000000 \<le> now then m_quit L' \<and> timer_heap L' p1 = None
     else program_at g t0 t1 p1 p2 (lines_after t1 now h) L'"
proof -
  let ?h = "lines_after t1 now h"
  have tid: "m_tid L = g" using at by (simp add: program_at_def)
  have inv: "tq_inv L"
    using at p by (auto simp: program_at_def tq_inv_def entry_ok_def quit_timer_def hello_timer_def new_Timer_def)
  obtain L1 where r: "run_all (map (handleEntry (program_exec g) now) (filter (\<lambda>e. fst e \<le> now) (m_timers L)))
      (L\<lparr>m_timers := filter (\<lambda>e. now < fst e) (m_timers L)\<rparr>) = Inr L1"
    and L1: "m_tid L1 = g" "m_pendingTasks L1 = []" "clock_now L1 = clock_now L" "event_loop.more L1 = ?h"
    and ts: "set (m_timers L1) \<subseteq> {(t0 + 4000000000, p1), (due_at t1 ?h, p2)}"
    and next_state: "if t0 + 4000000000 \<le> now then m_quit L1 \<and> timer_heap L1 p1 = None else program_at g t0 t1 p1 p2 ?h L1"
    by (rule program_batch[OF at p t(2) now(2)])
  have "0 \<le> due_at t1 ?h" "due_at t1 ?h \<le> 2 ^ 62 + 4000000000"
    using t now(2) by (auto simp: lines_after_def due_at_def sane_def)
  then have ok: "int64_ok (fst e - now)" if "e \<in> set (m_timers L1)" for e
    using ts that sane_int64(4)[OF now(2)] t(1) by (auto simp: sane_def)
  obtain x where x: "(if m_timers L1 \<noteq> [] then timerfdSet (fst (hd (m_timers L1))) L1 else Inr L1) = Inr (L1\<lparr>timerfd_sets := x\<rparr>)"
  proof (cases "m_timers L1 = []")
    case True
    then show thesis by (intro that[of "timerfd_sets L1"]) simp
  next
    case False
    then have "int64_ok (fst (hd (m_timers L1)) - clock_now L1)" using ok L1(3) now(1) by simp
    from timerfdSet_ok[OF this] False that show thesis by auto
  qed
  have "handleRead_timer (program_exec g) g L = Inr (L1\<lparr>timerfd_sets := x\<rparr>)"
    using x r now(1) getExpired_ok[OF inv, of now] sane_int64(1)[OF now(2)]
    by (simp add: handleRead_timer_def tid assertInLoopThread_def isInLoopThread_def)
  then show thesis
    by (rule that) (use L1 next_state program_at_frame(1)[of g t0 t1 p1 p2 ?h L1 x] in \<open>simp_all split: if_splits\<close>)
qed

section \<open>Turns of the loop\<close>

abbreviation timer_fires :: "time_point \<Rightarrow> int + (program_channel \<times> 32 word) list" where
  "timer_fires now \<equiv> Inr [(TimerEvent now, EPOLLIN)]"

lemma program_turn:
  assumes at: "program_at g t0 t1 p1 p2 h L" and p: "p1 \<noteq> 0" "p2 \<noteq> 0" "p1 \<noteq> p2"
    and t: "sane t0" "sane t1" "t1 + int h * 1000000000 < 2 ^ 62" and now: "sane now"
  obtains L' where "loop_turn program_mark program_handle (run_task (program_exec g)) (\<lambda>_. Inr) g (timer_fires now) L = Inr L'"
    "event_loop.more L' = lines_after t1 now h"
    "if t0 + 4000000000 \<le> now then m_quit L' \<and> timer_heap L' p1 = None
     else program_at g t0 t1 p1 p2 (lines_after t1 now h) L'"
proof -
  let ?ch = "TimerEvent now"
  have tid: "m_tid L = g" and untied: "\<not> m_tied (m_timerChannel L)" using at by (simp_all add: program_at_def)
  obtain ep where p': "poll (m_tid L) g program_mark (timer_fires now) (m_poller L, L, []) = Inr (ep, program_mark ?ch EPOLLIN L, [?ch])"
    by (simp add: poll_def tid assertInLoopThread_def isInLoopThread_def)
  let ?M = "(program_mark ?ch EPOLLIN L)\<lparr>m_poller := ep\<rparr>"
  have M: "program_at g t0 t1 p1 p2 h ?M" by (intro program_at_frame at)
  have "clock_now ?M = now" by simp
  from program_expiry[OF M p t this now] obtain L1 where r: "handleRead_timer (program_exec g) g ?M = Inr L1"
    and L1: "m_tid L1 = g" "m_pendingTasks L1 = []" "event_loop.more L1 = lines_after t1 now h"
    "if t0 + 4000000000 \<le> now then m_quit L1 \<and> timer_heap L1 p1 = None
     else program_at g t0 t1 p1 p2 (lines_after t1 now h) L1" .
  have "program_handle ?ch ?M = handleRead_timer (program_exec g) g ?M"
    using handle_readable[of m_timerChannel ?M g "handleRead_timer (program_exec g) g"] tid untied by (simp add: setRevents_def)
  moreover have "L1\<lparr>m_pendingTasks := []\<rparr> = L1" using L1(2) by (metis event_loop.surjective event_loop.update_convs(4))
  ultimately have "loop_turn program_mark program_handle (run_task (program_exec g)) (\<lambda>_. Inr) g (timer_fires now) L = Inr L1"
    using L1(1,2) p' r by (simp add: loop_turn_def doPendingTasks_def assertInLoopThread_def isInLoopThread_def
        del: program_handle.simps program_mark.simps)
  then show thesis using L1(3,4) by (rule that)
qed

text \<open>The readings up to the one at which the loop is told to quit.\<close>

fun handled :: "time_point \<Rightarrow> time_point list \<Rightarrow> time_point list" where
  "handled t0 [] = []"
| "handled t0 (now # nows) = now # (if t0 + 4000000000 \<le> now then [] else handled t0 nows)"

lemma loop_while_over: "m_quit L \<Longrightarrow> loop_while mark handle run destroy g ews L = Inr L"
  by (cases ews) simp_all

lemma lines_grow: "h \<le> fold (lines_after t1) nows h"
proof (induction nows arbitrary: h)
  case (Cons now nows)
  from Cons[of "lines_after t1 now h"] show ?case by (simp add: lines_after_def split: if_splits)
qed simp

lemma program_turns:
  assumes "program_at g t0 t1 p1 p2 h L" and p: "p1 \<noteq> 0" "p2 \<noteq> 0" "p1 \<noteq> p2"
    and t: "sane t0" "sane t1" and "t1 + int h * 1000000000 < 2 ^ 62" and "\<forall>now \<in> set nows. sane now"
  shows "\<exists>L'. loop_while program_mark program_handle (run_task (program_exec g)) (\<lambda>_. Inr) g (map timer_fires nows) L = Inr L'
    \<and> (m_quit L' \<longleftrightarrow> (\<exists>now \<in> set nows. t0 + 4000000000 \<le> now)) \<and> (m_quit L' \<longrightarrow> timer_heap L' p1 = None)
    \<and> event_loop.more L' = fold (lines_after t1) (handled t0 nows) h
    \<and> (h < event_loop.more L' \<longrightarrow> (\<exists>now \<in> set nows. t1 + int (event_loop.more L') * 1000000000 \<le> now))"
  using assms(1,7,8)
proof (induction nows arbitrary: h L)
  case Nil
  then show ?case by (simp add: program_at_def)
next
  case (Cons now nows)
  let ?h = "lines_after t1 now h"
  have q: "\<not> m_quit L" using Cons.prems(1) by (simp add: program_at_def)
  have now: "sane now" using Cons.prems(3) by simp
  obtain L1 where turn: "loop_turn program_mark program_handle (run_task (program_exec g)) (\<lambda>_. Inr) g (timer_fires now) L = Inr L1"
    and more: "event_loop.more L1 = ?h"
    and next_state: "if t0 + 4000000000 \<le> now then m_quit L1 \<and> timer_heap L1 p1 = None else program_at g t0 t1 p1 p2 ?h L1"
    by (rule program_turn[OF Cons.prems(1) p t Cons.prems(2) now])
  have line: "?h = h \<or> ?h = Suc h \<and> t1 + int ?h * 1000000000 \<le> now"
    by (auto simp: lines_after_def due_at_def)
  show ?case
  proof (cases "t0 + 4000000000 \<le> now")
    case True
    with next_state have "m_quit L1" "timer_heap L1 p1 = None" by simp_all
    with q turn more line True show ?thesis by (intro exI[of _ L1]) (auto simp: loop_while_over)
  next
    case False
    with next_state have at: "program_at g t0 t1 p1 p2 ?h L1" by simp
    have bound: "t1 + int ?h * 1000000000 < 2 ^ 62" using line Cons.prems(2) now by (auto simp: sane_def)
    have "\<forall>now \<in> set nows. sane now" using Cons.prems(3) by simp
    from Cons.IH[OF at bound this] obtain L' where
      L': "loop_while program_mark program_handle (run_task (program_exec g)) (\<lambda>_. Inr) g (map timer_fires nows) L1 = Inr L'"
      "m_quit L' \<longleftrightarrow> (\<exists>now \<in> set nows. t0 + 4000000000 \<le> now)" "m_quit L' \<longrightarrow> timer_heap L' p1 = None"
      "event_loop.more L' = fold (lines_after t1) (handled t0 nows) ?h"
      "?h < event_loop.more L' \<longrightarrow> (\<exists>now \<in> set nows. t1 + int (event_loop.more L') * 1000000000 \<le> now)"
      by (elim exE conjE) (rule that)
    have "\<exists>n \<in> set (now # nows). t1 + int (event_loop.more L') * 1000000000 \<le> n" if "h < event_loop.more L'"
    proof (cases "?h < event_loop.more L'")
      case False
      have "?h \<le> fold (lines_after t1) ns ?h" for ns by (rule lines_grow)
      with False L'(4) have "event_loop.more L' = ?h" by (simp add: le_antisym not_less)
      with line that show ?thesis by auto
    qed (use L'(5) in auto)
    with q turn L' False show ?thesis by (intro exI[of _ L']) auto
  qed
qed

section \<open>Property\<close>

text \<open>The loop as it is constructed.\<close>

definition program_start :: "tid \<Rightarrow> program_loop \<Rightarrow> bool" where
  "program_start g L \<longleftrightarrow> m_tid L = g \<and> \<not> m_quit L \<and> m_pendingTasks L = [] \<and> \<not> m_tied (m_timerChannel L)
     \<and> m_timers L = [] \<and> timer_heap L = Map.empty \<and> event_loop.more L = 0"

lemma program_timers_ok:
  assumes "program_start g L" and p: "p1 \<noteq> 0" "p2 \<noteq> 0" "p1 \<noteq> p2" and t: "sane t0" "sane t1"
  obtains L' where "program_timers g t0 t1 p1 p2 L = Inr L'" "program_at g t0 t1 p1 p2 0 L'"
proof -
  let ?a = "(t0 + 4000000000, p1)" and ?b = "(t1 + 1000000000, p2)"
  note start = assms(1)[unfolded program_start_def]
  let ?L0 = "L\<lparr>clock_now := t0, timer_heap := [p1 \<mapsto> quit_timer t0], m_timers := [?a]\<rparr>"
  have "int64_ok (fst ?a - clock_now ?L0)" by (simp add: int64_ok_def)
  from timerfdSet_ok[OF this] obtain x where x: "timerfdSet (fst ?a) ?L0 = Inr (?L0\<lparr>timerfd_sets := x\<rparr>)" by blast
  have first: "runAt (program_exec g) g p1 (t0 + 4000000000) (Some QuitLoop) (L\<lparr>clock_now := t0\<rparr>)
      = Inr (p1, ?L0\<lparr>timerfd_sets := x\<rparr>)"
    using start x by (simp add: runAt_def addTimer_def runInLoop_def isInLoopThread_def insertTimer_def set_insert_def
        quit_timer_def Let_def)
  let ?L1 = "?L0\<lparr>timerfd_sets := x, clock_now := t1, timer_heap := [p1 \<mapsto> quit_timer t0, p2 \<mapsto> hello_timer t1 0],
      m_timers := insort ?b [?a]\<rparr>"
  have "int64_ok (fst ?b - clock_now ?L1)" by (simp add: int64_ok_def)
  from timerfdSet_ok[OF this] obtain y where y: "timerfdSet (fst ?b) ?L1 = Inr (?L1\<lparr>timerfd_sets := y\<rparr>)" by blast
  obtain z where z: "z = (if hd (m_timers ?L1) = ?b then y else x)" by simp
  have "runEvery (program_exec g) g p2 1000000000 (Some Hello) (?L0\<lparr>timerfd_sets := x, clock_now := t1\<rparr>)
      = Inr (p2, ?L1\<lparr>timerfd_sets := z\<rparr>)"
  proof -
    have "nowAfter t1 1000000000 = Inr (t1 + 1000000000)" using sane_int64(2)[OF t(2)] by (simp add: nowAfter_def int64_def)
    moreover have "set_insert ?b [?a] = insort ?b [?a]" using p by (simp add: set_insert_def del: insort_key.simps)
    moreover have "hello_timer t1 0 = new_Timer (Some Hello) (t1 + 1000000000) 1000000000" by (simp add: hello_timer_def due_at_def)
    ultimately show ?thesis
      using start y p by (simp add: z runEvery_def addTimer_def runInLoop_def isInLoopThread_def insertTimer_def Let_def
          del: insort_key.simps)
  qed
  with first have "program_timers g t0 t1 p1 p2 L = Inr (?L1\<lparr>timerfd_sets := z\<rparr>)"
    using sane_int64(3)[OF t(1)] by (simp add: program_timers_def nowAfter_def int64_def)
  moreover have "program_at g t0 t1 p1 p2 0 (?L1\<lparr>timerfd_sets := z\<rparr>)"
  proof -
    have "insort ?b [?a] = insort ?a [?b]" using insort_left_comm[of ?b ?a "[]"] by simp
    moreover have "due_at t1 0 = t1 + 1000000000" by (simp add: due_at_def)
    ultimately show ?thesis using start by (simp add: program_at_def del: insort_key.simps)
  qed
  ultimately show thesis by (rule that)
qed

text \<open>
  C23. The program that tests the timers does what it is written for. Whenever its timer
  descriptor fires (at the clock readings \<open>nows\<close>), it neither aborts nor uses a freed
  timer; its loop returns exactly if the descriptor fired four seconds after the start or
  later, at the first such reading, and the timer that quit it is freed then; at each reading
  up to that one it writes one line if the next one is due, so the \<open>n\<close>-th line is never
  written before \<open>n\<close> seconds have passed.
\<close>

theorem timer_program_quits:
  assumes "program_start g L" and "p1 \<noteq> 0" and "p2 \<noteq> 0" and "p1 \<noteq> p2" and "sane t0" and "sane t1"
    and "\<forall>now \<in> set nows. sane now"
  shows "\<exists>L'. main_timerLoop g t0 t1 p1 p2 (map timer_fires nows) L = Inr L'
    \<and> (m_quit L' \<longleftrightarrow> (\<exists>now \<in> set nows. t0 + 4000000000 \<le> now)) \<and> (m_quit L' \<longrightarrow> timer_heap L' p1 = None)
    \<and> event_loop.more L' = fold (lines_after t1) (handled t0 nows) 0
    \<and> (0 < event_loop.more L' \<longrightarrow> (\<exists>now \<in> set nows. t1 + int (event_loop.more L') * 1000000000 \<le> now))"
proof -
  obtain L1 where L1: "program_timers g t0 t1 p1 p2 L = Inr L1" and at: "program_at g t0 t1 p1 p2 0 L1"
    by (rule program_timers_ok[OF assms(1-6)])
  have tid: "m_tid L1 = g" using at by (simp add: program_at_def)
  have "t1 + int 0 * 1000000000 < 2 ^ 62" using assms(6) by (simp add: sane_def)
  from program_turns[OF at assms(2-6) this assms(7)] L1 tid show ?thesis
    by (simp add: main_timerLoop_def loop_def assertInLoopThread_def isInLoopThread_def)
qed

text \<open>
  The descriptor fires every second: if both timers were made at the same time, the fourth
  line is written although the loop has been told to quit in the same turn.
\<close>

lemma timer_program_quits_witness:
  "\<exists>L L'. program_start 1 L \<and> main_timerLoop 1 0 0 8 16 (map timer_fires [1000000000, 2000000000, 3000000000, 4000000000]) L = Inr L'
     \<and> m_quit L' \<and> event_loop.more L' = 4"
proof -
  let ?L = "\<lparr>m_tid = 1, m_quit = False, m_poller = \<lparr>ep_size = 128, ep_calls = []\<rparr>, m_pendingTasks = [],
     m_wakeupChannel = new_Channel 4, wakeup_count = 0, m_timerChannel = new_Channel 5, m_timers = [],
     timer_heap = Map.empty, timerfd_sets = [], clock_now = 0, \<dots> = 0\<rparr> :: program_loop"
  let ?nows = "[1000000000, 2000000000, 3000000000, 4000000000] :: int list"
  have s: "program_start 1 ?L" by (simp add: program_start_def new_Channel_def)
  have n: "\<forall>now \<in> set ?nows. sane now" "sane 0" by (simp_all add: sane_def)
  have p: "(8 :: nat) \<noteq> 0" "(16 :: nat) \<noteq> 0" "(8 :: nat) \<noteq> 16" by simp_all
  obtain L' where L': "main_timerLoop 1 0 0 8 16 (map timer_fires ?nows) ?L = Inr L'"
    "m_quit L' \<longleftrightarrow> (\<exists>now \<in> set ?nows. 0 + 4000000000 \<le> now)" "event_loop.more L' = fold (lines_after 0) (handled 0 ?nows) 0"
    using timer_program_quits[OF s p n(2,2,1)] by blast
  from L'(2,3) have "m_quit L'" "event_loop.more L' = 4" by (simp_all add: lines_after_def due_at_def)
  with s L'(1) show ?thesis by blast
qed

end
