(* ===== verification/Logger_Model.thy ===== *)
theory Logger_Model
  imports Inet_Address
begin

text \<open>
  The class \<^verbatim>\<open>Logger\<close> (\<^verbatim>\<open>Logger.hpp\<close>, \<^verbatim>\<open>Logger.cpp\<close>). A call of \<^verbatim>\<open>log_base\<close> or
  \<^verbatim>\<open>log_sys\<close> yields what is written to the log descriptor, if anything, and whether the
  process exits. The time as \<^verbatim>\<open>gettimeofday\<close> and \<^verbatim>\<open>gmtime_r\<close> give it, the process id,
  \<^verbatim>\<open>strerror(errno)\<close> and the message formatted by \<^verbatim>\<open>vsnprintf\<close> are arguments.
\<close>

section \<open>State\<close>

datatype log_level = LOG_LEVEL_TRACE | LOG_LEVEL_DEBUG | LOG_LEVEL_INFO | LOG_LEVEL_WARN
  | LOG_LEVEL_ERROR | LOG_LEVEL_FATAL

fun level_num :: "log_level \<Rightarrow> int" where
  "level_num LOG_LEVEL_TRACE = 0"
| "level_num LOG_LEVEL_DEBUG = 1"
| "level_num LOG_LEVEL_INFO = 2"
| "level_num LOG_LEVEL_WARN = 3"
| "level_num LOG_LEVEL_ERROR = 4"
| "level_num LOG_LEVEL_FATAL = 5"

text \<open>
  \<open>m_level\<close> is kept as the number of the enumerator: \<^verbatim>\<open>setLevel\<close> also takes casts. The type that
  gcc gives the enumeration is \<^verbatim>\<open>unsigned int\<close>.
\<close>

record logger =
  m_fd_log :: int
  m_level :: int

definition new_Logger :: logger where
  "new_Logger = \<lparr>m_fd_log = 0, m_level = level_num LOG_LEVEL_TRACE\<rparr>"

definition setFd :: "int \<Rightarrow> logger \<Rightarrow> logger" where
  "setFd fd lg = (let fd = (if fd < 0 then 0 else fd) in lg\<lparr>m_fd_log := fd\<rparr>)"

definition setLevel :: "int \<Rightarrow> logger \<Rightarrow> logger" where
  "setLevel level lg =
     (let level = level mod 2 ^ 32;
          level = (if level < level_num LOG_LEVEL_TRACE then level_num LOG_LEVEL_TRACE else level);
          level = (if level > level_num LOG_LEVEL_FATAL then level_num LOG_LEVEL_FATAL else level)
      in lg\<lparr>m_level := level\<rparr>)"

section \<open>Logging\<close>

definition MAXLINE :: nat where "MAXLINE = 256"

definition log_level_str :: "string list" where
  "log_level_str = [''[TRACE]'', ''[DEBUG]'', ''[INFO] '', ''[WARN] '', ''[ERROR]'', ''[FATAL]'']"

text \<open>\<^verbatim>\<open>%d\<close>\<close>

definition fmt_d :: "int \<Rightarrow> string" where
  "fmt_d n = (if n < 0 then ''-'' @ to_string (nat (- n)) else to_string (nat n))"

text \<open>\<^verbatim>\<open>%wd\<close> pads with blanks on the left, \<^verbatim>\<open>%0wd\<close> with zeros after the sign.\<close>

definition fmt_wd :: "nat \<Rightarrow> int \<Rightarrow> string" where
  "fmt_wd w n = replicate (w - length (fmt_d n)) (CHR '' '') @ fmt_d n"

definition fmt_0wd :: "nat \<Rightarrow> int \<Rightarrow> string" where
  "fmt_0wd w n = (let sign = (if n < 0 then ''-'' else ''''); ds = fmt_d \<bar>n\<bar> in
     sign @ replicate (w - length sign - length ds) (CHR ''0'') @ ds)"

text \<open>\<^verbatim>\<open>snprintf(data, len, ...)\<close>: the characters stored and the result.\<close>

definition snprintf :: "nat \<Rightarrow> string \<Rightarrow> string \<times> nat" where
  "snprintf len s = (take (len - 1) s, length s)"

record tm =
  tm_year :: int
  tm_mon :: int
  tm_mday :: int
  tm_hour :: int
  tm_min :: int
  tm_sec :: int

definition timestamp :: "tm \<Rightarrow> int \<Rightarrow> nat \<Rightarrow> string \<times> nat" where
  "timestamp tm_time tv_usec len = snprintf len
     (fmt_wd 4 (tm_year tm_time + 1900) @ fmt_0wd 2 (tm_mon tm_time + 1) @ fmt_0wd 2 (tm_mday tm_time) @ '' '' @
      fmt_0wd 2 (tm_hour tm_time) @ '':'' @ fmt_0wd 2 (tm_min tm_time) @ '':'' @ fmt_0wd 2 (tm_sec tm_time) @ ''.'' @
      fmt_0wd 6 tv_usec)"

text \<open>
  The line buffer \<^verbatim>\<open>data\<close>: the result of \<open>timestamp\<close>, the uncut length, advances \<open>i\<close>;
  the process id and the tag are written without a bound; the message gets what is left.
  Writing past the array is the fault \<open>OutOfBounds\<close>; a cut time leaves its terminator in
  the middle of the line, which ends there.
\<close>

definition line_buffer :: "tm \<Rightarrow> int \<Rightarrow> int \<Rightarrow> string \<Rightarrow> string \<Rightarrow> string res" where
  "line_buffer tm_time tv_usec pid tag msg =
     (let (data, i) = timestamp tm_time tv_usec 32;
          s1 = '' ['' @ fmt_d pid @ '']'';
          s2 = '' '' @ tag @ '' ''
      in if MAXLINE < i + length s1 + length s2 + 1 then Inl OutOfBounds
         else if length data < i then Inr data
         else let i = i + length s1 + length s2 in
           Inr (data @ s1 @ s2 @ take (MAXLINE - i - 1) msg))"

datatype log_result = Skipped | Logged int string | LoggedExit int string

definition log_base :: "tm \<Rightarrow> int \<Rightarrow> int \<Rightarrow> logger \<Rightarrow> string \<Rightarrow> int \<Rightarrow> log_level \<Rightarrow> bool \<Rightarrow> string
    \<Rightarrow> log_result res" where
  "log_base tm_time tv_usec pid lg file line level to_abort msg =
     (if m_level lg > level_num level then Inr Skipped
      else bindR (line_buffer tm_time tv_usec pid (log_level_str ! nat (level_num level)) msg) (\<lambda>data.
        let out = data @ '' - '' @ file @ '':'' @ fmt_d line @ [char_of (10 :: nat)] in
        Inr (if to_abort then LoggedExit (m_fd_log lg) out else Logged (m_fd_log lg) out)))"

definition log_sys :: "tm \<Rightarrow> int \<Rightarrow> int \<Rightarrow> string \<Rightarrow> logger \<Rightarrow> string \<Rightarrow> int \<Rightarrow> bool \<Rightarrow> string
    \<Rightarrow> log_result res" where
  "log_sys tm_time tv_usec pid strerror lg file line to_abort msg =
     bindR (line_buffer tm_time tv_usec pid (if to_abort then ''[SYSFA]'' else ''[SYSER]'') msg) (\<lambda>data.
       let out = data @ '': '' @ strerror @ '' - '' @ file @ '':'' @ fmt_d line @ [char_of (10 :: nat)] in
       Inr (if to_abort then LoggedExit (m_fd_log lg) out else Logged (m_fd_log lg) out))"

text \<open>The macros of \<^verbatim>\<open>Logger.hpp\<close>.\<close>

fun log_macro :: "log_level \<Rightarrow> tm \<Rightarrow> int \<Rightarrow> int \<Rightarrow> logger \<Rightarrow> string \<Rightarrow> int \<Rightarrow> string \<Rightarrow> log_result res" where
  "log_macro LOG_LEVEL_FATAL tm_time tv_usec pid lg file line msg = log_base tm_time tv_usec pid lg file line LOG_LEVEL_FATAL True msg"
| "log_macro level tm_time tv_usec pid lg file line msg = log_base tm_time tv_usec pid lg file line level False msg"

definition SYSERR :: "tm \<Rightarrow> int \<Rightarrow> int \<Rightarrow> string \<Rightarrow> logger \<Rightarrow> string \<Rightarrow> int \<Rightarrow> string \<Rightarrow> log_result res" where
  "SYSERR tm_time tv_usec pid strerror lg file line msg = log_sys tm_time tv_usec pid strerror lg file line False msg"

definition SYSFATAL :: "tm \<Rightarrow> int \<Rightarrow> int \<Rightarrow> string \<Rightarrow> logger \<Rightarrow> string \<Rightarrow> int \<Rightarrow> string \<Rightarrow> log_result res" where
  "SYSFATAL tm_time tv_usec pid strerror lg file line msg = log_sys tm_time tv_usec pid strerror lg file line True msg"

section \<open>Properties\<close>

datatype log_setup = SetFd int | SetLevel int

fun setup_logger :: "log_setup list \<Rightarrow> logger \<Rightarrow> logger" where
  "setup_logger [] lg = lg"
| "setup_logger (SetFd fd # cs) lg = setup_logger cs (setFd fd lg)"
| "setup_logger (SetLevel l # cs) lg = setup_logger cs (setLevel l lg)"

lemma setup_logger_inv:
  "0 \<le> m_fd_log lg \<Longrightarrow> 0 \<le> m_level lg \<Longrightarrow> m_level lg \<le> 5
    \<Longrightarrow> 0 \<le> m_fd_log (setup_logger cs lg) \<and> 0 \<le> m_level (setup_logger cs lg) \<and> m_level (setup_logger cs lg) \<le> 5"
  by (induction cs lg rule: setup_logger.induct) (auto simp: setFd_def setLevel_def Let_def)

lemma level_num_range: "0 \<le> level_num l \<and> level_num l \<le> 5"
  by (cases l) simp_all

lemma length_to_string: "n < 10 ^ k \<Longrightarrow> 0 < k \<Longrightarrow> length (to_string n) \<le> k"
proof (induction n arbitrary: k rule: to_string.induct)
  case (1 n)
  show ?case
  proof (cases "n < 10")
    case True
    with 1 show ?thesis by (simp add: to_string.simps[of n])
  next
    case False
    with 1 obtain j where j: "k = Suc j" "0 < j" by (cases k; cases "k = 1") auto
    with 1 False have "length (to_string (n div 10)) \<le> j" by (intro 1) auto
    with False j show ?thesis by (simp add: to_string.simps[of n])
  qed
qed

lemma length_tag: "length (log_level_str ! nat (level_num l)) = 7"
  by (cases l) (simp_all add: log_level_str_def)

lemma length_sys_tags: "length ''[SYSER]'' = 7" "length ''[SYSFA]'' = 7"
  by simp_all

lemma length_fmt_d:
  assumes "- (10 ^ 10) < n" and "n < 10 ^ 10"
  shows "length (fmt_d n) \<le> 11"
  using assms length_to_string[of "nat n" 10] length_to_string[of "nat (- n)" 10]
  by (auto simp: fmt_d_def nat_less_iff)

text \<open>What \<^verbatim>\<open>gmtime_r\<close> and \<^verbatim>\<open>gettimeofday\<close> promise; the year fits an \<^verbatim>\<open>int\<close>.\<close>

definition time_ok :: "tm \<Rightarrow> int \<Rightarrow> bool" where
  "time_ok t usec \<longleftrightarrow> - (2 ^ 31) \<le> tm_year t + 1900 \<and> tm_year t + 1900 < 2 ^ 31
     \<and> 0 \<le> tm_mon t \<and> tm_mon t \<le> 11 \<and> 1 \<le> tm_mday t \<and> tm_mday t \<le> 31 \<and> 0 \<le> tm_hour t \<and> tm_hour t \<le> 23
     \<and> 0 \<le> tm_min t \<and> tm_min t \<le> 59 \<and> 0 \<le> tm_sec t \<and> tm_sec t \<le> 60 \<and> 0 \<le> usec \<and> usec < 1000000"

lemma length_fmt_0wd:
  assumes "0 \<le> n" and "n < 10 ^ w" and "0 < w"
  shows "length (fmt_0wd w n) = w"
  using assms length_to_string[of "nat n" w] by (simp add: fmt_0wd_def fmt_d_def nat_less_iff Let_def)

lemma length_fmt_wd: "length (fmt_wd w n) = max w (length (fmt_d n))"
  by (simp add: fmt_wd_def)

lemma length_timestamp:
  assumes "time_ok t usec"
  shows "length (fst (timestamp t usec 32)) = snd (timestamp t usec 32)" and "snd (timestamp t usec 32) \<le> 31"
proof -
  have "length (fmt_d (tm_year t + 1900)) \<le> 11"
    using assms by (intro length_fmt_d) (auto simp: time_ok_def)
  moreover have "length (fmt_0wd 2 (tm_mon t + 1)) = 2" "length (fmt_0wd 2 (tm_mday t)) = 2" "length (fmt_0wd 2 (tm_hour t)) = 2"
    "length (fmt_0wd 2 (tm_min t)) = 2" "length (fmt_0wd 2 (tm_sec t)) = 2" "length (fmt_0wd 6 usec) = 6"
    using assms by (auto simp: time_ok_def length_fmt_0wd)
  ultimately show "snd (timestamp t usec 32) \<le> 31" by (simp add: timestamp_def snprintf_def length_fmt_wd)
  then show "length (fst (timestamp t usec 32)) = snd (timestamp t usec 32)"
    by (simp add: timestamp_def snprintf_def)
qed

lemma line_buffer_fits:
  assumes "time_ok t usec" and "- (2 ^ 31) \<le> pid" and "pid < 2 ^ 31" and "length tag = 7"
  shows "\<exists>data. line_buffer t usec pid tag msg = Inr data \<and> length data < MAXLINE"
proof -
  have "length (fmt_d pid) \<le> 11" using assms by (intro length_fmt_d) auto
  with assms(4) length_timestamp[OF assms(1)] show ?thesis
    by (auto simp: line_buffer_def Let_def MAXLINE_def split: prod.splits)
qed

text \<open>
  C33. Whatever was set before, also with values out of range, the logger's level stays
  between \<^verbatim>\<open>TRACE\<close> and \<^verbatim>\<open>FATAL\<close> and its descriptor is not negative; a message is
  dropped exactly when its level is below the logger's; a fatal one is never dropped and ends
  the process, all others return; system errors are always logged, and only
  \<^verbatim>\<open>SYSFATAL\<close> ends the process; the line never overruns the 256 bytes of the
  buffer, for every time of the calendar, 32-bit process id and message.
\<close>

theorem logger_spec:
  assumes "time_ok t usec" and "- (2 ^ 31) \<le> pid" and "pid < 2 ^ 31"
  shows "let lg = setup_logger cs new_Logger; r = log_macro level t usec pid lg file line msg in
    0 \<le> m_fd_log lg \<and> 0 \<le> m_level lg \<and> m_level lg \<le> 5
    \<and> (r = Inr Skipped \<longleftrightarrow> level_num level < m_level lg)
    \<and> (\<exists>out. r \<in> {Inr Skipped, Inr (Logged (m_fd_log lg) out), Inr (LoggedExit (m_fd_log lg) out)})
    \<and> ((\<exists>fd out. r = Inr (LoggedExit fd out)) \<longleftrightarrow> level = LOG_LEVEL_FATAL)
    \<and> (\<exists>out. SYSERR t usec pid err lg file line msg = Inr (Logged (m_fd_log lg) out))
    \<and> (\<exists>out. SYSFATAL t usec pid err lg file line msg = Inr (LoggedExit (m_fd_log lg) out))"
proof -
  define lg where "lg = setup_logger cs new_Logger"
  have inv: "0 \<le> m_fd_log lg" "0 \<le> m_level lg" "m_level lg \<le> 5"
    using setup_logger_inv[of new_Logger cs] by (simp_all add: lg_def new_Logger_def)
  obtain data where data: "line_buffer t usec pid (log_level_str ! nat (level_num level)) msg = Inr data"
    using line_buffer_fits[OF assms length_tag] by blast
  obtain data1 data2 where sys: "line_buffer t usec pid ''[SYSER]'' msg = Inr data1" "line_buffer t usec pid ''[SYSFA]'' msg = Inr data2"
    using line_buffer_fits[OF assms] by (metis length_sys_tags)
  show ?thesis
    unfolding lg_def[symmetric] Let_def
    using inv data sys level_num_range[of level] by (cases level) (auto simp: log_base_def log_sys_def SYSERR_def SYSFATAL_def)
qed

definition sample_tm :: tm where
  "sample_tm = \<lparr>tm_year = 124, tm_mon = 0, tm_mday = 31, tm_hour = 23, tm_min = 59, tm_sec = 60\<rparr>"

lemma logger_spec_witness:
  "\<exists>fd out. log_macro LOG_LEVEL_FATAL sample_tm 17 4242
      (setup_logger [SetLevel 9, SetFd (- 3)] new_Logger) ''a.cpp'' 7 ''boom'' = Inr (LoggedExit fd out)"
  using logger_spec[of sample_tm 17 4242 "[SetLevel 9, SetFd (- 3)]" LOG_LEVEL_FATAL
      "''a.cpp''" 7 "''boom''"]
  by (simp add: Let_def time_ok_def sample_tm_def)

end
