(* ===== verification/Spec2Isabelle.thy ===== *)
theory Spec2Isabelle
  imports Client_Loop Echo_Client Server_Threads Loop_Thread Loop_Spec Pool_Spec Timer_Program Logger_Model
begin

text \<open>
  A verification development for the C++14 network library in \<^verbatim>\<open>src/cppweb\<close>: one event
  loop per thread (reactor), buffered TCP connections, servers, a client, timers, a thread
  pool and a logger.

  \<^bold>\<open>The program.\<close> An \<^verbatim>\<open>EventLoop\<close> owns an \<^verbatim>\<open>Epoller\<close>, a \<^verbatim>\<open>TimerQueue\<close> and a queue of
  pending closures. \<^verbatim>\<open>loop\<close> repeats: wait in \<^verbatim>\<open>epoll_wait\<close>, let each active \<^verbatim>\<open>Channel\<close>
  run its callbacks, then run the closures queued so far. A channel is the interest in one
  descriptor; every object with a descriptor (\<^verbatim>\<open>TimerQueue\<close>, \<^verbatim>\<open>Acceptor\<close>,
  \<^verbatim>\<open>Connector\<close>, \<^verbatim>\<open>TCPConnection\<close>, the loop's own \<^verbatim>\<open>eventfd\<close>) has one.
  \<^verbatim>\<open>TCPServerSingle\<close> is an acceptor and a set of connections on one loop; \<^verbatim>\<open>TCPServer\<close>
  creates threads, each with a loop and a \<^verbatim>\<open>TCPServerSingle\<close>, that accept on the same port.
  \<^verbatim>\<open>TCPClient\<close> is a connector, a retry timer and one connection. Other threads reach a loop
  only through \<^verbatim>\<open>queueInLoop\<close> and \<^verbatim>\<open>quit\<close>.

  \<^bold>\<open>Conventions.\<close> Every operation returns \<open>fault + state\<close>: a failing \<^verbatim>\<open>assert\<close> (the
  build does not define \<^verbatim>\<open>NDEBUG\<close>), a C++ exception, an access out of range, a use after
  free, signed overflow and \<^verbatim>\<open>exit\<close> are values of \<open>fault\<close>. Records have the members of
  the C++ classes under their names; a suffix is added where two classes share one.
  \<open>size_t\<close> is a natural number below \<open>2 ^ 64\<close> with its wrap-around written out
  (\<open>size_add\<close>, \<open>size_sub\<close>), event masks and integers on the wire are words. The state of
  an \<^verbatim>\<open>EventLoop\<close> is an extensible record, and what lives on the loop is its extension, so
  callbacks are functions on the whole loop. \<open>gettid\<close> is the calling thread. Results of
  system calls are arguments, or a script in the state (\<open>socket\<close>) when one call of the
  program makes several; what the program hands to the kernel is recorded in the state
  (\<open>epoll_ctl\<close> calls, \<open>timerfd_sets\<close>, \<open>wakeup_count\<close>, \<open>sent\<close>, \<open>shut_wr\<close>). Addresses
  returned by \<^verbatim>\<open>new\<close> are arguments.

  \<^bold>\<open>Theories.\<close>
  \<^item> \<open>Prelude\<close>: faults, results, machine arithmetic, the used parts of \<^verbatim>\<open>std::vector\<close>,
    \<^verbatim>\<open>std::search\<close> and \<^verbatim>\<open>memchr\<close>, transition systems with the locale
    \<open>inductive_invariant\<close> that all concurrent components instantiate, and its extension
    \<open>refinement\<close> (every step of the code is a step of a specification or invisible to it).
  \<^item> \<open>Byte_Order\<close>: memory images of words and conversion to network order, for hosts of
    either byte order.
  \<^item> \<open>Byte_Buffer\<close> (\<^verbatim>\<open>Buffer.hpp\<close>, \<^verbatim>\<open>Buffer.cpp\<close>): the whole class. Its invariant is
    kept by every operation, no sequence of operations leaves the vector, it refines a queue of
    bytes (locale \<open>byte_queue\<close>), \<^verbatim>\<open>readFd\<close> appends exactly what \<^verbatim>\<open>readv\<close> delivered,
    integers are read back as written and are big-endian on the wire.
  \<^item> \<open>Channel_Poller\<close> (\<^verbatim>\<open>Channel.hpp\<close>, \<^verbatim>\<open>Channel.cpp\<close>, \<^verbatim>\<open>Epoller.hpp\<close>, \<^verbatim>\<open>Epoller.cpp\<close>):
    every change of interest is one legal \<^verbatim>\<open>epoll_ctl\<close> call (locale \<open>interest_registry\<close>), and
    \<^verbatim>\<open>handleEvents\<close> runs exactly the callbacks the events select.
  \<^item> \<open>Timer_Class\<close> (\<^verbatim>\<open>Timer.hpp\<close>, \<^verbatim>\<open>Timestamp.hpp\<close>): timers, 64-bit nanosecond arithmetic.
  \<^item> \<open>Event_Loop\<close> (\<^verbatim>\<open>EventLoop.hpp\<close>, \<^verbatim>\<open>EventLoop.cpp\<close>): one thread's view of a loop.
    Closures run in order, once each, and are destroyed at the end of their turn (locale
    \<open>loop_client\<close>); what the pieces of a client keep, the turning loop keeps (locale
    \<open>keeping_client\<close>).
  \<^item> \<open>Timer_Queue\<close> (\<^verbatim>\<open>TimerQueue.hpp\<close>, \<^verbatim>\<open>TimerQueue.cpp\<close>): the sorted set of entries (locale
    \<open>ordered_set\<close>), timers on a heap, what one expiry does, and safety over whole runs with
    arbitrary closures (locale \<open>timer_client\<close>; \<open>timer_frame\<close> for what closures keep of
    the rest, \<open>quiet_client\<close> for closures that do not touch the timers). \<open>Timer_Program\<close>
    (\<^verbatim>\<open>src/test/testTimerLoop.cpp\<close>): a whole program with two timers.
  \<^item> \<open>Inet_Address\<close> (\<^verbatim>\<open>InetAddress.hpp\<close>, \<^verbatim>\<open>InetAddress.cpp\<close>): text, port and byte order.
  \<^item> \<open>Logger_Model\<close> (\<^verbatim>\<open>Logger.hpp\<close>, \<^verbatim>\<open>Logger.cpp\<close>): what is written and when it exits.
  \<^item> \<open>Tcp_Connection\<close> (\<^verbatim>\<open>TCPConnection.hpp\<close>, \<^verbatim>\<open>TCPConnection.cpp\<close>): the state machine of a
    connection. What a client must respect is the locale \<open>conn_client\<close>; under it, data
    leaves in order without loss, the close callback runs once, and the connection stays well
    formed. Sending from another thread equals sending from the loop thread.
  \<^item> \<open>Acceptor_Connector\<close> (\<^verbatim>\<open>Acceptor.hpp\<close>, \<^verbatim>\<open>Acceptor.cpp\<close>, \<^verbatim>\<open>Connector.hpp\<close>,
    \<^verbatim>\<open>Connector.cpp\<close>): listening, accepting, connecting, on every branch.
  \<^item> \<open>Tcp_Server\<close> (\<^verbatim>\<open>TCPServerSingle.hpp\<close>, \<^verbatim>\<open>TCPServerSingle.cpp\<close>, \<^verbatim>\<open>Callbacks.cpp\<close>, the
    message callback of \<^verbatim>\<open>src/test/EchoServer.cpp\<close>): connections on a heap, shared by the
    server's set and by pending closures; it interprets \<open>conn_client\<close>, so the theorems on
    connections hold for the connections of a server. \<open>Server_Loop\<close>: the server as the
    client of its loop (\<open>queueing_client\<close>, \<open>keeping_client\<close>); turns of the loop neither
    lose nor leak a connection.
  \<^item> \<open>Tcp_Client\<close> (\<^verbatim>\<open>TCPClient.hpp\<close>, \<^verbatim>\<open>TCPClient.cpp\<close>): attempts, retries, the connection;
    \<open>Client_Runs\<close>: the client over whole runs; \<open>Client_Loop\<close>: the client on its loop,
    through the same interfaces as the server. \<open>Echo_Client\<close>
    (\<^verbatim>\<open>src/test/EchoClient.cpp\<close>): a thread that sends lines from outside of the loop.
  \<^item> \<open>Thread_Pool\<close> (\<^verbatim>\<open>ThreadPool.hpp\<close>, \<^verbatim>\<open>ThreadPool.cpp\<close>), \<open>Loop_Thread\<close>
    (\<^verbatim>\<open>EventLoopThread.hpp\<close>, \<^verbatim>\<open>EventLoopThread.cpp\<close>), \<open>Server_Threads\<close> (\<^verbatim>\<open>TCPServer.hpp\<close>,
    \<^verbatim>\<open>TCPServer.cpp\<close>) and \<open>Loop_Wakeup\<close> (\<^verbatim>\<open>queueInLoop\<close>, \<^verbatim>\<open>wakeup\<close>, \<^verbatim>\<open>quit\<close> and
    \<^verbatim>\<open>loop\<close> of \<^verbatim>\<open>EventLoop.cpp\<close> across threads): step relations with a program counter
    per thread, over every interleaving. The lemmas give mutual exclusion, no lost wakeup,
    order and completeness of the execution of tasks, termination of \<^verbatim>\<open>stop\<close> and of
    the destructor, and the interleavings in which the code does go wrong. \<open>Pool_Spec\<close> and
    \<open>Loop_Spec\<close>: the pool refines a bounded FIFO executor, the loop a sequential executor of
    a list of tasks (locale \<open>refinement\<close>).

  \<^bold>\<open>Bounds.\<close> No definition needs fuel. The loop runs against a list of \<^verbatim>\<open>epoll_wait\<close> results and
  returns when the list or the program ends it; runs of servers, connections and timers are
  folds over lists of events of any length; the concurrent components are inductive
  relations without a bound on threads, tasks or steps, and their termination theorems give
  the measure that decreases.

  \<^bold>\<open>Environment.\<close> \<^verbatim>\<open>readv\<close> returns at most what its two areas hold (\<open>readv_ok\<close>);
  \<^verbatim>\<open>write\<close> takes a prefix of its data or fails. Where a theorem needs that no write
  error loses data this is its hypothesis \<open>benign\<close>. \<^verbatim>\<open>inet_pton\<close> and \<^verbatim>\<open>inet_ntop\<close>
  are parameters; that one inverts the other is a hypothesis of the round trip. Memory is
  never exhausted, except that a vector cannot exceed \<^verbatim>\<open>max_size()\<close>. A condition variable
  releases its mutex as it starts to wait, and may wake up spuriously. The clock stands still
  during one operation and is read anew with each event.

  \<^bold>\<open>Not modelled.\<close> \<^verbatim>\<open>nocopyable.hpp\<close> and \<^verbatim>\<open>Singleton.hpp\<close> have no behaviour of their own. Log
  lines inside the other classes have no effect on their state. The handler
  installed for \<^verbatim>\<open>SIGPIPE\<close> and the closing of descriptors by destructors are not seen by the
  program. The \<^verbatim>\<open>main\<close> functions under \<^verbatim>\<open>src/test\<close>, except that of the timer program, only call
  the library on fixed input.
\<close>

end
